(* ===== verification/Prelude.thy ===== *)
theory Prelude
  imports Complex_Main "HOL-Library.Word" "HOL-Library.Signed_Division"
begin

text \<open>
  Shared vocabulary of the development: the machine integers of the C code, the
  collections of hints the component theories fill, and generic facts about lists
  that are updated by index.

  C's fixed-width unsigned integers are words, so subtraction and addition wrap as
  they do in the program. C's \<open>int\<close> is \<open>int\<close> where its values stay small (indices,
  file descriptors, identifiers); a cast between the two widths is written out.
\<close>

type_synonym u8 = "8 word"
type_synonym u32 = "32 word"
type_synonym u64 = "64 word"

text \<open>
  \<open>bounds\<close>: facts of the form "the invariant gives this index or counter its range".
  \<open>keeps\<close>: preservation of a component's invariant by its operations.
  \<open>views\<close>: what an operation does to the abstraction of a component's state.
\<close>

named_theorems bounds
named_theorems keeps
named_theorems views

subsection \<open>Instrumented worlds\<close>

text \<open>
  System calls are functions on a world. \<open>along\<close> and \<open>along_eff\<close> run a call, with or without a result,
  on a world that carries a record of what the program holds, and leave the record alone.
\<close>

definition along :: "('w \<Rightarrow> 'a \<times> 'w) \<Rightarrow> 'w \<times> 'r \<Rightarrow> 'a \<times> 'w \<times> 'r" where
  "along f = (\<lambda>(w, r). let (a, w') = f w in (a, (w', r)))"

definition along_eff :: "('w \<Rightarrow> 'w) \<Rightarrow> 'w \<times> 'r \<Rightarrow> 'w \<times> 'r" where
  "along_eff f = (\<lambda>(w, r). (f w, r))"

lemma along_simps [simp]:
  "snd (snd (along f w)) = snd w" "fst (along f w) = fst (f (fst w))" "fst (snd (along f w)) = snd (f (fst w))"
  "snd (along_eff g w) = snd w" "fst (along_eff g w) = g (fst w)"
  by (simp_all add: along_def along_eff_def case_prod_beta Let_def)

subsection \<open>Casts\<close>

text \<open>\<open>(uint32_t)x\<close> and \<open>(int)x\<close>: reduction modulo \<open>2 ^ 32\<close>, read unsigned or signed.\<close>

definition u32_of_int :: "int \<Rightarrow> u32" where
  "u32_of_int x = word_of_int x"

definition int_of_u32 :: "u32 \<Rightarrow> int" where
  "int_of_u32 w = sint w"

lemma int_of_u32_of_int:
  assumes "- (2 ^ 31) \<le> x" "x < 2 ^ 31"
  shows "int_of_u32 (u32_of_int x) = x"
  using assms by (simp add: int_of_u32_def u32_of_int_def sint_sbintrunc' signed_take_bit_int_eq_self)

subsection \<open>Unsigned subtraction\<close>

text \<open>A counter delta \<open>cur - prev\<close> is the true difference exactly when it does not go back.\<close>

lemma unat_minus_le: "prev \<le> cur \<Longrightarrow> unat (cur - prev) = unat cur - unat prev"
  for cur prev :: u64
  by (rule unat_sub)

subsection \<open>C's remainder\<close>

text \<open>\<open>%\<close> truncates towards zero; on the index ranges of the code it is \<open>mod\<close>.\<close>

lemma smod_nonneg: "0 \<le> a \<Longrightarrow> 0 < b \<Longrightarrow> a smod b = a mod b" for a b :: int
  by (cases "a = 0") (simp_all add: smod_int_alt_def)

lemma mod_wrap: "0 \<le> a \<Longrightarrow> a < 2 * n \<Longrightarrow> a mod n = (if a < n then a else a - n)" for a n :: int
proof (cases "a < n")
  case False
  assume "0 \<le> a" "a < 2 * n"
  then have "(a - n) mod n = a - n" using False by (intro mod_pos_pos_trivial) simp_all
  then show ?thesis using False by simp
qed simp

lemma mod_neg_wrap: "- n \<le> a \<Longrightarrow> a < n \<Longrightarrow> a mod n = (if 0 \<le> a then a else a + n)" for a n :: int
proof (cases "0 \<le> a")
  case False
  assume "- n \<le> a" "a < n"
  then have "(a + n) mod n = a + n" using False by (intro mod_pos_pos_trivial) simp_all
  then show ?thesis using False by simp
qed simp

subsection \<open>Lists updated by index\<close>

lemma map_nth_upt_update:
  assumes "n \<le> i" shows "map (\<lambda>j. (xs[i := v]) ! j) [0..<n] = map ((!) xs) [0..<n]"
  using assms by (auto simp: nth_list_update)

lemma take_Suc_update:
  assumes "i < length xs" shows "take (Suc i) (xs[i := v]) = take i xs @ [v]"
  using assms by (simp add: take_Suc_conv_app_nth)

lemma nth_update_if:
  "i < length xs \<Longrightarrow> (xs[i := v]) ! j = (if i = j then v else xs ! j)"
  by (simp add: nth_list_update)

subsection \<open>The last elements of a list\<close>

definition last_n :: "nat \<Rightarrow> 'a list \<Rightarrow> 'a list" where
  "last_n n xs = drop (length xs - n) xs"

lemma length_last_n [simp]: "length (last_n n xs) = min n (length xs)"
  by (simp add: last_n_def)

lemma last_n_short: "length xs \<le> n \<Longrightarrow> last_n n xs = xs"
  by (simp add: last_n_def)

lemma last_n_snoc_full: "length xs = n \<Longrightarrow> 0 < n \<Longrightarrow> last_n n (xs @ [x]) = tl xs @ [x]"
  by (cases xs) (simp_all add: last_n_def)

lemma last_n_append_last_n: "last_n n (last_n n xs @ ys) = last_n n (xs @ ys)"
  by (cases "length xs \<le> n") (auto simp: last_n_def add.commute)

lemma set_last_n: "set (last_n n xs) \<subseteq> set xs"
  by (simp add: last_n_def set_drop_subset)

lemma set_tl_subset: "set (tl xs) \<subseteq> set xs"
  by (cases xs) auto

subsection \<open>Sums over lists\<close>

lemma sum_list_bound:
  fixes xs :: "real list"
  assumes "\<forall>x \<in> set xs. 0 \<le> x \<and> x \<le> b"
  shows "0 \<le> sum_list xs \<and> sum_list xs \<le> of_nat (length xs) * b"
  using assms by (induction xs) (auto simp: algebra_simps)

end
