(* ===== verification/Bpf_Map.thy ===== *)
theory Bpf_Map
  imports Prelude "HOL-Library.AList"
begin

text \<open>
  BPF hash maps as the helpers document them: a bounded dictionary whose update obeys a
  flag, refuses a new key when the map holds \<open>max_entries\<close> keys, and whose lookups and
  deletes are exact. The interface is the locale \<open>bpf_hash\<close>; the association lists used to
  model the maps of the program provide it.
\<close>

datatype bpf_flag = BPF_ANY | BPF_NOEXIST

abbreviation EEXIST :: int where "EEXIST \<equiv> 17"
abbreviation E2BIG :: int where "E2BIG \<equiv> 7"

type_synonym ('k, 'v) bpf_hash = "('k \<times> 'v) list"

definition bpf_map_lookup_elem :: "('k, 'v) bpf_hash \<Rightarrow> 'k \<Rightarrow> 'v option" where
  "bpf_map_lookup_elem m k = map_of m k"

definition bpf_map_update_elem ::
  "nat \<Rightarrow> bpf_flag \<Rightarrow> 'k \<Rightarrow> 'v \<Rightarrow> ('k, 'v) bpf_hash \<Rightarrow> int \<times> ('k, 'v) bpf_hash" where
  "bpf_map_update_elem max_entries flag k v m =
    (case map_of m k of
       Some _ \<Rightarrow> if flag = BPF_NOEXIST then (- EEXIST, m) else (0, AList.update k v m)
     | None \<Rightarrow> if max_entries \<le> length m then (- E2BIG, m) else (0, AList.update k v m))"

definition bpf_map_delete_elem :: "'k \<Rightarrow> ('k, 'v) bpf_hash \<Rightarrow> ('k, 'v) bpf_hash" where
  "bpf_map_delete_elem k m = AList.delete k m"

text \<open>Distinct keys, and no more of them than the map has room for.\<close>

definition bpf_map_ok :: "nat \<Rightarrow> ('k, 'v) bpf_hash \<Rightarrow> bool" where
  "bpf_map_ok max_entries m \<longleftrightarrow> distinct (map fst m) \<and> length m \<le> max_entries"

locale bpf_hash =
  fixes lookup :: "'m \<Rightarrow> 'k \<Rightarrow> 'v option"
    and update :: "bpf_flag \<Rightarrow> 'k \<Rightarrow> 'v \<Rightarrow> 'm \<Rightarrow> int \<times> 'm"
    and delete :: "'k \<Rightarrow> 'm \<Rightarrow> 'm"
    and used :: "'m \<Rightarrow> nat" and ok :: "'m \<Rightarrow> bool" and room :: nat
  assumes ok_update: "ok m \<Longrightarrow> ok (snd (update f k v m))"
    and ok_delete: "ok m \<Longrightarrow> ok (delete k m)"
    and ok_bound: "ok m \<Longrightarrow> used m \<le> room"
    and update_new: "lookup m k = None \<Longrightarrow> used m < room \<Longrightarrow>
      lookup (snd (update f k v m)) = (lookup m)(k \<mapsto> v)"
    and update_full: "lookup m k = None \<Longrightarrow> room \<le> used m \<Longrightarrow> snd (update f k v m) = m"
    and update_any: "lookup m k = Some u \<Longrightarrow> lookup (snd (update BPF_ANY k v m)) = (lookup m)(k \<mapsto> v)"
    and update_noexist: "lookup m k = Some u \<Longrightarrow> snd (update BPF_NOEXIST k v m) = m"
    and lookup_delete: "lookup (delete k m) = (lookup m)(k := None)"
begin

text \<open>What an update does to any key, in one equation.\<close>

lemma lookup_update:
  "lookup (snd (update f k v m)) j =
    (if j \<noteq> k then lookup m j
     else case lookup m k of None \<Rightarrow> if used m < room then Some v else None
        | Some u \<Rightarrow> if f = BPF_NOEXIST then Some u else Some v)"
  using update_new [of m k f v] update_full [of m k f v] update_any [of m k _ v]
    update_noexist [of m k _ v]
  by (cases f; cases "lookup m k"; cases "used m < room") auto

lemma lookup_update_other [simp]: "j \<noteq> k \<Longrightarrow> lookup (snd (update f k v m)) j = lookup m j"
  by (simp add: lookup_update)

lemma update_present: "lookup m k \<noteq> None \<Longrightarrow> lookup (snd (update f k v m)) k \<noteq> None"
  by (auto simp: lookup_update)

lemma update_any_present: "lookup m k \<noteq> None \<Longrightarrow> lookup (snd (update BPF_ANY k v m)) k = Some v"
  by (auto simp: lookup_update)

text \<open>Once a key is in the map an update never silently fails.\<close>

lemma delete_then_absent: "lookup (delete k m) k = None"
  by (simp add: lookup_delete)

end

lemma bpf_map_ok_update [keeps]:
  "bpf_map_ok n m \<Longrightarrow> bpf_map_ok n (snd (bpf_map_update_elem n f k v m))"
proof -
  assume ok: "bpf_map_ok n m"
  have "length (AList.update k v m) = (if k \<in> fst ` set m then length m else Suc (length m))"
    by (induction m) auto
  then show ?thesis using ok
    by (auto simp: bpf_map_ok_def bpf_map_update_elem_def distinct_update map_of_eq_None_iff
        dest: map_of_SomeD split: option.splits intro: rev_image_eqI)
qed

lemma bpf_map_ok_delete [keeps]: "bpf_map_ok n m \<Longrightarrow> bpf_map_ok n (bpf_map_delete_elem k m)"
  using length_delete_le [of k m]
  by (auto simp: bpf_map_ok_def bpf_map_delete_elem_def distinct_delete)

lemma bpf_map_ok_length: "bpf_map_ok n m \<Longrightarrow> length m \<le> n"
  by (simp add: bpf_map_ok_def)

interpretation bmap: bpf_hash "bpf_map_lookup_elem" "bpf_map_update_elem n" bpf_map_delete_elem
  length "bpf_map_ok n" n
  for n :: nat
proof (unfold_locales, goal_cases)
  case 1
  then show ?case by (rule bpf_map_ok_update)
next
  case 2
  then show ?case by (rule bpf_map_ok_delete)
next
  case 3
  then show ?case by (rule bpf_map_ok_length)
qed (auto simp: bpf_map_update_elem_def bpf_map_lookup_elem_def bpf_map_delete_elem_def
    update_conv' delete_conv')

text \<open>\<open>__atomic_fetch_add\<close> through the looked-up pointer, or an insert when there is none.\<close>

definition bpf_map_add :: "nat \<Rightarrow> 'k \<Rightarrow> u64 \<Rightarrow> ('k, u64) bpf_hash \<Rightarrow> ('k, u64) bpf_hash" where
  "bpf_map_add max_entries k d m =
    (case bpf_map_lookup_elem m k of
       Some c \<Rightarrow> AList.update k (c + d) m
     | None \<Rightarrow> snd (bpf_map_update_elem max_entries BPF_ANY k d m))"

lemma bpf_map_add_as_update:
  "bpf_map_add n k d m = snd (bpf_map_update_elem n BPF_ANY k
     ((case bpf_map_lookup_elem m k of Some c \<Rightarrow> c | None \<Rightarrow> 0) + d) m)"
  by (simp add: bpf_map_add_def bpf_map_update_elem_def bpf_map_lookup_elem_def split: option.split)

lemma bpf_map_ok_add [keeps]: "bpf_map_ok n m \<Longrightarrow> bpf_map_ok n (bpf_map_add n k d m)"
  by (simp add: bpf_map_add_as_update bpf_map_ok_update)

lemma lookup_add_other [simp]:
  "j \<noteq> k \<Longrightarrow> bpf_map_lookup_elem (bpf_map_add n k d m) j = bpf_map_lookup_elem m j"
  by (simp add: bpf_map_add_as_update)

lemma lookup_add_present:
  "bpf_map_lookup_elem m k = Some c \<Longrightarrow> bpf_map_lookup_elem (bpf_map_add n k d m) k = Some (c + d)"
  by (simp add: bpf_map_add_as_update bmap.lookup_update)

lemma lookup_add_new:
  "bpf_map_lookup_elem m k = None \<Longrightarrow> length m < n \<Longrightarrow>
    bpf_map_lookup_elem (bpf_map_add n k d m) k = Some d"
  by (simp add: bpf_map_add_as_update bmap.lookup_update)

end
