(* ===== verification/Bpf_Program.thy ===== *)
theory Bpf_Program
  imports Bpf_Map
begin

text \<open>
  The kernel-side program \<^verbatim>\<open>bpf/ctx_switch.bpf.c\<close>: its nine maps and its seven tracepoint
  handlers, each a function from the map state to the map state. What a handler reads from
  the kernel (the clock, the CPU, the current task, the tracepoint arguments) are its
  arguments. A trace is a list of events; the theorems say what the counters the daemon
  reads mean after any trace.
\<close>

subsection \<open>Maps\<close>

abbreviation MAX_ENTRIES :: nat where "MAX_ENTRIES \<equiv> 10240"
abbreviation MAX_INFLIGHT :: nat where "MAX_INFLIGHT \<equiv> 4096"

record bio_info =
  issue_ts :: u64
  bio_pid :: u32

record bpf_maps =
  vol_ctx_switch :: "(u32, u64) bpf_hash"
  active_pids :: "(u32, u32) bpf_hash"
  io_counts :: "(u32, u64) bpf_hash"
  io_wait_ns :: "(u32, u64) bpf_hash"
  rq_enqueue_ts :: "(u32, u64) bpf_hash"
  rq_wait_ns :: "(u32, u64) bpf_hash"
  exec_comms :: "(u32, string) bpf_hash"
  pid_last_cpu :: "(u32, u32) bpf_hash"
  bio_inflight :: "(u64, bio_info) bpf_hash"

definition bpf_empty :: bpf_maps where
  "bpf_empty = \<lparr>vol_ctx_switch = [], active_pids = [], io_counts = [], io_wait_ns = [],
     rq_enqueue_ts = [], rq_wait_ns = [], exec_comms = [], pid_last_cpu = [], bio_inflight = []\<rparr>"

abbreviation lookup :: "('k, 'v) bpf_hash \<Rightarrow> 'k \<Rightarrow> 'v option" where
  "lookup \<equiv> bpf_map_lookup_elem"

abbreviation update :: "bpf_flag \<Rightarrow> u32 \<Rightarrow> 'v \<Rightarrow> (u32, 'v) bpf_hash \<Rightarrow> (u32, 'v) bpf_hash" where
  "update f k v m \<equiv> snd (bpf_map_update_elem MAX_ENTRIES f k v m)"

abbreviation add :: "u32 \<Rightarrow> u64 \<Rightarrow> (u32, u64) bpf_hash \<Rightarrow> (u32, u64) bpf_hash" where
  "add \<equiv> bpf_map_add MAX_ENTRIES"

abbreviation delete :: "'k \<Rightarrow> ('k, 'v) bpf_hash \<Rightarrow> ('k, 'v) bpf_hash" where
  "delete \<equiv> bpf_map_delete_elem"

subsection \<open>Handlers\<close>

text \<open>The runqueue wait of the task being switched in: charged once, then the stamp is cleared.\<close>

definition charge_rq_wait :: "u64 \<Rightarrow> u32 \<Rightarrow> bpf_maps \<Rightarrow> bpf_maps" where
  "charge_rq_wait now next_pid m =
    (case lookup (rq_enqueue_ts m) next_pid of
       None \<Rightarrow> m
     | Some ts \<Rightarrow>
         if ts > 0 then
           (let wait = now - ts;
                m1 = (if wait < 10000000000
                      then m\<lparr>rq_wait_ns := add next_pid wait (rq_wait_ns m)\<rparr> else m)
            in m1\<lparr>rq_enqueue_ts := update BPF_ANY next_pid 0 (rq_enqueue_ts m1)\<rparr>)
         else m)"

definition handle_sched_switch ::
  "u64 \<Rightarrow> u32 \<Rightarrow> u32 \<Rightarrow> int \<Rightarrow> u32 \<Rightarrow> bpf_maps \<Rightarrow> bpf_maps" where
  "handle_sched_switch now cpu prev_pid prev_state next_pid m =
    (let m1 = (if prev_pid > 1
               then m\<lparr>pid_last_cpu := update BPF_ANY prev_pid cpu (pid_last_cpu m)\<rparr> else m);
         m2 = (if next_pid > 1
               then m1\<lparr>pid_last_cpu := update BPF_ANY next_pid cpu (pid_last_cpu m1)\<rparr> else m1);
         m3 = (if prev_pid \<noteq> 0 \<and> prev_state \<noteq> 0
               then m2\<lparr>vol_ctx_switch := add prev_pid 1 (vol_ctx_switch m2)\<rparr> else m2)
     in if next_pid = 0 then m3 else charge_rq_wait now next_pid m3)"

definition handle_sched_wakeup :: "u64 \<Rightarrow> u32 \<Rightarrow> bpf_maps \<Rightarrow> bpf_maps" where
  "handle_sched_wakeup now pid m =
    (if pid \<le> 1 then m else m\<lparr>rq_enqueue_ts := update BPF_ANY pid now (rq_enqueue_ts m)\<rparr>)"

definition handle_fork :: "u32 \<Rightarrow> bpf_maps \<Rightarrow> bpf_maps" where
  "handle_fork child_pid m =
    (if child_pid \<le> 1 then m else
     m\<lparr>active_pids := update BPF_ANY child_pid 1 (active_pids m),
       vol_ctx_switch := update BPF_NOEXIST child_pid 0 (vol_ctx_switch m),
       io_counts := update BPF_NOEXIST child_pid 0 (io_counts m),
       io_wait_ns := update BPF_NOEXIST child_pid 0 (io_wait_ns m),
       rq_wait_ns := update BPF_NOEXIST child_pid 0 (rq_wait_ns m)\<rparr>)"

definition handle_exit :: "u32 \<Rightarrow> u8 \<Rightarrow> bpf_maps \<Rightarrow> bpf_maps" where
  "handle_exit pid group_dead m =
    (if pid \<le> 1 \<or> group_dead = 0 then m else
     m\<lparr>active_pids := delete pid (active_pids m),
       vol_ctx_switch := delete pid (vol_ctx_switch m),
       io_counts := delete pid (io_counts m),
       io_wait_ns := delete pid (io_wait_ns m),
       rq_enqueue_ts := delete pid (rq_enqueue_ts m),
       rq_wait_ns := delete pid (rq_wait_ns m),
       exec_comms := delete pid (exec_comms m),
       pid_last_cpu := delete pid (pid_last_cpu m)\<rparr>)"

text \<open>\<open>(__u32)(bpf_get_current_pid_tgid() >> 32)\<close>: the process id of the current task.\<close>

definition tgid_of :: "u64 \<Rightarrow> u32" where
  "tgid_of pid_tgid = ucast (drop_bit 32 pid_tgid)"

definition handle_exec :: "u64 \<Rightarrow> string \<Rightarrow> bpf_maps \<Rightarrow> bpf_maps" where
  "handle_exec pid_tgid comm m =
    (let pid = tgid_of pid_tgid in
     if pid \<le> 1 then m else
     m\<lparr>exec_comms := update BPF_ANY pid comm (exec_comms m),
       active_pids := update BPF_NOEXIST pid 1 (active_pids m)\<rparr>)"

definition handle_block_rq_issue :: "u64 \<Rightarrow> u64 \<Rightarrow> u64 \<Rightarrow> bpf_maps \<Rightarrow> bpf_maps" where
  "handle_block_rq_issue pid_tgid now rq_ptr m =
    (let pid = tgid_of pid_tgid in
     if pid \<le> 1 then m else
     m\<lparr>bio_inflight := snd (bpf_map_update_elem MAX_INFLIGHT BPF_ANY rq_ptr
                              \<lparr>issue_ts = now, bio_pid = pid\<rparr> (bio_inflight m))\<rparr>)"

definition handle_block_rq_complete :: "u64 \<Rightarrow> u64 \<Rightarrow> bpf_maps \<Rightarrow> bpf_maps" where
  "handle_block_rq_complete now rq_ptr m =
    (case lookup (bio_inflight m) rq_ptr of
       None \<Rightarrow> m
     | Some info \<Rightarrow>
         (let pid = bio_pid info; ts = issue_ts info;
              m1 = m\<lparr>bio_inflight := delete rq_ptr (bio_inflight m)\<rparr>
          in case lookup (active_pids m1) pid of
               None \<Rightarrow> m1
             | Some _ \<Rightarrow>
                 (let m2 = m1\<lparr>io_counts := add pid 1 (io_counts m1)\<rparr>
                  in if ts > 0 \<and> now - ts < 30000000000
                     then m2\<lparr>io_wait_ns := add pid (now - ts) (io_wait_ns m2)\<rparr> else m2)))"

subsection \<open>Traces\<close>

datatype bpf_event =
    SchedSwitch u64 u32 u32 int u32
  | SchedWakeup u64 u32
  | ProcFork u32
  | ProcExit u32 u8
  | ProcExec u64 string
  | BlockIssue u64 u64 u64
  | BlockComplete u64 u64

fun bpf_step :: "bpf_maps \<Rightarrow> bpf_event \<Rightarrow> bpf_maps" where
  "bpf_step m (SchedSwitch now cpu prev st next) = handle_sched_switch now cpu prev st next m"
| "bpf_step m (SchedWakeup now pid) = handle_sched_wakeup now pid m"
| "bpf_step m (ProcFork child) = handle_fork child m"
| "bpf_step m (ProcExit pid dead) = handle_exit pid dead m"
| "bpf_step m (ProcExec pt comm) = handle_exec pt comm m"
| "bpf_step m (BlockIssue pt now rq) = handle_block_rq_issue pt now rq m"
| "bpf_step m (BlockComplete now rq) = handle_block_rq_complete now rq m"

definition bpf_run :: "bpf_maps \<Rightarrow> bpf_event list \<Rightarrow> bpf_maps" where
  "bpf_run = foldl bpf_step"

lemmas bpf_handlers = handle_sched_switch_def charge_rq_wait_def handle_sched_wakeup_def
  handle_fork_def handle_exit_def handle_exec_def handle_block_rq_issue_def
  handle_block_rq_complete_def

subsection \<open>Well-formed maps\<close>

definition bpf_ok :: "bpf_maps \<Rightarrow> bool" where
  "bpf_ok m \<longleftrightarrow> bpf_map_ok MAX_ENTRIES (vol_ctx_switch m) \<and> bpf_map_ok MAX_ENTRIES (active_pids m) \<and>
     bpf_map_ok MAX_ENTRIES (io_counts m) \<and> bpf_map_ok MAX_ENTRIES (io_wait_ns m) \<and>
     bpf_map_ok MAX_ENTRIES (rq_enqueue_ts m) \<and> bpf_map_ok MAX_ENTRIES (rq_wait_ns m) \<and>
     bpf_map_ok MAX_ENTRIES (exec_comms m) \<and> bpf_map_ok MAX_ENTRIES (pid_last_cpu m) \<and>
     bpf_map_ok MAX_INFLIGHT (bio_inflight m)"

lemmas map_keeps = bpf_map_ok_update bpf_map_ok_delete bpf_map_ok_add

lemma bpf_ok_empty: "bpf_ok bpf_empty"
  by (simp add: bpf_ok_def bpf_empty_def bpf_map_ok_def)

lemma bpf_ok_maps:
  assumes "bpf_ok m"
  shows "bpf_map_ok MAX_ENTRIES (vol_ctx_switch m)" "bpf_map_ok MAX_ENTRIES (active_pids m)"
    "bpf_map_ok MAX_ENTRIES (io_counts m)" "bpf_map_ok MAX_ENTRIES (io_wait_ns m)"
    "bpf_map_ok MAX_ENTRIES (rq_enqueue_ts m)" "bpf_map_ok MAX_ENTRIES (rq_wait_ns m)"
    "bpf_map_ok MAX_ENTRIES (exec_comms m)" "bpf_map_ok MAX_ENTRIES (pid_last_cpu m)"
    "bpf_map_ok MAX_INFLIGHT (bio_inflight m)"
  using assms by (simp_all add: bpf_ok_def)

lemma bpf_ok_set [intro]:
  assumes "bpf_ok m"
  shows "bpf_map_ok MAX_ENTRIES a \<Longrightarrow> bpf_ok (m\<lparr>vol_ctx_switch := a\<rparr>)"
    and "bpf_map_ok MAX_ENTRIES a \<Longrightarrow> bpf_ok (m\<lparr>rq_enqueue_ts := a\<rparr>)"
    and "bpf_map_ok MAX_ENTRIES a \<Longrightarrow> bpf_ok (m\<lparr>rq_wait_ns := a\<rparr>)"
    and "bpf_map_ok MAX_ENTRIES a \<Longrightarrow> bpf_ok (m\<lparr>io_counts := a\<rparr>)"
    and "bpf_map_ok MAX_ENTRIES a \<Longrightarrow> bpf_ok (m\<lparr>io_wait_ns := a\<rparr>)"
    and "bpf_map_ok MAX_ENTRIES b \<Longrightarrow> bpf_ok (m\<lparr>pid_last_cpu := b\<rparr>)"
    and "bpf_map_ok MAX_INFLIGHT c \<Longrightarrow> bpf_ok (m\<lparr>bio_inflight := c\<rparr>)"
  using assms by (simp_all add: bpf_ok_def)

lemma charge_rq_wait_ok: "bpf_ok m \<Longrightarrow> bpf_ok (charge_rq_wait now p m)"
  by (auto simp: charge_rq_wait_def Let_def bpf_ok_maps intro!: bpf_ok_set map_keeps split: option.split)

lemma handle_sched_switch_ok: "bpf_ok m \<Longrightarrow> bpf_ok (handle_sched_switch now cpu prev st nxt m)"
  by (auto simp: handle_sched_switch_def Let_def bpf_ok_maps
      intro!: charge_rq_wait_ok bpf_ok_set map_keeps)

lemma handle_block_rq_complete_ok: "bpf_ok m \<Longrightarrow> bpf_ok (handle_block_rq_complete now rq m)"
  by (auto simp: handle_block_rq_complete_def Let_def bpf_ok_maps
      intro!: bpf_ok_set map_keeps split: option.split)

lemma bpf_step_ok [keeps]: "bpf_ok m \<Longrightarrow> bpf_ok (bpf_step m e)"
proof (cases e)
  case (SchedSwitch now cpu prev st nxt)
  assume "bpf_ok m"
  then show ?thesis unfolding SchedSwitch bpf_step.simps by (rule handle_sched_switch_ok)
next
  case (BlockComplete now rq)
  assume "bpf_ok m"
  then show ?thesis unfolding BlockComplete bpf_step.simps by (rule handle_block_rq_complete_ok)
qed (simp_all add: bpf_ok_def handle_sched_wakeup_def handle_fork_def handle_exit_def handle_exec_def
    handle_block_rq_issue_def Let_def map_keeps)

lemma bpf_run_ok: "bpf_ok m \<Longrightarrow> bpf_ok (bpf_run m es)"
  unfolding bpf_run_def by (induction es arbitrary: m) (simp_all add: bpf_step_ok)

subsection \<open>Voluntary switches are counted exactly\<close>

fun is_vol_switch :: "u32 \<Rightarrow> bpf_event \<Rightarrow> bool" where
  "is_vol_switch p (SchedSwitch now cpu prev st nxt) = (prev = p \<and> p \<noteq> 0 \<and> st \<noteq> 0)"
| "is_vol_switch p _ = False"

fun is_exit :: "u32 \<Rightarrow> bpf_event \<Rightarrow> bool" where
  "is_exit p (ProcExit q dead) = (q = p \<and> 1 < p \<and> dead \<noteq> 0)"
| "is_exit p _ = False"

lemma charge_frame [simp]:
  "vol_ctx_switch (charge_rq_wait now p m) = vol_ctx_switch m"
  "active_pids (charge_rq_wait now p m) = active_pids m"
  "io_counts (charge_rq_wait now p m) = io_counts m"
  "io_wait_ns (charge_rq_wait now p m) = io_wait_ns m"
  "exec_comms (charge_rq_wait now p m) = exec_comms m"
  "pid_last_cpu (charge_rq_wait now p m) = pid_last_cpu m"
  "bio_inflight (charge_rq_wait now p m) = bio_inflight m"
  by (simp_all add: charge_rq_wait_def Let_def split: option.split)

lemma lookup_delete_other [simp]:
  "j \<noteq> k \<Longrightarrow> bpf_map_lookup_elem (bpf_map_delete_elem k m) j = bpf_map_lookup_elem m j"
  by (simp add: bmap.lookup_delete)

lemma step_counts_vol:
  assumes "lookup (vol_ctx_switch m) p = Some c" "\<not> is_exit p e"
  shows "lookup (vol_ctx_switch (bpf_step m e)) p = Some (c + (if is_vol_switch p e then 1 else 0))"
proof (cases e)
  case (SchedSwitch now cpu prev st nxt)
  then show ?thesis using assms
    by (cases "prev = p") (auto simp: handle_sched_switch_def Let_def lookup_add_present)
next
  case (ProcExit q dead)
  then show ?thesis using assms
    by (cases "q = p") (auto simp: handle_exit_def not_le)
next
  case (ProcFork q)
  then show ?thesis using assms
    by (cases "q = p") (simp_all add: handle_fork_def bmap.lookup_update)
qed (use assms in \<open>simp_all add: handle_sched_wakeup_def handle_exec_def Let_def
    handle_block_rq_issue_def handle_block_rq_complete_def split: option.split\<close>)

lemma run_counts_vol:
  assumes "lookup (vol_ctx_switch m) p = Some c" "\<forall>e \<in> set es. \<not> is_exit p e"
  shows "lookup (vol_ctx_switch (bpf_run m es)) p =
    Some (c + of_nat (length (filter (is_vol_switch p) es)))"
  using assms
proof (induction es arbitrary: m c)
  case (Cons e es)
  have "lookup (vol_ctx_switch (bpf_step m e)) p = Some (c + (if is_vol_switch p e then 1 else 0))"
    using Cons.prems by (intro step_counts_vol) simp_all
  from Cons.IH [OF this] Cons.prems(2) show ?case by (simp add: bpf_run_def algebra_simps)
qed (simp add: bpf_run_def)

subsection \<open>Runqueue and I/O waits\<close>

lemma charge_rq_wait_stamp:
  "lookup (rq_enqueue_ts (charge_rq_wait now p m)) p \<in> {None, Some 0}"
  by (cases "lookup (rq_enqueue_ts m) p")
    (auto simp: charge_rq_wait_def Let_def bmap.update_any_present word_gt_0)

lemma charge_rq_wait_some:
  assumes "lookup (rq_enqueue_ts m) p = Some ts" "0 < ts" "now - ts < 10000000000"
    "lookup (rq_wait_ns m) p = Some acc"
  shows "lookup (rq_wait_ns (charge_rq_wait now p m)) p = Some (acc + (now - ts))"
  using assms by (simp add: charge_rq_wait_def Let_def lookup_add_present)

lemma charge_rq_wait_none:
  "lookup (rq_enqueue_ts m) p \<in> {None, Some 0} \<Longrightarrow> charge_rq_wait now p m = m"
  by (auto simp: charge_rq_wait_def)

lemma switch_charges:
  "nxt \<noteq> 0 \<Longrightarrow> rq_wait_ns (handle_sched_switch now cpu prev st nxt m) = rq_wait_ns (charge_rq_wait now nxt m)"
  "nxt \<noteq> 0 \<Longrightarrow> rq_enqueue_ts (handle_sched_switch now cpu prev st nxt m) = rq_enqueue_ts (charge_rq_wait now nxt m)"
  by (simp_all add: handle_sched_switch_def charge_rq_wait_def Let_def split: option.split)

lemma issue_records:
  assumes "1 < tgid_of pt" "lookup (bio_inflight m) rq \<noteq> None \<or> length (bio_inflight m) < MAX_INFLIGHT"
  shows "lookup (bio_inflight (handle_block_rq_issue pt now rq m)) rq =
    Some \<lparr>issue_ts = now, bio_pid = tgid_of pt\<rparr>"
  using assms
  by (auto simp: handle_block_rq_issue_def Let_def bmap.lookup_update dest: leD split: option.split)

lemma issue_frame [simp]:
  "active_pids (handle_block_rq_issue pt now rq m) = active_pids m"
  "io_counts (handle_block_rq_issue pt now rq m) = io_counts m"
  "io_wait_ns (handle_block_rq_issue pt now rq m) = io_wait_ns m"
  by (simp_all add: handle_block_rq_issue_def Let_def)

lemma complete_charges:
  assumes "lookup (bio_inflight m) rq = Some \<lparr>issue_ts = ts, bio_pid = p\<rparr>"
    "lookup (active_pids m) p \<noteq> None" "lookup (io_counts m) p = Some c" "lookup (io_wait_ns m) p = Some a"
  shows "lookup (io_counts (handle_block_rq_complete now rq m)) p = Some (c + 1)"
    and "lookup (io_wait_ns (handle_block_rq_complete now rq m)) p =
      Some (if ts > 0 \<and> now - ts < 30000000000 then a + (now - ts) else a)"
    and "lookup (bio_inflight (handle_block_rq_complete now rq m)) rq = None"
  using assms by (auto simp: handle_block_rq_complete_def Let_def lookup_add_present bmap.lookup_delete)

subsection \<open>Block requests over a trace\<close>

fun is_issue :: "bpf_event \<Rightarrow> bool" where
  "is_issue (BlockIssue pt now rq) = True"
| "is_issue _ = False"

text \<open>
  The reference: the issue and completion times of the requests of \<open>p\<close> that complete in the
  trace, in the order of their completions. \<open>I\<close> holds the outstanding requests, without any bound on
  their number.
\<close>

fun completions :: "u32 \<Rightarrow> (u64 \<Rightarrow> bio_info option) \<Rightarrow> bpf_event list \<Rightarrow> (u64 \<times> u64) list" where
  "completions p I [] = []"
| "completions p I (e # es) =
    (case e of
       BlockIssue pt now rq \<Rightarrow>
         completions p (if tgid_of pt \<le> 1 then I else I(rq \<mapsto> \<lparr>issue_ts = now, bio_pid = tgid_of pt\<rparr>)) es
     | BlockComplete now rq \<Rightarrow>
         (case I rq of Some r \<Rightarrow> if bio_pid r = p then [(issue_ts r, now)] else [] | None \<Rightarrow> [])
           @ completions p (I(rq := None)) es
     | _ \<Rightarrow> completions p I es)"

text \<open>The wait charged for a list of completed requests.\<close>

definition io_charged :: "(u64 \<times> u64) list \<Rightarrow> u64" where
  "io_charged L = sum_list (map (\<lambda>(t1, t2). t2 - t1) (filter (\<lambda>(t1, t2). 0 < t1 \<and> t2 - t1 < 30000000000) L))"

lemma io_charged_append: "io_charged (L @ M) = io_charged L + io_charged M"
  by (simp add: io_charged_def)

lemma inflight_length: "length (snd (bpf_map_update_elem n f k v m)) \<le> Suc (length m)"
proof -
  have "length (AList.update k v m) \<le> Suc (length m)" by (induction m) auto
  then show ?thesis by (auto simp: bpf_map_update_elem_def split: option.split)
qed

text \<open>Only a completion of an outstanding request changes what is counted for a process that lives on.\<close>

lemma quiet_io:
  assumes "lookup (active_pids m) p \<noteq> None" "lookup (io_counts m) p = Some c" "lookup (io_wait_ns m) p = Some a"
    "\<not> is_exit p e" "\<nexists>now rq r. e = BlockComplete now rq \<and> lookup (bio_inflight m) rq = Some r"
  shows "lookup (active_pids (bpf_step m e)) p \<noteq> None \<and> lookup (io_counts (bpf_step m e)) p = Some c \<and>
    lookup (io_wait_ns (bpf_step m e)) p = Some a"
proof (cases e)
  case (ProcFork q)
  then show ?thesis using assms by (cases "q = p") (auto simp: handle_fork_def bmap.lookup_update)
next
  case (ProcExit q dead)
  then show ?thesis using assms by (cases "q = p") (auto simp: handle_exit_def not_le)
next
  case (ProcExec pt comm)
  then show ?thesis using assms by (cases "tgid_of pt = p") (auto simp: handle_exec_def Let_def bmap.lookup_update)
next
  case (BlockComplete now rq)
  then show ?thesis using assms by (cases "lookup (bio_inflight m) rq") (auto simp: handle_block_rq_complete_def)
qed (use assms in \<open>simp_all add: handle_sched_switch_def handle_sched_wakeup_def Let_def\<close>)

text \<open>One event: what it adds for \<open>p\<close>, and the outstanding requests it leaves.\<close>

lemma step_accounts_io:
  assumes "lookup (active_pids m) p \<noteq> None" "lookup (io_counts m) p = Some c" "lookup (io_wait_ns m) p = Some a"
    "\<not> is_exit p e" "length (bio_inflight m) + (if is_issue e then 1 else 0) \<le> MAX_INFLIGHT"
  obtains L where "completions p (lookup (bio_inflight m)) (e # es) = L @ completions p (lookup (bio_inflight (bpf_step m e))) es"
    "lookup (active_pids (bpf_step m e)) p \<noteq> None" "lookup (io_counts (bpf_step m e)) p = Some (c + of_nat (length L))"
    "lookup (io_wait_ns (bpf_step m e)) p = Some (a + io_charged L)"
    "length (bio_inflight (bpf_step m e)) \<le> length (bio_inflight m) + (if is_issue e then 1 else 0)"
proof (cases "\<exists>now rq r. e = BlockComplete now rq \<and> lookup (bio_inflight m) rq = Some r")
  case False
  then have "completions p (lookup (bio_inflight m)) (e # es) = completions p (lookup (bio_inflight (bpf_step m e))) es"
    using assms(5)
    by (cases e) (auto simp: handle_sched_switch_def Let_def handle_sched_wakeup_def handle_fork_def handle_exit_def
        handle_exec_def handle_block_rq_issue_def handle_block_rq_complete_def bmap.lookup_update fun_eq_iff
        split: option.split intro!: arg_cong [of _ _ "\<lambda>I. completions p I es"])
  moreover have "lookup (active_pids (bpf_step m e)) p \<noteq> None \<and> lookup (io_counts (bpf_step m e)) p = Some c \<and>
      lookup (io_wait_ns (bpf_step m e)) p = Some a"
    using quiet_io [of m p c a e] assms False by blast
  moreover have "length (bio_inflight (bpf_step m e)) \<le> length (bio_inflight m) + (if is_issue e then 1 else 0)"
    using False by (cases e) (auto simp: handle_sched_switch_def Let_def handle_sched_wakeup_def handle_fork_def
        handle_exit_def handle_exec_def handle_block_rq_issue_def handle_block_rq_complete_def inflight_length split: option.split)
  ultimately show thesis using that [of "[]"] by (simp add: io_charged_def)
next
  case True
  then obtain now rq r where e: "e = BlockComplete now rq" and r: "lookup (bio_inflight m) rq = Some r" by blast
  let ?L = "if bio_pid r = p then [(issue_ts r, now)] else []"
  let ?m = "handle_block_rq_complete now rq m"
  have i: "bio_inflight ?m = delete rq (bio_inflight m)"
    using r by (simp add: handle_block_rq_complete_def Let_def split: option.split)
  have "lookup (bio_inflight ?m) = (lookup (bio_inflight m))(rq := None)" by (simp add: i bmap.lookup_delete)
  then have "completions p (lookup (bio_inflight m)) (e # es) = ?L @ completions p (lookup (bio_inflight (bpf_step m e))) es"
    by (simp add: e r)
  moreover have "active_pids ?m = active_pids m"
    using r by (simp add: handle_block_rq_complete_def Let_def split: option.split)
  moreover have "lookup (io_counts ?m) p = Some (c + of_nat (length ?L)) \<and> lookup (io_wait_ns ?m) p = Some (a + io_charged ?L)"
  proof (cases "bio_pid r = p")
    case True
    then have "r = \<lparr>issue_ts = issue_ts r, bio_pid = p\<rparr>" by simp
    with r have "lookup (bio_inflight m) rq = Some \<lparr>issue_ts = issue_ts r, bio_pid = p\<rparr>" by simp
    from complete_charges [OF this assms(1-3)] True show ?thesis by (simp add: io_charged_def)
  next
    case False
    then show ?thesis using r assms(1-3)
      by (simp add: handle_block_rq_complete_def Let_def io_charged_def split: option.split)
  qed
  moreover have "length (bio_inflight ?m) \<le> length (bio_inflight m)"
    using length_delete_le [of rq "bio_inflight m"] by (simp add: i bpf_map_delete_elem_def)
  ultimately show thesis using that [of ?L] assms(1) by (simp add: e)
qed

lemma run_accounts_io:
  assumes "lookup (active_pids m) p \<noteq> None" "lookup (io_counts m) p = Some c" "lookup (io_wait_ns m) p = Some a"
    "\<forall>e \<in> set es. \<not> is_exit p e" "length (bio_inflight m) + length (filter is_issue es) \<le> MAX_INFLIGHT"
  shows "lookup (io_counts (bpf_run m es)) p = Some (c + of_nat (length (completions p (lookup (bio_inflight m)) es))) \<and>
    lookup (io_wait_ns (bpf_run m es)) p = Some (a + io_charged (completions p (lookup (bio_inflight m)) es))"
  using assms
proof (induction es arbitrary: m c a)
  case (Cons e es)
  have "\<not> is_exit p e" "length (bio_inflight m) + (if is_issue e then 1 else 0) \<le> MAX_INFLIGHT"
    using Cons.prems(4,5) by auto
  from step_accounts_io [OF Cons.prems(1-3) this, of es] obtain L where
    L: "completions p (lookup (bio_inflight m)) (e # es) = L @ completions p (lookup (bio_inflight (bpf_step m e))) es"
    "lookup (active_pids (bpf_step m e)) p \<noteq> None" "lookup (io_counts (bpf_step m e)) p = Some (c + of_nat (length L))"
    "lookup (io_wait_ns (bpf_step m e)) p = Some (a + io_charged L)"
    "length (bio_inflight (bpf_step m e)) \<le> length (bio_inflight m) + (if is_issue e then 1 else 0)" by blast
  have "\<forall>e \<in> set es. \<not> is_exit p e" "length (bio_inflight (bpf_step m e)) + length (filter is_issue es) \<le> MAX_INFLIGHT"
    using Cons.prems(4,5) L(5) by (auto split: if_splits)
  from Cons.IH [OF L(2-4) this] show ?case
    unfolding L(1) by (simp add: io_charged_append bpf_run_def algebra_simps)
qed (simp add: bpf_run_def io_charged_def)

subsection \<open>Cleaning up after a task\<close>

definition pid_absent :: "bpf_maps \<Rightarrow> u32 \<Rightarrow> bool" where
  "pid_absent m p \<longleftrightarrow> lookup (vol_ctx_switch m) p = None \<and> lookup (active_pids m) p = None \<and>
     lookup (io_counts m) p = None \<and> lookup (io_wait_ns m) p = None \<and>
     lookup (rq_enqueue_ts m) p = None \<and> lookup (rq_wait_ns m) p = None \<and>
     lookup (exec_comms m) p = None \<and> lookup (pid_last_cpu m) p = None"

text \<open>What the maps hold about one pid.\<close>

definition pid_view where
  "pid_view m p = (lookup (vol_ctx_switch m) p, lookup (active_pids m) p, lookup (io_counts m) p,
     lookup (io_wait_ns m) p, lookup (rq_enqueue_ts m) p, lookup (rq_wait_ns m) p,
     lookup (exec_comms m) p, lookup (pid_last_cpu m) p)"

lemma exit_cleans: "1 < p \<Longrightarrow> dead \<noteq> 0 \<Longrightarrow> pid_absent (handle_exit p dead m) p"
  by (auto simp: pid_absent_def handle_exit_def bmap.lookup_delete dest: leD)

lemma exit_frame: "q \<noteq> p \<Longrightarrow> pid_view (handle_exit p dead m) q = pid_view m q"
  by (simp add: pid_view_def handle_exit_def)

text \<open>
  A thread's fork and exit: the exit of a thread that is not the last of its group leaves
  every entry the fork made.
\<close>

fun thread_churn :: "u32 list \<Rightarrow> bpf_event list" where
  "thread_churn [] = []"
| "thread_churn (t # ts) = ProcFork t # ProcExit t 0 # thread_churn ts"

lemma update_new_length:
  "lookup m k = None \<Longrightarrow> length (update f k v m) = min (length m + 1) (max (length m) MAX_ENTRIES)"
proof -
  assume n: "lookup m k = None"
  then have "k \<notin> fst ` set m" by (simp add: bpf_map_lookup_elem_def map_of_eq_None_iff)
  then have "length (AList.update k v m) = length m + 1" by (induction m) auto
  then show ?thesis using n by (auto simp: bpf_map_update_elem_def bpf_map_lookup_elem_def)
qed

lemma churn_leaks:
  assumes "distinct ts" "\<forall>t \<in> set ts. 1 < t \<and> lookup (active_pids m) t = None"
    "length (active_pids m) \<le> MAX_ENTRIES"
  shows "length (active_pids (bpf_run m (thread_churn ts))) = min MAX_ENTRIES (length (active_pids m) + length ts)"
  using assms
proof (induction ts arbitrary: m)
  case (Cons t ts)
  let ?m = "handle_fork t m"
  have s: "bpf_run m (thread_churn (t # ts)) = bpf_run ?m (thread_churn ts)"
    by (simp add: bpf_run_def handle_exit_def)
  have a: "active_pids ?m = update BPF_ANY t 1 (active_pids m)"
    using Cons.prems(2) by (auto simp: handle_fork_def dest: leD)
  have l: "length (active_pids ?m) = min (length (active_pids m) + 1) MAX_ENTRIES"
    using Cons.prems unfolding a by (subst update_new_length) auto
  have "lookup (active_pids ?m) u = None" if "u \<in> set ts" for u
  proof -
    have "u \<noteq> t" using that Cons.prems(1) by auto
    then show ?thesis using that Cons.prems(2) unfolding a by simp
  qed
  then have "\<forall>u \<in> set ts. 1 < u \<and> lookup (active_pids ?m) u = None"
    using Cons.prems(2) by simp
  with Cons.IH [of ?m] Cons.prems(1) show ?case unfolding s by (simp add: l)
qed (simp add: bpf_run_def)

subsection \<open>Properties\<close>

text \<open>
  C34. Block requests are accounted over whole traces: for a tracked process that does not exit,
  while the in-flight table has room for the requests of the trace, the I/O count advances by
  exactly the number of completions of requests the process had outstanding, and the I/O wait
  by the sum of their latencies (those of thirty seconds and more, and requests without an
  issue stamp, left out), whatever else happens, in whatever order requests are issued,
  completed, reused or completed twice, and whoever runs when they complete.
\<close>

theorem io_requests_accounted:
  assumes "lookup (active_pids m) p \<noteq> None" and "lookup (io_counts m) p = Some c" and "lookup (io_wait_ns m) p = Some a"
    and "\<forall>e \<in> set es. \<not> is_exit p e" and "length (bio_inflight m) + length (filter is_issue es) \<le> MAX_INFLIGHT"
    and "L = completions p (lookup (bio_inflight m)) es"
  shows "lookup (io_counts (bpf_run m es)) p = Some (c + of_nat (length L)) \<and>
    lookup (io_wait_ns (bpf_run m es)) p =
      Some (a + sum_list (map (\<lambda>(t1, t2). t2 - t1) (filter (\<lambda>(t1, t2). 0 < t1 \<and> t2 - t1 < 30000000000) L)))"
  using run_accounts_io [OF assms(1-5)] assms(6) by (simp add: io_charged_def)

definition io_trace :: "bpf_event list" where
  "io_trace = [BlockIssue 330712481869 1000 5, BlockIssue 330712481869 2000 6, SchedWakeup 3000 77,
     BlockComplete 4000 6, BlockComplete 4500 6, BlockIssue 8589934592 5000 5, BlockComplete 6000 5]"

text \<open>
  C15. For a task that is in the switch map and does not exit, its counter advances over any
  trace by exactly the number of its voluntary switches (modulo \<open>2 ^ 64\<close>), undisturbed by
  the events of other tasks and by a full map.
\<close>

theorem vol_switches_counted:
  assumes "lookup (vol_ctx_switch m) p = Some c" and "\<forall>e \<in> set es. \<not> is_exit p e"
  shows "lookup (vol_ctx_switch (bpf_run m es)) p = Some (c + of_nat (length (filter (is_vol_switch p) es)))"
  using assms by (rule run_counts_vol)

definition switch_trace :: "bpf_event list" where
  "switch_trace = [SchedSwitch 5 0 40 1 41, SchedWakeup 9 40, SchedSwitch 20 0 41 0 40,
     SchedSwitch 30 1 40 2 0, ProcExit 41 1]"

theorem vol_switches_counted_witness:
  "lookup (vol_ctx_switch (bpf_run (handle_fork 40 bpf_empty) switch_trace)) 40 = Some 2"
proof -
  have "lookup (vol_ctx_switch (handle_fork 40 bpf_empty)) 40 = Some 0"
    by (simp add: handle_fork_def bmap.lookup_update word_le_nat_alt)
      (simp add: bpf_empty_def bpf_map_lookup_elem_def)
  from vol_switches_counted [OF this, of switch_trace] show ?thesis by (simp add: switch_trace_def)
qed

text \<open>
  C16. A wakeup at \<open>t\<^sub>1\<close> followed by the switch to the woken task at \<open>t\<^sub>2\<close> adds \<open>t\<^sub>2 - t\<^sub>1\<close> to the
  task's runqueue wait (waits of ten seconds and more are discarded), once: a second switch
  without a wakeup in between adds nothing.
\<close>

theorem rq_wait_charged_once:
  assumes "1 < p" and "0 < t1" and "t2 - t1 < 10000000000"
    and "lookup (rq_enqueue_ts m) p = Some old" and "lookup (rq_wait_ns m) p = Some acc"
  shows "lookup (rq_wait_ns (bpf_run m [SchedWakeup t1 p, SchedSwitch t2 cpu q st p])) p = Some (acc + (t2 - t1)) \<and>
    lookup (rq_wait_ns (bpf_run m [SchedWakeup t1 p, SchedSwitch t2 cpu q st p, SchedSwitch t3 cpu' q' st' p])) p
      = Some (acc + (t2 - t1))"
proof -
  let ?w = "handle_sched_wakeup t1 p m"
  let ?s = "handle_sched_switch t2 cpu q st p ?w"
  have p0: "p \<noteq> 0" using assms(1) by auto
  have e: "lookup (rq_enqueue_ts ?w) p = Some t1" "rq_wait_ns ?w = rq_wait_ns m"
    using assms(1,4) by (auto simp: handle_sched_wakeup_def bmap.update_any_present dest: leD)
  have a: "lookup (rq_wait_ns ?s) p = Some (acc + (t2 - t1))"
    using charge_rq_wait_some [OF e(1) assms(2,3)] assms(5) p0 by (simp add: switch_charges e(2))
  have "lookup (rq_enqueue_ts ?s) p \<in> {None, Some 0}"
    using charge_rq_wait_stamp [of t2 p ?w] p0 by (simp add: switch_charges)
  then have "lookup (rq_wait_ns (handle_sched_switch t3 cpu' q' st' p ?s)) p = lookup (rq_wait_ns ?s) p"
    using p0 by (simp add: switch_charges charge_rq_wait_none)
  with a show ?thesis by (simp add: bpf_run_def)
qed

definition rq_example :: bpf_maps where
  "rq_example = bpf_empty\<lparr>rq_enqueue_ts := [(40, 0)], rq_wait_ns := [(40, 7)]\<rparr>"

theorem rq_wait_charged_once_witness:
  "lookup (rq_wait_ns (bpf_run rq_example [SchedWakeup 100 40, SchedSwitch 350 0 0 0 40])) 40 = Some 257"
  using rq_wait_charged_once [of 40 100 350 rq_example 0 7]
  by (simp add: rq_example_def bpf_map_lookup_elem_def)

text \<open>
  C17. A block request is charged to the process that issued it, not to whoever runs when it
  completes: for a tracked issuer the completion adds one to its I/O count and the latency
  to its I/O wait (latencies of thirty seconds and more are discarded), and the request is
  forgotten, so a repeated completion adds nothing.
\<close>

theorem block_io_attributed:
  assumes "1 < tgid_of pt" and "p = tgid_of pt" and "0 < t1"
    and "length (bio_inflight m) < MAX_INFLIGHT"
    and "lookup (active_pids m) p \<noteq> None" and "lookup (io_counts m) p = Some c" and "lookup (io_wait_ns m) p = Some a"
    and "m' = bpf_run m [BlockIssue pt t1 rq, BlockComplete t2 rq]"
  shows "lookup (io_counts m') p = Some (c + 1) \<and>
    lookup (io_wait_ns m') p = Some (if t2 - t1 < 30000000000 then a + (t2 - t1) else a) \<and>
    bpf_step m' (BlockComplete t3 rq) = m'"
proof -
  let ?i = "handle_block_rq_issue pt t1 rq m"
  have "lookup (bio_inflight ?i) rq = Some \<lparr>issue_ts = t1, bio_pid = p\<rparr>"
    using issue_records [of pt m rq t1] assms(1,2,4) by simp
  note c = complete_charges [OF this, of c a t2]
  have m': "m' = handle_block_rq_complete t2 rq ?i" by (simp add: assms(8) bpf_run_def)
  have "bpf_step m' (BlockComplete t3 rq) = m'"
    using c(3) assms(5-7) by (simp add: m' handle_block_rq_complete_def [of t3])
  with c assms(3,5-7) show ?thesis by (simp add: m')
qed

definition bio_example :: bpf_maps where
  "bio_example = bpf_empty\<lparr>active_pids := [(77, 1)], io_counts := [(77, 4)], io_wait_ns := [(77, 10)]\<rparr>"

lemma tgid_example: "tgid_of 330712481869 = 77"
  by (simp add: tgid_of_def drop_bit_eq_div)

theorem block_io_attributed_witness:
  "lookup (io_wait_ns (bpf_run bio_example [BlockIssue 330712481869 1000 5, BlockComplete 4000 5])) 77 = Some 3010"
proof -
  have l: "lookup (active_pids bio_example) 77 \<noteq> None" "lookup (io_counts bio_example) 77 = Some 4"
    "lookup (io_wait_ns bio_example) 77 = Some 10" "length (bio_inflight bio_example) < MAX_INFLIGHT"
    by (simp_all add: bio_example_def bpf_empty_def bpf_map_lookup_elem_def)
  have t: "1 < tgid_of 330712481869" "77 = tgid_of 330712481869" by (simp_all add: tgid_example)
  have "lookup (io_wait_ns (bpf_run bio_example [BlockIssue 330712481869 1000 5, BlockComplete 4000 5])) 77
    = Some (if (4000 :: u64) - 1000 < 30000000000 then 10 + (4000 - 1000) else 10)"
    by (rule block_io_attributed [OF t _ l(4,1,2,3) refl, THEN conjunct2, THEN conjunct1]) simp
  then show ?thesis by simp
qed

lemma tgid_other: "tgid_of 8589934592 = 2"
  by (simp add: tgid_of_def drop_bit_eq_div)

theorem io_requests_accounted_witness:
  "lookup (io_counts (bpf_run bio_example io_trace)) 77 = Some 5 \<and>
   lookup (io_wait_ns (bpf_run bio_example io_trace)) 77 = Some 2010"
proof -
  have l: "lookup (active_pids bio_example) 77 \<noteq> None" "lookup (io_counts bio_example) 77 = Some 4"
    "lookup (io_wait_ns bio_example) 77 = Some 10"
    by (simp_all add: bio_example_def bpf_empty_def bpf_map_lookup_elem_def)
  have e: "\<forall>e \<in> set io_trace. \<not> is_exit 77 e"
    and n: "length (bio_inflight bio_example) + length (filter is_issue io_trace) \<le> MAX_INFLIGHT"
    by (simp_all add: io_trace_def bio_example_def bpf_empty_def)
  have "lookup (bio_inflight bio_example) = (\<lambda>_. None)"
    by (simp add: bio_example_def bpf_empty_def bpf_map_lookup_elem_def fun_eq_iff)
  then have c: "completions 77 (lookup (bio_inflight bio_example)) io_trace = [(2000, 4000)]"
    by (simp add: io_trace_def tgid_example tgid_other word_le_nat_alt)
  from io_requests_accounted [OF l e n c [symmetric]] show ?thesis by simp
qed

text \<open>
  C35. When the last thread of a process exits, all eight per-pid maps forget the pid and no
  other pid is touched, so a later process with the same pid starts from nothing.
\<close>

theorem exit_forgets_pid:
  assumes "1 < p" and "dead \<noteq> 0"
  shows "pid_absent (bpf_step m (ProcExit p dead)) p \<and>
    (\<forall>q. q \<noteq> p \<longrightarrow> pid_view (bpf_step m (ProcExit p dead)) q = pid_view m q)"
  using exit_cleans [OF assms] exit_frame by simp

theorem exit_forgets_pid_witness: "pid_absent (bpf_step bio_example (ProcExit 77 1)) 77"
  using exit_forgets_pid [of 77 1 bio_example] by simp

text \<open>
  C36. A thread (a task whose exit is not the last of its group) leaves the entries its fork
  made behind: after the fork and exit of any number of threads the active map has grown by
  one entry per thread, up to its capacity.
\<close>

theorem exited_threads_leak:
  assumes "distinct ts" and "\<forall>t \<in> set ts. 1 < t"
  shows "length (active_pids (bpf_run bpf_empty (thread_churn ts))) = min MAX_ENTRIES (length ts)"
proof -
  have "active_pids bpf_empty = []" by (simp add: bpf_empty_def)
  then show ?thesis using churn_leaks [OF assms(1), of bpf_empty] assms(2)
    by (simp add: bpf_map_lookup_elem_def)
qed

theorem exited_threads_leak_witness:
  "length (active_pids (bpf_run bpf_empty (thread_churn [100, 101, 102]))) = 3"
  using exited_threads_leak [of "[100, 101, 102]"] by simp

end
