(* ===== verification/C_Lib.thy ===== *)
theory C_Lib
  imports Prelude "HOL-Library.Char_ord"
begin

text \<open>
  The C library functions on strings that the program calls, on C strings given as the list
  of their characters before the terminating NUL: the \<open>strtol\<close> family with its end pointer
  (returned as the remaining suffix) and its saturation, \<open>atoi\<close>, the \<open>strncmp(p, lit, n) == 0\<close>
  prefix tests, \<open>strchr\<close>/\<open>strrchr\<close>, \<open>strtok_r\<close> on one separator, \<open>fgets\<close>, and \<open>%d\<close>
  printing, with the round trip between printing and reading a number.
\<close>

abbreviation NL :: char where "NL \<equiv> CHR 0x0A"
abbreviation NUL :: char where "NUL \<equiv> CHR 0x00"

definition isdigit :: "char \<Rightarrow> bool" where
  "isdigit c \<longleftrightarrow> (let v = of_char c :: nat in 48 \<le> v \<and> v \<le> 57)"

definition isspace :: "char \<Rightarrow> bool" where
  "isspace c \<longleftrightarrow> (let v = of_char c :: nat in v = 32 \<or> (9 \<le> v \<and> v \<le> 13))"

text \<open>The C string a buffer holds: everything before the first NUL.\<close>

definition c_str :: "string \<Rightarrow> string" where
  "c_str s = takeWhile (\<lambda>c. c \<noteq> NUL) s"

subsection \<open>Reading numbers\<close>

definition digit_val :: "char \<Rightarrow> nat" where
  "digit_val c = of_char c - 48"

definition digits_val :: "string \<Rightarrow> nat" where
  "digits_val ds = foldl (\<lambda>n c. 10 * n + digit_val c) 0 ds"

text \<open>
  Optional white space, an optional sign, decimal digits: \<open>(negative, magnitude, rest)\<close>, or
  \<open>None\<close> when there is no digit (the functions then return 0 and leave the end pointer at
  the start).
\<close>

definition scan_sign :: "string \<Rightarrow> bool \<times> string" where
  "scan_sign s = (case s of [] \<Rightarrow> (False, [])
     | c # r \<Rightarrow> if c = CHR ''-'' then (True, r) else if c = CHR ''+'' then (False, r) else (False, s))"

definition scan_number :: "string \<Rightarrow> (bool \<times> nat \<times> string) option" where
  "scan_number s =
    (let (neg, r) = scan_sign (dropWhile isspace s); ds = takeWhile isdigit r
     in if ds = [] then None else Some (neg, digits_val ds, dropWhile isdigit r))"

definition strtoull :: "string \<Rightarrow> u64 \<times> string" where
  "strtoull s = (case scan_number s of None \<Rightarrow> (0, s)
     | Some (neg, n, r) \<Rightarrow> (if 2 ^ 64 \<le> n then - 1 else if neg then - of_nat n else of_nat n, r))"

definition strtol :: "string \<Rightarrow> int \<times> string" where
  "strtol s = (case scan_number s of None \<Rightarrow> (0, s)
     | Some (neg, n, r) \<Rightarrow> (if neg then max (- (2 ^ 63)) (- int n) else min (2 ^ 63 - 1) (int n), r))"

text \<open>\<open>atoi(s)\<close> is \<open>(int) strtol(s, NULL, 10)\<close>.\<close>

definition atoi :: "string \<Rightarrow> int" where
  "atoi s = int_of_u32 (u32_of_int (fst (strtol s)))"

subsection \<open>Searching and splitting\<close>

text \<open>\<open>strchr\<close>, \<open>strrchr\<close>: the index of the first or last occurrence.\<close>

definition strchr :: "string \<Rightarrow> char \<Rightarrow> nat option" where
  "strchr s c = (if c \<in> set s then Some (length (takeWhile (\<lambda>x. x \<noteq> c) s)) else None)"

definition strrchr :: "string \<Rightarrow> char \<Rightarrow> nat option" where
  "strrchr s c = (case strchr (rev s) c of None \<Rightarrow> None | Some k \<Rightarrow> Some (length s - 1 - k))"

definition starts_with :: "string \<Rightarrow> string \<Rightarrow> bool" where
  "starts_with lit s \<longleftrightarrow> take (length lit) s = lit"

text \<open>\<open>strtok_r(s, sep)\<close> called until it returns NULL: the non-empty pieces between separators.\<close>

function strtok :: "char \<Rightarrow> string \<Rightarrow> string list" where
  "strtok sep s =
    (let r = dropWhile (\<lambda>c. c = sep) s
     in if r = [] then []
        else takeWhile (\<lambda>c. c \<noteq> sep) r # strtok sep (dropWhile (\<lambda>c. c \<noteq> sep) r))"
  by pat_completeness auto
termination
proof (relation "measure (length \<circ> snd)", goal_cases)
  case (2 sep s r)
  then have "r \<noteq> []" by simp
  then obtain c t where r: "r = c # t" by (meson neq_Nil_conv)
  have "hd r \<noteq> sep" using 2(1) \<open>r \<noteq> []\<close> hd_dropWhile [of "\<lambda>c. c = sep" s] by simp
  then have "length (dropWhile (\<lambda>c. c \<noteq> sep) r) \<le> length t" using r by (simp add: length_dropWhile_le)
  moreover have "length r \<le> length s" using 2 by (simp add: length_dropWhile_le)
  ultimately show ?case using r by simp
qed simp

declare strtok.simps [simp del]

text \<open>
  \<open>fgets(buf, n, f)\<close> on what is left of the stream: at most \<open>n - 1\<close> characters, up to and
  including the first newline; \<open>None\<close> at end of file.
\<close>

definition fgets :: "nat \<Rightarrow> string \<Rightarrow> (string \<times> string) option" where
  "fgets n s =
    (if s = [] then None
     else let l = takeWhile (\<lambda>c. c \<noteq> NL) s;
              k = min (n - 1) (if length l < length s then Suc (length l) else length l)
          in Some (take k s, drop k s))"

lemma fgets_pieces:
  assumes "fgets n s = Some (l, r)" "1 < n"
  shows "l @ r = s" and "length r < length s"
proof -
  let ?l = "takeWhile (\<lambda>c. c \<noteq> NL) s"
  have s: "s \<noteq> []" and len: "length ?l \<le> length s" using assms(1)
    by (auto simp: fgets_def length_takeWhile_le split: if_splits)
  then have "0 < min (n - 1) (if length ?l < length s then Suc (length ?l) else length ?l)"
    using assms(2) by auto
  with s assms(1) show "l @ r = s" "length r < length s"
    by (auto simp: fgets_def Let_def split: if_splits)
qed

text \<open>What stands before the first newline and fits into the buffer is delivered whole.\<close>

lemma fgets_prefix:
  assumes "NL \<notin> set h" "length h \<le> n - 1" "h \<noteq> []"
  shows "\<exists>t1 t2. fgets n (h @ t) = Some (h @ t1, t2) \<and> set t1 \<subseteq> set t"
proof -
  let ?l = "takeWhile (\<lambda>c. c \<noteq> NL) (h @ t)"
  let ?k = "min (n - 1) (if length ?l < length (h @ t) then Suc (length ?l) else length ?l)"
  have "?l = h @ takeWhile (\<lambda>c. c \<noteq> NL) t" using assms(1) by (auto simp: takeWhile_append)
  then have "length h \<le> ?k" using assms(2) by auto
  then have "take ?k (h @ t) = h @ take (?k - length h) t" by simp
  moreover have "fgets n (h @ t) = Some (take ?k (h @ t), drop ?k (h @ t))"
    using assms(3) by (simp only: fgets_def Let_def append_is_Nil_conv simp_thms if_False)
  ultimately show ?thesis by (metis set_take_subset)
qed

text \<open>The text after the current line: \<open>while (*p && *p != '\n') p++; if (*p == '\n') p++\<close>.\<close>

definition next_line :: "string \<Rightarrow> string" where
  "next_line p = (case dropWhile (\<lambda>c. c \<noteq> NL) p of [] \<Rightarrow> [] | _ # r \<Rightarrow> r)"

lemma next_line_shorter: "p \<noteq> [] \<Longrightarrow> length (next_line p) < length p"
proof -
  assume p: "p \<noteq> []"
  have "length (dropWhile (\<lambda>c. c \<noteq> NL) p) \<le> length p" by (rule length_dropWhile_le)
  then show ?thesis using p unfolding next_line_def
    by (cases "dropWhile (\<lambda>c. c \<noteq> NL) p") (simp_all only: list.case, simp_all)
qed

lemma next_line_append: "NL \<notin> set l \<Longrightarrow> next_line (l @ NL # r) = r"
proof -
  assume "NL \<notin> set l"
  then have "dropWhile (\<lambda>c. c \<noteq> NL) (l @ NL # r) = NL # r"
    by (subst dropWhile_append2) auto
  then show ?thesis by (simp add: next_line_def)
qed

subsection \<open>Printing numbers\<close>

definition digit_char :: "nat \<Rightarrow> char" where
  "digit_char d = char_of (48 + d)"

fun dec :: "nat \<Rightarrow> string" where
  "dec n = (if n < 10 then [digit_char n] else dec (n div 10) @ [digit_char (n mod 10)])"

declare dec.simps [simp del]

definition dec_int :: "int \<Rightarrow> string" where
  "dec_int i = (if i < 0 then CHR ''-'' # dec (nat (- i)) else dec (nat i))"

lemma digit_char_props [simp]:
  assumes "d < 10"
  shows "isdigit (digit_char d)" and "digit_val (digit_char d) = d"
    and "digit_char d \<noteq> NL" and "digit_char d \<noteq> CHR ''-''" and "digit_char d \<noteq> CHR ''+''"
    and "\<not> isspace (digit_char d)"
proof -
  have v: "of_char (digit_char d) = (48 + d :: nat)" using assms by (simp add: digit_char_def)
  show "isdigit (digit_char d)" "digit_val (digit_char d) = d" "\<not> isspace (digit_char d)"
    using assms v by (simp_all add: isdigit_def digit_val_def isspace_def)
  show "digit_char d \<noteq> NL" "digit_char d \<noteq> CHR ''-''" "digit_char d \<noteq> CHR ''+''"
    using v assms by (auto dest: arg_cong [where f = "of_char :: char \<Rightarrow> nat"])
qed

lemma digits_val_snoc: "digits_val (ds @ [c]) = 10 * digits_val ds + digit_val c"
  by (simp add: digits_val_def)

lemma digits_val_dec: "digits_val (dec n) = n"
proof (induction n rule: dec.induct)
  case (1 n)
  show ?case
  proof (cases "n < 10")
    case True
    then show ?thesis by (simp add: dec.simps [of n] digits_val_def)
  next
    case False
    with 1 show ?thesis by (simp add: dec.simps [of n] digits_val_snoc)
  qed
qed

lemma set_dec: "c \<in> set (dec n) \<Longrightarrow> \<exists>d < 10. c = digit_char d"
proof (induction n rule: dec.induct)
  case (1 n)
  show ?case
  proof (cases "n < 10")
    case True
    with "1.prems" show ?thesis by (auto simp: dec.simps [of n])
  next
    case False
    have m: "n mod 10 < 10" by simp
    from False "1.prems" have "c \<in> set (dec (n div 10)) \<or> c = digit_char (n mod 10)"
      by (auto simp: dec.simps [of n])
    with "1.IH" [OF False] m show ?thesis by blast
  qed
qed

lemma dec_nonempty: "dec n \<noteq> []"
  by (simp add: dec.simps [of n])

lemma dec_hd: "\<exists>d < 10. \<exists>r. dec n = digit_char d # r"
  using set_dec [of "hd (dec n)" n] dec_nonempty [of n]
  by (metis list.collapse list.set_sel(1))

lemma dec_isdigit: "c \<in> set (dec n) \<Longrightarrow> isdigit c"
  using set_dec by fastforce

lemma NL_notin_dec: "NL \<notin> set (dec n)"
  using set_dec [of NL n] digit_char_props(3) by metis

lemma length_dec_le: "n < 10 ^ k \<Longrightarrow> 0 < k \<Longrightarrow> length (dec n) \<le> k"
proof (induction n arbitrary: k rule: dec.induct)
  case (1 n)
  show ?case
  proof (cases "n < 10")
    case True
    with "1.prems" show ?thesis by (simp add: dec.simps [of n])
  next
    case False
    with "1.prems" obtain j where k: "k = Suc j" "0 < j" by (cases k; cases "k - 1") auto
    have "n div 10 < 10 ^ j" using "1.prems"(1) k by (simp add: less_mult_imp_div_less mult.commute)
    with "1.IH" False k show ?thesis by (simp add: dec.simps [of n])
  qed
qed

text \<open>A stop: a string whose first character is not a digit.\<close>

definition stop :: "string \<Rightarrow> bool" where
  "stop r \<longleftrightarrow> (case r of [] \<Rightarrow> True | c # _ \<Rightarrow> \<not> isdigit c)"

lemma stop_simps [simp]: "stop []" "stop (c # r) = (\<not> isdigit c)"
  by (simp_all add: stop_def)

lemma take_digits: "stop r \<Longrightarrow> (\<forall>c \<in> set ds. isdigit c) \<Longrightarrow>
  takeWhile isdigit (ds @ r) = ds \<and> dropWhile isdigit (ds @ r) = r"
  by (cases r) (auto simp: takeWhile_append dropWhile_append)

text \<open>Any run of white space may precede the digits.\<close>

lemma scan_number_dec:
  assumes "stop r" "\<forall>c \<in> set sp. isspace c"
  shows "scan_number (sp @ dec n @ r) = Some (False, n, r)"
proof -
  obtain d t where d: "d < 10" "dec n = digit_char d # t" using dec_hd by blast
  have "dropWhile isspace (sp @ dec n @ r) = dec n @ r"
    using assms(2) d by (subst dropWhile_append2) auto
  moreover have "scan_sign (dec n @ r) = (False, dec n @ r)" using d by (simp add: scan_sign_def)
  moreover have "takeWhile isdigit (dec n @ r) = dec n \<and> dropWhile isdigit (dec n @ r) = r"
    using take_digits [OF assms(1)] dec_isdigit by blast
  ultimately show ?thesis by (simp add: scan_number_def dec_nonempty digits_val_dec)
qed

lemma strtoull_dec:
  assumes "n < 2 ^ 64" "stop r" "\<forall>c \<in> set sp. isspace c"
  shows "strtoull (sp @ dec n @ r) = (of_nat n, r)"
  using assms by (simp add: strtoull_def scan_number_dec)

lemma strtol_dec:
  assumes "n < 2 ^ 63" "stop r" "\<forall>c \<in> set sp. isspace c"
  shows "strtol (sp @ dec n @ r) = (int n, r)"
  using assms by (simp add: strtol_def scan_number_dec)

lemma atoi_dec:
  assumes "n < 2 ^ 31" "stop r" "\<forall>c \<in> set sp. isspace c"
  shows "atoi (sp @ dec n @ r) = int n"
proof -
  have "(2::nat) ^ 31 < 2 ^ 63" by simp
  then have "n < 2 ^ 63" using assms(1) by linarith
  then show ?thesis using assms by (simp add: atoi_def strtol_dec int_of_u32_of_int)
qed

end
