(* ===== verification/Ebpf_Tracer.thy ===== *)
theory Ebpf_Tracer
  imports Bpf_Program C_Lib "HOL-Library.Multiset"
begin

text \<open>
  The user-space side of the tracer, \<^verbatim>\<open>src/ebpf_tracer.c\<close>. libbpf and the \<open>bpf\<close> system
  call are a record of operations over an abstract world. The locale \<open>pid_maps\<close> states what
  the readers rely on (updates and deletes of a key touch that key of that map only); the
  maps of the kernel-side program, reached through their descriptors, satisfy it. The locale
  \<open>libbpf_handles\<close> speaks of the objects and links libbpf holds for the tracer: loading, attaching and
  destroying change them exactly as the fields of the tracer say, on every path.
\<close>

subsection \<open>libbpf\<close>

record 'w bpf_os =
  bo_open :: "string \<Rightarrow> 'w \<Rightarrow> int option \<times> 'w"
  bo_load :: "int \<Rightarrow> 'w \<Rightarrow> int \<times> 'w"
  bo_close :: "int \<Rightarrow> 'w \<Rightarrow> 'w"
  bo_map_by_name :: "int \<Rightarrow> string \<Rightarrow> 'w \<Rightarrow> int option"
  bo_map_fd :: "int \<Rightarrow> 'w \<Rightarrow> int"
  bo_prog_by_name :: "int \<Rightarrow> string \<Rightarrow> 'w \<Rightarrow> int option"
  bo_attach :: "int \<Rightarrow> 'w \<Rightarrow> int option \<times> 'w"
  bo_link_destroy :: "int \<Rightarrow> 'w \<Rightarrow> 'w"
  bo_lookup_u64 :: "int \<Rightarrow> u32 \<Rightarrow> 'w \<Rightarrow> u64 option"
  bo_lookup_u32 :: "int \<Rightarrow> u32 \<Rightarrow> 'w \<Rightarrow> u32 option"
  bo_lookup_comm :: "int \<Rightarrow> u32 \<Rightarrow> 'w \<Rightarrow> string option"
  bo_lookup_batch :: "int \<Rightarrow> nat \<Rightarrow> 'w \<Rightarrow> (int \<times> int) \<times> u32 list"
  bo_update_u64 :: "int \<Rightarrow> u32 \<Rightarrow> u64 \<Rightarrow> bpf_flag \<Rightarrow> 'w \<Rightarrow> 'w"
  bo_update_u32 :: "int \<Rightarrow> u32 \<Rightarrow> u32 \<Rightarrow> bpf_flag \<Rightarrow> 'w \<Rightarrow> 'w"
  bo_delete :: "int \<Rightarrow> u32 \<Rightarrow> 'w \<Rightarrow> 'w"

subsection \<open>State\<close>

record ebpf_tracer_t =
  et_obj :: "int option"
  link_sched_switch :: "int option"
  link_sched_wakeup :: "int option"
  link_fork :: "int option"
  link_exit :: "int option"
  link_block_issue :: "int option"
  link_block :: "int option"
  link_exec :: "int option"
  map_fd_switches :: int
  map_fd_pids :: int
  map_fd_io :: int
  map_fd_io_wait :: int
  map_fd_rq_wait :: int
  map_fd_last_cpu :: int
  map_fd_exec :: int
  et_loaded :: int

definition et_blank :: ebpf_tracer_t where
  "et_blank = \<lparr>et_obj = None, link_sched_switch = None, link_sched_wakeup = None, link_fork = None,
     link_exit = None, link_block_issue = None, link_block = None, link_exec = None,
     map_fd_switches = -1, map_fd_pids = -1, map_fd_io = -1, map_fd_io_wait = -1,
     map_fd_rq_wait = -1, map_fd_last_cpu = -1, map_fd_exec = -1, et_loaded = 0\<rparr>"

subsection \<open>Loading and attaching\<close>

definition find_map_fd :: "'w bpf_os \<Rightarrow> int \<Rightarrow> string \<Rightarrow> 'w \<Rightarrow> int" where
  "find_map_fd os obj name w =
    (case bo_map_by_name os obj name w of None \<Rightarrow> -1 | Some m \<Rightarrow> bo_map_fd os m w)"

definition attach_prog :: "'w bpf_os \<Rightarrow> int \<Rightarrow> string \<Rightarrow> 'w \<Rightarrow> int option \<times> 'w" where
  "attach_prog os obj prog_name w =
    (case bo_prog_by_name os obj prog_name w of None \<Rightarrow> (None, w) | Some p \<Rightarrow> bo_attach os p w)"

definition ebpf_tracer_load :: "'w bpf_os \<Rightarrow> string \<Rightarrow> 'w \<Rightarrow> int \<times> ebpf_tracer_t \<times> 'w" where
  "ebpf_tracer_load os bpf_path w =
    (let (r, w1) = bo_open os bpf_path w in
     case r of None \<Rightarrow> (-1, et_blank, w1)
     | Some obj \<Rightarrow>
       (let (err, w2) = bo_load os obj w1 in
        if err \<noteq> 0 then (-1, et_blank, bo_close os obj w2) else
        let et = et_blank\<lparr>et_obj := Some obj,
              map_fd_switches := find_map_fd os obj ''vol_ctx_switch'' w2,
              map_fd_pids := find_map_fd os obj ''active_pids'' w2\<rparr> in
        if map_fd_switches et < 0 \<or> map_fd_pids et < 0
        then (-1, et\<lparr>et_obj := None\<rparr>, bo_close os obj w2)
        else (0, et\<lparr>map_fd_io := find_map_fd os obj ''io_counts'' w2,
                   map_fd_io_wait := find_map_fd os obj ''io_wait_ns'' w2,
                   map_fd_rq_wait := find_map_fd os obj ''rq_wait_ns'' w2,
                   map_fd_last_cpu := find_map_fd os obj ''pid_last_cpu'' w2,
                   map_fd_exec := find_map_fd os obj ''exec_comms'' w2,
                   et_loaded := 1\<rparr>, w2)))"

text \<open>\<open>et->obj\<close> of a loaded tracer is not null; without an object nothing is found.\<close>

definition ebpf_tracer_attach :: "'w bpf_os \<Rightarrow> ebpf_tracer_t \<Rightarrow> 'w \<Rightarrow> int \<times> ebpf_tracer_t \<times> 'w" where
  "ebpf_tracer_attach os et w =
    (if et_loaded et = 0 then (-1, et, w) else
     case et_obj et of None \<Rightarrow> (-1, et, w)
     | Some obj \<Rightarrow>
       (let (l1, w1) = attach_prog os obj ''handle_sched_switch'' w;
            (l2, w2) = attach_prog os obj ''handle_fork'' w1;
            (l3, w3) = attach_prog os obj ''handle_exit'' w2;
            et1 = et\<lparr>link_sched_switch := l1, link_fork := l2, link_exit := l3\<rparr>
        in if l1 = None \<or> l2 = None \<or> l3 = None then (-1, et1, w3) else
        let (l4, w4) = attach_prog os obj ''handle_sched_wakeup'' w3;
            (l5, w5) = attach_prog os obj ''handle_block_rq_issue'' w4;
            (l6, w6) = attach_prog os obj ''handle_block_rq_complete'' w5;
            (l7, w7) = attach_prog os obj ''handle_exec'' w6
        in (0, et1\<lparr>link_sched_wakeup := l4, link_block_issue := l5, link_block := l6,
                  link_exec := l7\<rparr>, w7)))"

definition destroy_link :: "'w bpf_os \<Rightarrow> int option \<Rightarrow> 'w \<Rightarrow> 'w" where
  "destroy_link os l w = (case l of None \<Rightarrow> w | Some i \<Rightarrow> bo_link_destroy os i w)"

definition ebpf_tracer_destroy :: "'w bpf_os \<Rightarrow> ebpf_tracer_t \<Rightarrow> 'w \<Rightarrow> ebpf_tracer_t \<times> 'w" where
  "ebpf_tracer_destroy os et w =
    (let w1 = destroy_link os (link_sched_switch et) w;
         w2 = destroy_link os (link_sched_wakeup et) w1;
         w3 = destroy_link os (link_fork et) w2;
         w4 = destroy_link os (link_exit et) w3;
         w5 = destroy_link os (link_block_issue et) w4;
         w6 = destroy_link os (link_block et) w5;
         w7 = destroy_link os (link_exec et) w6;
         w8 = (case et_obj et of None \<Rightarrow> w7 | Some obj \<Rightarrow> bo_close os obj w7)
     in (et_blank, w8))"

subsection \<open>Readers and writers\<close>

text \<open>The four counter readers: 0 when the map or the key is missing.\<close>

definition read_counter :: "'w bpf_os \<Rightarrow> int \<Rightarrow> u32 \<Rightarrow> 'w \<Rightarrow> u64" where
  "read_counter os fd pid w =
    (if fd < 0 then 0 else case bo_lookup_u64 os fd pid w of None \<Rightarrow> 0 | Some v \<Rightarrow> v)"

definition ebpf_tracer_read_switches :: "'w bpf_os \<Rightarrow> ebpf_tracer_t \<Rightarrow> u32 \<Rightarrow> 'w \<Rightarrow> u64" where
  "ebpf_tracer_read_switches os et pid w = read_counter os (map_fd_switches et) pid w"

definition ebpf_tracer_read_io :: "'w bpf_os \<Rightarrow> ebpf_tracer_t \<Rightarrow> u32 \<Rightarrow> 'w \<Rightarrow> u64" where
  "ebpf_tracer_read_io os et pid w = read_counter os (map_fd_io et) pid w"

definition ebpf_tracer_read_io_wait_ns :: "'w bpf_os \<Rightarrow> ebpf_tracer_t \<Rightarrow> u32 \<Rightarrow> 'w \<Rightarrow> u64" where
  "ebpf_tracer_read_io_wait_ns os et pid w = read_counter os (map_fd_io_wait et) pid w"

definition ebpf_tracer_read_rq_wait_ns :: "'w bpf_os \<Rightarrow> ebpf_tracer_t \<Rightarrow> u32 \<Rightarrow> 'w \<Rightarrow> u64" where
  "ebpf_tracer_read_rq_wait_ns os et pid w = read_counter os (map_fd_rq_wait et) pid w"

definition ebpf_tracer_read_last_cpu :: "'w bpf_os \<Rightarrow> ebpf_tracer_t \<Rightarrow> u32 \<Rightarrow> 'w \<Rightarrow> int" where
  "ebpf_tracer_read_last_cpu os et pid w =
    (if map_fd_last_cpu et < 0 then -1
     else case bo_lookup_u32 os (map_fd_last_cpu et) pid w of None \<Rightarrow> -1 | Some cpu \<Rightarrow> int_of_u32 cpu)"

abbreviation ENOENT :: int where "ENOENT \<equiv> 2"

definition ebpf_tracer_get_active_pids :: "'w bpf_os \<Rightarrow> ebpf_tracer_t \<Rightarrow> int \<Rightarrow> 'w \<Rightarrow> u32 list" where
  "ebpf_tracer_get_active_pids os et max_pids w =
    (if map_fd_pids et < 0 then [] else
     let batch_count = (if max_pids < 10240 then unat (u32_of_int max_pids) else 10240);
         ((err, errno), keys) = bo_lookup_batch os (map_fd_pids et) batch_count w
     in if err = 0 \<or> (err < 0 \<and> errno = ENOENT) then keys else [])"

text \<open>
  Returns the flag, the buffer's string afterwards and the world. The map's value is 16
  bytes; the copy stops at a NUL and after \<open>len - 1\<close> characters.
\<close>

definition ebpf_tracer_pop_exec_comm ::
  "'w bpf_os \<Rightarrow> ebpf_tracer_t \<Rightarrow> u32 \<Rightarrow> string \<Rightarrow> nat \<Rightarrow> 'w \<Rightarrow> bool \<times> string \<times> 'w" where
  "ebpf_tracer_pop_exec_comm os et pid buf len w =
    (if map_fd_exec et < 0 \<or> len = 0 then (False, buf, w) else
     case bo_lookup_comm os (map_fd_exec et) pid w of
       None \<Rightarrow> (False, buf, w)
     | Some comm \<Rightarrow>
         (let copy_len = (if len - 1 < 16 then len - 1 else 16)
          in (True, c_str (take copy_len comm), bo_delete os (map_fd_exec et) pid w)))"

text \<open>\<open>if (fd >= 0) bpf_map_update_elem(fd, &pid, &zero, BPF_NOEXIST)\<close>.\<close>

definition zero_counter :: "'w bpf_os \<Rightarrow> int \<Rightarrow> u32 \<Rightarrow> 'w \<Rightarrow> 'w" where
  "zero_counter os fd pid w = (if 0 \<le> fd then bo_update_u64 os fd pid 0 BPF_NOEXIST w else w)"

definition ebpf_tracer_register_pid :: "'w bpf_os \<Rightarrow> ebpf_tracer_t \<Rightarrow> u32 \<Rightarrow> 'w \<Rightarrow> 'w" where
  "ebpf_tracer_register_pid os et pid w =
    (if map_fd_pids et < 0 then w else
     let w1 = bo_update_u32 os (map_fd_pids et) pid 1 BPF_ANY w;
         w2 = zero_counter os (map_fd_io et) pid w1;
         w3 = zero_counter os (map_fd_io_wait et) pid w2
     in zero_counter os (map_fd_rq_wait et) pid w3)"

definition ebpf_tracer_unregister_pid :: "'w bpf_os \<Rightarrow> ebpf_tracer_t \<Rightarrow> u32 \<Rightarrow> 'w \<Rightarrow> 'w" where
  "ebpf_tracer_unregister_pid os et pid w =
    (if map_fd_pids et < 0 then w else bo_delete os (map_fd_pids et) pid w)"

subsection \<open>The interface to the maps\<close>

text \<open>
  \<open>cnt w fd k\<close> is the counter map behind a descriptor. A \<open>BPF_NOEXIST\<close> update of 0 may fail
  (no room), so it leaves an absent key absent or 0.
\<close>

locale pid_maps =
  fixes os :: "'w bpf_os" and cnt :: "'w \<Rightarrow> int \<Rightarrow> u32 \<Rightarrow> u64 option" and pids :: "int \<Rightarrow> bool"
  assumes lookup_cnt: "bo_lookup_u64 os fd k w = cnt w fd k"
    and update_pids: "pids fd \<Longrightarrow> cnt (bo_update_u32 os fd k v f w) = cnt w"
    and delete_pids: "pids fd \<Longrightarrow> cnt (bo_delete os fd k w) = cnt w"
    and zero_same: "cnt w fd k = Some c \<Longrightarrow> cnt (bo_update_u64 os fd k 0 BPF_NOEXIST w) = cnt w"
    and zero_other: "(fd', k') \<noteq> (fd, k) \<Longrightarrow>
      cnt (bo_update_u64 os fd k 0 BPF_NOEXIST w) fd' k' = cnt w fd' k'"
    and zero_new: "cnt w fd k = None \<Longrightarrow>
      cnt (bo_update_u64 os fd k 0 BPF_NOEXIST w) fd k \<in> {None, Some 0}"
begin

lemma read_zero: "read_counter os fd q (zero_counter os fd' p w) = read_counter os fd q w"
proof (cases "(fd, q) = (fd', p)")
  case False
  then show ?thesis using zero_other [OF False] by (simp add: read_counter_def zero_counter_def lookup_cnt)
next
  case True
  then show ?thesis using zero_same [of w fd' p] zero_new [of w fd' p]
    by (cases "cnt w fd' p") (auto simp: read_counter_def zero_counter_def lookup_cnt)
qed

lemma read_pids: "pids fd \<Longrightarrow> read_counter os fd' q (bo_update_u32 os fd k v f w) = read_counter os fd' q w"
  "pids fd \<Longrightarrow> read_counter os fd' q (bo_delete os fd k w) = read_counter os fd' q w"
  by (simp_all add: read_counter_def lookup_cnt update_pids delete_pids)

text \<open>Registering and unregistering a pid is invisible to every counter reader.\<close>

lemma register_invisible:
  "pids (map_fd_pids et) \<Longrightarrow> read_counter os fd q (ebpf_tracer_register_pid os et p w) = read_counter os fd q w"
  by (simp add: ebpf_tracer_register_pid_def Let_def read_zero read_pids)

lemma unregister_invisible:
  "pids (map_fd_pids et) \<Longrightarrow> read_counter os fd q (ebpf_tracer_unregister_pid os et p w) = read_counter os fd q w"
  by (simp add: ebpf_tracer_unregister_pid_def read_pids)

end

subsection \<open>The kernel's maps behind descriptors\<close>

text \<open>
  The maps of the kernel-side program reached through the \<open>bpf\<close> system call: descriptor
  \<open>10 + i\<close> is the \<open>i\<close>-th map in the order the daemon looks them up.
\<close>

definition map_names :: "string list" where
  "map_names = [''vol_ctx_switch'', ''active_pids'', ''io_counts'', ''io_wait_ns'', ''rq_wait_ns'',
     ''pid_last_cpu'', ''exec_comms'']"

definition kernel_counters :: "bpf_maps \<Rightarrow> int \<Rightarrow> u32 \<Rightarrow> u64 option" where
  "kernel_counters m fd k =
    (if fd = 10 then lookup (vol_ctx_switch m) k
     else if fd = 12 then lookup (io_counts m) k
     else if fd = 13 then lookup (io_wait_ns m) k
     else if fd = 14 then lookup (rq_wait_ns m) k
     else None)"

definition kernel_bpf :: "bpf_maps bpf_os" where
  "kernel_bpf =
    \<lparr>bo_open = (\<lambda>path w. (Some 1, w)),
     bo_load = (\<lambda>obj w. (0, w)),
     bo_close = (\<lambda>obj w. w),
     bo_map_by_name = (\<lambda>obj name w. if name \<in> set map_names
        then Some (int (length (takeWhile (\<lambda>n. n \<noteq> name) map_names))) else None),
     bo_map_fd = (\<lambda>i w. 10 + i),
     bo_prog_by_name = (\<lambda>obj name w. Some 1),
     bo_attach = (\<lambda>p w. (Some 1, w)),
     bo_link_destroy = (\<lambda>l w. w),
     bo_lookup_u64 = (\<lambda>fd k w. kernel_counters w fd k),
     bo_lookup_u32 = (\<lambda>fd k w. if fd = 11 then lookup (active_pids w) k
        else if fd = 15 then lookup (pid_last_cpu w) k else None),
     bo_lookup_comm = (\<lambda>fd k w. if fd = 16 then lookup (exec_comms w) k else None),
     bo_lookup_batch = (\<lambda>fd n w. ((0, 0), if fd = 11 then take n (map fst (active_pids w)) else [])),
     bo_update_u64 = (\<lambda>fd k v f w.
        if fd = 10 then w\<lparr>vol_ctx_switch := update f k v (vol_ctx_switch w)\<rparr>
        else if fd = 12 then w\<lparr>io_counts := update f k v (io_counts w)\<rparr>
        else if fd = 13 then w\<lparr>io_wait_ns := update f k v (io_wait_ns w)\<rparr>
        else if fd = 14 then w\<lparr>rq_wait_ns := update f k v (rq_wait_ns w)\<rparr> else w),
     bo_update_u32 = (\<lambda>fd k v f w.
        if fd = 11 then w\<lparr>active_pids := update f k v (active_pids w)\<rparr>
        else if fd = 15 then w\<lparr>pid_last_cpu := update f k v (pid_last_cpu w)\<rparr> else w),
     bo_delete = (\<lambda>fd k w.
        if fd = 10 then w\<lparr>vol_ctx_switch := delete k (vol_ctx_switch w)\<rparr>
        else if fd = 11 then w\<lparr>active_pids := delete k (active_pids w)\<rparr>
        else if fd = 12 then w\<lparr>io_counts := delete k (io_counts w)\<rparr>
        else if fd = 13 then w\<lparr>io_wait_ns := delete k (io_wait_ns w)\<rparr>
        else if fd = 14 then w\<lparr>rq_wait_ns := delete k (rq_wait_ns w)\<rparr>
        else if fd = 15 then w\<lparr>pid_last_cpu := delete k (pid_last_cpu w)\<rparr>
        else if fd = 16 then w\<lparr>exec_comms := delete k (exec_comms w)\<rparr> else w)\<rparr>"

lemma kernel_zero:
  "kernel_counters (bo_update_u64 kernel_bpf fd k 0 BPF_NOEXIST w) fd' k' =
    (if (fd', k') = (fd, k) \<and> kernel_counters w fd k = None
     then kernel_counters (bo_update_u64 kernel_bpf fd k 0 BPF_NOEXIST w) fd k
     else kernel_counters w fd' k')"
proof (cases "fd \<in> {10, 12, 13, 14} \<and> fd' = fd")
  case False
  then show ?thesis by (auto simp: kernel_bpf_def kernel_counters_def)
next
  case True
  then show ?thesis
    by (elim conjE insertE emptyE) (simp_all add: kernel_bpf_def kernel_counters_def bmap.lookup_update split: option.split)
qed

lemma kernel_zero_new:
  "kernel_counters w fd k = None \<Longrightarrow>
   kernel_counters (bo_update_u64 kernel_bpf fd k 0 BPF_NOEXIST w) fd k \<in> {None, Some 0}"
  by (cases "fd \<in> {10, 12, 13, 14}")
    (elim insertE emptyE, auto simp: kernel_bpf_def kernel_counters_def bmap.lookup_update)

interpretation kmaps: pid_maps kernel_bpf kernel_counters "\<lambda>fd. fd \<in> {11, 15, 16}"
proof
  show "bo_lookup_u64 kernel_bpf fd k w = kernel_counters w fd k" for fd k w
    by (simp add: kernel_bpf_def)
  show "kernel_counters (bo_update_u32 kernel_bpf fd k v f w) = kernel_counters w"
    if "fd \<in> {11, 15, 16}" for fd k v f w
    using that by (auto simp: kernel_bpf_def kernel_counters_def fun_eq_iff)
  show "kernel_counters (bo_delete kernel_bpf fd k w) = kernel_counters w"
    if "fd \<in> {11, 15, 16}" for fd k w
    using that by (auto simp: kernel_bpf_def kernel_counters_def fun_eq_iff)
  show "kernel_counters (bo_update_u64 kernel_bpf fd k 0 BPF_NOEXIST w) = kernel_counters w"
    if "kernel_counters w fd k = Some c" for fd k c w
    using that by (auto simp: fun_eq_iff kernel_zero)
  show "kernel_counters (bo_update_u64 kernel_bpf fd k 0 BPF_NOEXIST w) fd' k' = kernel_counters w fd' k'"
    if "(fd', k') \<noteq> (fd, k)" for fd' k' fd k w
    using that by (subst kernel_zero) auto
qed (rule kernel_zero_new)

text \<open>Loading over the kernel's maps finds all seven of them.\<close>

definition kernel_tracer :: ebpf_tracer_t where
  "kernel_tracer = et_blank\<lparr>et_obj := Some 1, map_fd_switches := 10, map_fd_pids := 11,
     map_fd_io := 12, map_fd_io_wait := 13, map_fd_rq_wait := 14, map_fd_last_cpu := 15,
     map_fd_exec := 16, et_loaded := 1\<rparr>"

lemma load_kernel: "ebpf_tracer_load kernel_bpf path m = (0, kernel_tracer, m)"
  by (simp add: ebpf_tracer_load_def kernel_bpf_def find_map_fd_def map_names_def et_blank_def
      kernel_tracer_def)

lemma kernel_reads:
  "read_counter kernel_bpf 10 p m = (case lookup (vol_ctx_switch m) p of None \<Rightarrow> 0 | Some c \<Rightarrow> c)"
  "read_counter kernel_bpf 12 p m = (case lookup (io_counts m) p of None \<Rightarrow> 0 | Some c \<Rightarrow> c)"
  "read_counter kernel_bpf 13 p m = (case lookup (io_wait_ns m) p of None \<Rightarrow> 0 | Some c \<Rightarrow> c)"
  "read_counter kernel_bpf 14 p m = (case lookup (rq_wait_ns m) p of None \<Rightarrow> 0 | Some c \<Rightarrow> c)"
  by (simp_all add: read_counter_def kmaps.lookup_cnt kernel_counters_def)

subsection \<open>Loading, destroying\<close>

lemma load_result:
  assumes "ebpf_tracer_load os path w = (r, et, w')"
  shows "(r = 0 \<and> et_obj et \<noteq> None \<and> et_loaded et = 1 \<and> 0 \<le> map_fd_switches et \<and> 0 \<le> map_fd_pids et)
       \<or> (r = -1 \<and> et_obj et = None \<and> et_loaded et = 0)"
  using assms
  by (auto simp: ebpf_tracer_load_def Let_def et_blank_def split: prod.splits option.splits if_splits)

lemma blank_reads:
  "ebpf_tracer_read_switches os et_blank p w = 0" "ebpf_tracer_read_io os et_blank p w = 0"
  "ebpf_tracer_read_io_wait_ns os et_blank p w = 0" "ebpf_tracer_read_rq_wait_ns os et_blank p w = 0"
  "ebpf_tracer_read_last_cpu os et_blank p w = -1"
  by (simp_all add: ebpf_tracer_read_switches_def ebpf_tracer_read_io_def
      ebpf_tracer_read_io_wait_ns_def ebpf_tracer_read_rq_wait_ns_def
      ebpf_tracer_read_last_cpu_def read_counter_def et_blank_def)

subsection \<open>What libbpf holds for the daemon\<close>

text \<open>
  An open object stands for the map and program descriptors libbpf keeps for it, a link for the
  descriptor of its tracepoint: libbpf releases them when the object is closed and the link is
  destroyed. The interface counts these handles; the tracer's operations account for them.
\<close>

datatype handle = Bpf_object int | Bpf_link int

definition obj_handles :: "int option \<Rightarrow> handle multiset" where
  "obj_handles ob = (case ob of None \<Rightarrow> {#} | Some i \<Rightarrow> {#Bpf_object i#})"

definition link_handles :: "int option \<Rightarrow> handle multiset" where
  "link_handles l = (case l of None \<Rightarrow> {#} | Some i \<Rightarrow> {#Bpf_link i#})"

lemma no_handles [simp]: "obj_handles None = {#}" "link_handles None = {#}"
  by (simp_all add: obj_handles_def link_handles_def)

definition et_handles :: "ebpf_tracer_t \<Rightarrow> handle multiset" where
  "et_handles et = link_handles (link_sched_switch et) + link_handles (link_sched_wakeup et) +
     link_handles (link_fork et) + link_handles (link_exit et) + link_handles (link_block_issue et) +
     link_handles (link_block et) + link_handles (link_exec et) + obj_handles (et_obj et)"

locale libbpf_handles =
  fixes os :: "'w bpf_os" and held :: "'w \<Rightarrow> handle multiset"
  assumes held_open: "held (snd (bo_open os p w)) = held w + obj_handles (fst (bo_open os p w))"
    and held_load: "held (snd (bo_load os ob w)) = held w"
    and held_close: "held (bo_close os ob w) = held w - {#Bpf_object ob#}"
    and held_attach: "held (snd (bo_attach os pr w)) = held w + link_handles (fst (bo_attach os pr w))"
    and held_destroy: "held (bo_link_destroy os l w) = held w - {#Bpf_link l#}"
begin

text \<open>A tracer that was loaded is the open object; one that failed to load holds nothing.\<close>

lemma load_held:
  assumes "ebpf_tracer_load os path w = (r, et, w')"
  shows "held w' = held w + et_handles et" and "r = 0 \<Longrightarrow> et_obj et \<noteq> None" and "r \<noteq> 0 \<Longrightarrow> et_handles et = {#}"
    and "link_sched_switch et = None \<and> link_sched_wakeup et = None \<and> link_fork et = None \<and> link_exit et = None \<and>
      link_block_issue et = None \<and> link_block et = None \<and> link_exec et = None"
proof -
  obtain ob w1 where o: "bo_open os path w = (ob, w1)" by (metis prod.exhaust)
  have w1: "held w1 = held w + obj_handles ob" using held_open [of path w] by (simp add: o)
  have all: "held w' = held w + et_handles et \<and> (r = 0 \<longrightarrow> et_obj et \<noteq> None) \<and> (r \<noteq> 0 \<longrightarrow> et_handles et = {#}) \<and>
    link_sched_switch et = None \<and> link_sched_wakeup et = None \<and> link_fork et = None \<and> link_exit et = None \<and>
    link_block_issue et = None \<and> link_block et = None \<and> link_exec et = None"
  proof (cases ob)
    case None
    with assms w1 show ?thesis by (auto simp: ebpf_tracer_load_def o et_handles_def et_blank_def)
  next
    case (Some i)
    obtain e w2 where l: "bo_load os i w1 = (e, w2)" by (metis prod.exhaust)
    have w2: "held w2 = held w + {#Bpf_object i#}" using held_load [of i w1] w1 by (simp add: l Some obj_handles_def)
    with assms show ?thesis
      by (auto simp: ebpf_tracer_load_def o Some l Let_def et_handles_def et_blank_def obj_handles_def held_close split: if_splits)
  qed
  then show "held w' = held w + et_handles et" "r = 0 \<Longrightarrow> et_obj et \<noteq> None" "r \<noteq> 0 \<Longrightarrow> et_handles et = {#}"
    "link_sched_switch et = None \<and> link_sched_wakeup et = None \<and> link_fork et = None \<and> link_exit et = None \<and>
      link_block_issue et = None \<and> link_block et = None \<and> link_exec et = None" by blast+
qed

lemma attach_prog_held: "attach_prog os ob n w = (l, w') \<Longrightarrow> held w' = held w + link_handles l"
  using held_attach by (auto simp: attach_prog_def split: option.splits) (metis fst_conv snd_conv)

text \<open>Attaching, also when it fails half way, leaves what the links of the tracer stand for.\<close>

lemma attach_held:
  assumes "ebpf_tracer_attach os et w = (r, et', w')"
    and none: "link_sched_switch et = None \<and> link_sched_wakeup et = None \<and> link_fork et = None \<and> link_exit et = None \<and>
      link_block_issue et = None \<and> link_block et = None \<and> link_exec et = None"
    and h: "held w = H + et_handles et"
  shows "held w' = H + et_handles et'"
proof (cases "et_loaded et = 0 \<or> et_obj et = None")
  case True
  with assms show ?thesis by (auto simp: ebpf_tracer_attach_def split: if_splits)
next
  case False
  then obtain ob where ob: "et_obj et = Some ob" and ld: "et_loaded et \<noteq> 0" by auto
  have h0: "held w = H + obj_handles (et_obj et)" using h none by (simp add: et_handles_def)
  obtain l1 w1 where 1: "attach_prog os ob ''handle_sched_switch'' w = (l1, w1)" by (metis prod.exhaust)
  obtain l2 w2 where 2: "attach_prog os ob ''handle_fork'' w1 = (l2, w2)" by (metis prod.exhaust)
  obtain l3 w3 where 3: "attach_prog os ob ''handle_exit'' w2 = (l3, w3)" by (metis prod.exhaust)
  obtain l4 w4 where 4: "attach_prog os ob ''handle_sched_wakeup'' w3 = (l4, w4)" by (metis prod.exhaust)
  obtain l5 w5 where 5: "attach_prog os ob ''handle_block_rq_issue'' w4 = (l5, w5)" by (metis prod.exhaust)
  obtain l6 w6 where 6: "attach_prog os ob ''handle_block_rq_complete'' w5 = (l6, w6)" by (metis prod.exhaust)
  obtain l7 w7 where 7: "attach_prog os ob ''handle_exec'' w6 = (l7, w7)" by (metis prod.exhaust)
  note a = attach_prog_held [OF 1] attach_prog_held [OF 2] attach_prog_held [OF 3] attach_prog_held [OF 4]
    attach_prog_held [OF 5] attach_prog_held [OF 6] attach_prog_held [OF 7]
  show ?thesis
  proof (cases "l1 = None \<or> l2 = None \<or> l3 = None")
    case True
    then have "w' = w3" "et' = et\<lparr>link_sched_switch := l1, link_fork := l2, link_exit := l3\<rparr>"
      using assms(1) ob ld 1 2 3 by (auto simp: ebpf_tracer_attach_def Let_def)
    then show ?thesis using a(1-3) h0 none by (simp add: et_handles_def ac_simps)
  next
    case False
    then obtain i1 i2 i3 where l: "l1 = Some i1" "l2 = Some i2" "l3 = Some i3" by auto
    then have "w' = w7" "et' = et\<lparr>link_sched_switch := l1, link_fork := l2, link_exit := l3, link_sched_wakeup := l4,
        link_block_issue := l5, link_block := l6, link_exec := l7\<rparr>"
      using assms(1) ob ld 1 2 3 4 5 6 7 by (simp_all add: ebpf_tracer_attach_def Let_def)
    then show ?thesis using a h0 by (simp add: et_handles_def ac_simps)
  qed
qed

lemma destroy_link_held: "held (destroy_link os l w) = held w - link_handles l"
  by (simp add: destroy_link_def link_handles_def held_destroy split: option.split)

lemma destroy_held: "held (snd (ebpf_tracer_destroy os et w)) = held w - et_handles et"
  by (simp add: ebpf_tracer_destroy_def Let_def et_handles_def destroy_link_held obj_handles_def held_close
      diff_diff_add ac_simps split: option.split)

end

text \<open>Any libbpf, instrumented with the multiset of the handles it has given out.\<close>

definition bpf_lifted :: "'w bpf_os \<Rightarrow> ('w \<times> 'r) bpf_os" where
  "bpf_lifted os =
    \<lparr>bo_open = (\<lambda>p. along (bo_open os p)), bo_load = (\<lambda>ob. along (bo_load os ob)),
     bo_close = (\<lambda>ob. along_eff (bo_close os ob)), bo_map_by_name = (\<lambda>ob n w. bo_map_by_name os ob n (fst w)),
     bo_map_fd = (\<lambda>m w. bo_map_fd os m (fst w)), bo_prog_by_name = (\<lambda>ob n w. bo_prog_by_name os ob n (fst w)),
     bo_attach = (\<lambda>p. along (bo_attach os p)), bo_link_destroy = (\<lambda>l. along_eff (bo_link_destroy os l)),
     bo_lookup_u64 = (\<lambda>fd k w. bo_lookup_u64 os fd k (fst w)),
     bo_lookup_u32 = (\<lambda>fd k w. bo_lookup_u32 os fd k (fst w)),
     bo_lookup_comm = (\<lambda>fd k w. bo_lookup_comm os fd k (fst w)),
     bo_lookup_batch = (\<lambda>fd n w. bo_lookup_batch os fd n (fst w)),
     bo_update_u64 = (\<lambda>fd k v f. along_eff (bo_update_u64 os fd k v f)),
     bo_update_u32 = (\<lambda>fd k v f. along_eff (bo_update_u32 os fd k v f)),
     bo_delete = (\<lambda>fd k. along_eff (bo_delete os fd k))\<rparr>"

definition bpf_handles :: "'w bpf_os \<Rightarrow> ('w \<times> handle multiset) bpf_os" where
  "bpf_handles os = (bpf_lifted os)
    \<lparr>bo_open := (\<lambda>p (w, H). let (ob, w') = bo_open os p w in (ob, (w', H + obj_handles ob))),
     bo_close := (\<lambda>ob (w, H). (bo_close os ob w, H - {#Bpf_object ob#})),
     bo_attach := (\<lambda>p (w, H). let (l, w') = bo_attach os p w in (l, (w', H + link_handles l))),
     bo_link_destroy := (\<lambda>l (w, H). (bo_link_destroy os l w, H - {#Bpf_link l#}))\<rparr>"

text \<open>The interface holds for the instrumented libbpf, also under a second record.\<close>

interpretation libbpf: libbpf_handles "bpf_handles os" snd for os :: "'w bpf_os"
  by unfold_locales (simp_all add: bpf_handles_def bpf_lifted_def case_prod_beta Let_def)

interpretation libbpf2: libbpf_handles "bpf_lifted (bpf_handles os) :: (('w \<times> handle multiset) \<times> 'r) bpf_os" "snd \<circ> fst"
  for os :: "'w bpf_os"
  by unfold_locales (simp_all add: bpf_handles_def bpf_lifted_def case_prod_beta Let_def)

subsection \<open>Properties\<close>

text \<open>
  C18. From the kernel's event to the daemon's reader: over the maps of the kernel-side
  program, for a registered task that does not exit, the difference between two readings of
  the switch counter is the number of voluntary switches in between, however the daemon
  registers or unregisters pids around the readings.
\<close>

theorem tracer_reads_switches:
  assumes "lookup (vol_ctx_switch m) p = Some c" and "\<forall>e \<in> set es. \<not> is_exit p e"
  shows "ebpf_tracer_read_switches kernel_bpf kernel_tracer p
      (ebpf_tracer_unregister_pid kernel_bpf kernel_tracer r
        (bpf_run (ebpf_tracer_register_pid kernel_bpf kernel_tracer q m) es))
    - ebpf_tracer_read_switches kernel_bpf kernel_tracer p m
    = of_nat (length (filter (is_vol_switch p) es))"
proof -
  let ?m = "ebpf_tracer_register_pid kernel_bpf kernel_tracer q m"
  have f: "map_fd_switches kernel_tracer = 10" and i: "map_fd_pids kernel_tracer \<in> {11, 15, 16}"
    by (simp_all add: kernel_tracer_def)
  have v: "vol_ctx_switch ?m = vol_ctx_switch m"
    by (simp add: ebpf_tracer_register_pid_def zero_counter_def kernel_tracer_def kernel_bpf_def)
  have "lookup (vol_ctx_switch (bpf_run ?m es)) p = Some (c + of_nat (length (filter (is_vol_switch p) es)))"
    using assms by (intro run_counts_vol) (simp_all add: v)
  then show ?thesis
    using assms(1) kmaps.unregister_invisible [OF i]
    by (simp add: ebpf_tracer_read_switches_def f kernel_reads)
qed

theorem tracer_reads_switches_witness:
  "ebpf_tracer_read_switches kernel_bpf kernel_tracer 40
      (ebpf_tracer_unregister_pid kernel_bpf kernel_tracer 99
        (bpf_run (ebpf_tracer_register_pid kernel_bpf kernel_tracer 40 (handle_fork 40 bpf_empty)) switch_trace))
    - ebpf_tracer_read_switches kernel_bpf kernel_tracer 40 (handle_fork 40 bpf_empty) = 2"
proof -
  have "lookup (vol_ctx_switch (handle_fork 40 bpf_empty)) 40 = Some 0"
    by (simp add: handle_fork_def bmap.lookup_update word_le_nat_alt)
      (simp add: bpf_empty_def bpf_map_lookup_elem_def)
  from tracer_reads_switches [OF this, of switch_trace 99 40] show ?thesis by (simp add: switch_trace_def)
qed

text \<open>
  C37. Over any kernel whose map updates touch only the key they name, registering a
  pid changes no value that any of the four counter readers (switches, I/O requests, I/O wait,
  run-queue wait) returns for any pid, and neither does unregistering one, so the baselines
  \<open>add_pid\<close> takes before registering stay valid.
\<close>

theorem registering_is_invisible:
  assumes "pid_maps os cnt pids" and "pids (map_fd_pids et)"
  shows "ebpf_tracer_read_switches os et q (ebpf_tracer_register_pid os et p w) = ebpf_tracer_read_switches os et q w \<and>
    ebpf_tracer_read_io os et q (ebpf_tracer_register_pid os et p w) = ebpf_tracer_read_io os et q w \<and>
    ebpf_tracer_read_io_wait_ns os et q (ebpf_tracer_register_pid os et p w) = ebpf_tracer_read_io_wait_ns os et q w \<and>
    ebpf_tracer_read_rq_wait_ns os et q (ebpf_tracer_register_pid os et p w) = ebpf_tracer_read_rq_wait_ns os et q w \<and>
    ebpf_tracer_read_switches os et q (ebpf_tracer_unregister_pid os et p w) = ebpf_tracer_read_switches os et q w \<and>
    ebpf_tracer_read_io os et q (ebpf_tracer_unregister_pid os et p w) = ebpf_tracer_read_io os et q w \<and>
    ebpf_tracer_read_io_wait_ns os et q (ebpf_tracer_unregister_pid os et p w) = ebpf_tracer_read_io_wait_ns os et q w \<and>
    ebpf_tracer_read_rq_wait_ns os et q (ebpf_tracer_unregister_pid os et p w) = ebpf_tracer_read_rq_wait_ns os et q w"
  using pid_maps.register_invisible [OF assms] pid_maps.unregister_invisible [OF assms]
  by (simp add: ebpf_tracer_read_switches_def ebpf_tracer_read_io_def ebpf_tracer_read_io_wait_ns_def
      ebpf_tracer_read_rq_wait_ns_def)

theorem registering_is_invisible_witness:
  "ebpf_tracer_read_io kernel_bpf kernel_tracer 77 (ebpf_tracer_register_pid kernel_bpf kernel_tracer 77 bio_example)
   = ebpf_tracer_read_io kernel_bpf kernel_tracer 77 bio_example \<and>
   ebpf_tracer_read_rq_wait_ns kernel_bpf kernel_tracer 77 (ebpf_tracer_unregister_pid kernel_bpf kernel_tracer 77 bio_example)
   = ebpf_tracer_read_rq_wait_ns kernel_bpf kernel_tracer 77 bio_example"
proof -
  have "map_fd_pids kernel_tracer \<in> {11, 15, 16}" by (simp add: kernel_tracer_def)
  from registering_is_invisible [OF kmaps.pid_maps_axioms this] show ?thesis by blast
qed

end
