(* ===== verification/Smoothed_Metrics.thy ===== *)
theory Smoothed_Metrics
  imports Prelude
begin

text \<open>
  One ring-buffer slot (\<^verbatim>\<open>src/smoothed_metrics.h\<close>, ABI v5) and the activity test of
  \<^verbatim>\<open>src/schedmon.c\<close> that keeps all-zero rows out of the buffers.
\<close>

abbreviation MONITOR_ABI_VERSION :: u32 where "MONITOR_ABI_VERSION \<equiv> 5"
abbreviation SLOT_BYTES :: u32 where "SLOT_BYTES \<equiv> 88"

record SmoothedMetrics =
  sm_pid :: int
  sm_cpu_id :: int
  hw_pmu_available :: int
  timestamp_ns :: u64
  smoothed_ipc :: real
  smoothed_llc_miss :: real
  smoothed_ctx_freq :: real
  smoothed_io_freq :: real
  smoothed_io_wait_ms :: real
  smoothed_rq_wait_ms :: real
  smoothed_migration_freq :: real
  smoothed_io_syscall_freq :: real

text \<open>The value \<open>memset(.., 0, ..)\<close> leaves in a slot.\<close>

definition sm_zero :: SmoothedMetrics where
  "sm_zero = \<lparr>sm_pid = 0, sm_cpu_id = 0, hw_pmu_available = 0, timestamp_ns = 0,
     smoothed_ipc = 0, smoothed_llc_miss = 0, smoothed_ctx_freq = 0, smoothed_io_freq = 0,
     smoothed_io_wait_ms = 0, smoothed_rq_wait_ms = 0, smoothed_migration_freq = 0,
     smoothed_io_syscall_freq = 0\<rparr>"

definition sm_is_active :: "SmoothedMetrics \<Rightarrow> bool" where
  "sm_is_active m \<longleftrightarrow> smoothed_ipc m > 0 \<or> smoothed_llc_miss m > 0 \<or> smoothed_ctx_freq m > 0
     \<or> smoothed_io_freq m > 0 \<or> smoothed_io_wait_ms m > 0 \<or> smoothed_rq_wait_ms m > 0
     \<or> smoothed_migration_freq m > 0 \<or> smoothed_io_syscall_freq m > 0"

text \<open>The metric fields, in the order of the struct.\<close>

definition sm_metrics :: "SmoothedMetrics \<Rightarrow> real list" where
  "sm_metrics m = [smoothed_ipc m, smoothed_llc_miss m, smoothed_ctx_freq m, smoothed_io_freq m,
     smoothed_io_wait_ms m, smoothed_rq_wait_ms m, smoothed_migration_freq m,
     smoothed_io_syscall_freq m]"

lemma sm_is_active_iff: "sm_is_active m \<longleftrightarrow> (\<exists>v \<in> set (sm_metrics m). 0 < v)"
  by (simp add: sm_is_active_def sm_metrics_def)

lemma sm_zero_inactive: "\<not> sm_is_active sm_zero"
  by (simp add: sm_is_active_def sm_zero_def)

text \<open>Neither the identification fields nor the timestamp decide activity.\<close>

lemma sm_is_active_stamp [simp]: "sm_is_active (m\<lparr>timestamp_ns := t\<rparr>) = sm_is_active m"
  by (simp add: sm_is_active_def)

end
