(* ===== verification/Ring_Buffer.thy ===== *)
theory Ring_Buffer
  imports Smoothed_Metrics "HOL-Library.Multiset"
begin

text \<open>
  The shared-memory ring of \<^verbatim>\<open>src/ring_buffer.c\<close>. \<open>head\<close> and \<open>tail\<close> are C ints that another
  process can write, so the operations are partial: \<open>None\<close> is undefined behaviour (an index
  outside \<open>slots\<close>, or \<open>INT_MAX + 1\<close>), and a theorem shows that it does not arise while both
  indices are in range, which the operations keep.

  The contract is the locale \<open>bounded_queue\<close>: a FIFO queue of capacity \<open>RB_CAPACITY - 1\<close>
  that refuses instead of overwriting. The ring provides it.
\<close>

definition RB_CAPACITY :: nat where "RB_CAPACITY = 32768"

lemma RB_CAPACITY_gt1 [simp]: "1 < RB_CAPACITY"
  by (simp add: RB_CAPACITY_def)

lemma RB_CAPACITY_pos [simp]: "0 < RB_CAPACITY"
  by (simp add: RB_CAPACITY_def)

record RingBuffer =
  rb_slots :: "SmoothedMetrics list"
  rb_head :: int
  rb_tail :: int
  rb_abi_version :: u32
  rb_slot_size :: u32

abbreviation INT_MAX :: int where "INT_MAX \<equiv> 2147483647"

text \<open>An access \<open>slots[i]\<close>.\<close>

definition rb_index_ok :: "RingBuffer \<Rightarrow> int \<Rightarrow> bool" where
  "rb_index_ok rb i \<longleftrightarrow> 0 \<le> i \<and> i < int (length (rb_slots rb))"

definition rb_next :: "int \<Rightarrow> int" where
  "rb_next i = (i + 1) smod int RB_CAPACITY"

definition rb_push :: "RingBuffer \<Rightarrow> SmoothedMetrics \<Rightarrow> (bool \<times> RingBuffer) option" where
  "rb_push rb m =
    (let hd = rb_head rb in
     if hd = INT_MAX then None else
     let next_head = rb_next hd in
     if next_head = rb_tail rb then Some (False, rb)
     else if \<not> rb_index_ok rb hd then None
     else Some (True, rb\<lparr>rb_slots := (rb_slots rb)[nat hd := m], rb_head := next_head\<rparr>))"

definition rb_pop :: "RingBuffer \<Rightarrow> (SmoothedMetrics option \<times> RingBuffer) option" where
  "rb_pop rb =
    (let tl = rb_tail rb in
     if tl = rb_head rb then Some (None, rb)
     else if tl = INT_MAX \<or> \<not> rb_index_ok rb tl then None
     else Some (Some (rb_slots rb ! nat tl), rb\<lparr>rb_tail := rb_next tl\<rparr>))"

definition rb_is_full :: "RingBuffer \<Rightarrow> bool" where
  "rb_is_full rb \<longleftrightarrow> rb_next (rb_head rb) = rb_tail rb"

definition rb_is_empty :: "RingBuffer \<Rightarrow> bool" where
  "rb_is_empty rb \<longleftrightarrow> rb_head rb = rb_tail rb"

definition rb_check_abi :: "RingBuffer \<Rightarrow> bool" where
  "rb_check_abi rb =
    (if rb_abi_version rb \<noteq> MONITOR_ABI_VERSION \<or> rb_slot_size rb \<noteq> SLOT_BYTES then False else True)"

text \<open>The initialisation that \<open>rb_create_named\<close> does on the mapped segment.\<close>

definition rb_init_segment :: "RingBuffer \<Rightarrow> RingBuffer" where
  "rb_init_segment rb =
    rb\<lparr>rb_slots := replicate RB_CAPACITY sm_zero, rb_head := 0, rb_tail := 0,
       rb_abi_version := MONITOR_ABI_VERSION, rb_slot_size := SLOT_BYTES\<rparr>"

subsection \<open>The contract\<close>

locale bounded_queue =
  fixes push :: "'q \<Rightarrow> 'a \<Rightarrow> (bool \<times> 'q) option"
    and pop :: "'q \<Rightarrow> ('a option \<times> 'q) option"
    and view :: "'q \<Rightarrow> 'a list" and ok :: "'q \<Rightarrow> bool" and cap :: nat
  assumes push_full: "ok q \<Longrightarrow> cap \<le> length (view q) \<Longrightarrow> push q x = Some (False, q)"
    and push_room: "ok q \<Longrightarrow> length (view q) < cap \<Longrightarrow>
      \<exists>q'. push q x = Some (True, q') \<and> ok q' \<and> view q' = view q @ [x]"
    and pop_empty: "ok q \<Longrightarrow> view q = [] \<Longrightarrow> pop q = Some (None, q)"
    and pop_some: "ok q \<Longrightarrow> view q = y # ys \<Longrightarrow>
      \<exists>q'. pop q = Some (Some y, q') \<and> ok q' \<and> view q' = ys"
    and view_bound: "ok q \<Longrightarrow> length (view q) \<le> cap"
begin

lemma push_total:
  assumes "ok q"
  obtains b q' where "push q x = Some (b, q')" "ok q'"
    "view q' = (if b then view q @ [x] else view q)" "b \<longleftrightarrow> length (view q) < cap"
proof (cases "length (view q) < cap")
  case True
  with push_room [OF assms, of x] obtain q' where
    "push q x = Some (True, q')" "ok q'" "view q' = view q @ [x]" by blast
  with True show ?thesis by (intro that [of True q']) simp_all
next
  case False
  with push_full [OF assms] assms show ?thesis by (auto intro: that simp: not_less)
qed

lemma pop_total:
  assumes "ok q"
  obtains r q' where "pop q = Some (r, q')" "ok q'"
    "view q = (case r of None \<Rightarrow> [] | Some y \<Rightarrow> y # view q')" "r = None \<longrightarrow> q' = q"
proof (cases "view q")
  case Nil
  with pop_empty [OF assms Nil] assms show ?thesis by (intro that [of None q]) simp_all
next
  case (Cons y ys)
  from pop_some [OF assms Cons] obtain q' where "pop q = Some (Some y, q')" "ok q'" "view q' = ys"
    by blast
  with Cons show ?thesis by (intro that [of "Some y" q']) simp_all
qed

text \<open>Pushing a batch accepts exactly the first elements that fit and drops the rest.\<close>

fun push_all :: "'q \<Rightarrow> 'a list \<Rightarrow> 'q option" where
  "push_all q [] = Some q"
| "push_all q (x # xs) = (case push q x of None \<Rightarrow> None | Some (_, q') \<Rightarrow> push_all q' xs)"

lemma push_all_view:
  "ok q \<Longrightarrow> \<exists>q'. push_all q xs = Some q' \<and> ok q' \<and>
     view q' = view q @ take (cap - length (view q)) xs"
proof (induction xs arbitrary: q)
  case (Cons x xs)
  from Cons.prems obtain b q' where p: "push q x = Some (b, q')" "ok q'"
    "view q' = (if b then view q @ [x] else view q)" "b \<longleftrightarrow> length (view q) < cap"
    by (rule push_total)
  from Cons.IH [OF p(2)] obtain q'' where q'': "push_all q' xs = Some q''" "ok q''"
    "view q'' = view q' @ take (cap - length (view q')) xs" by blast
  have "view q'' = view q @ take (cap - length (view q)) (x # xs)"
  proof (cases b)
    case True
    then have "cap - length (view q) = Suc (cap - Suc (length (view q)))" using p(4) by simp
    then show ?thesis using True p(3) q''(3) by simp
  next
    case False
    then show ?thesis using p(3,4) q''(3) by simp
  qed
  with p(1) q''(1,2) show ?case by simp
qed simp

lemma push_all_append:
  "push_all q (xs @ ys) = (case push_all q xs of None \<Rightarrow> None | Some q' \<Rightarrow> push_all q' ys)"
  by (induction xs arbitrary: q) (auto split: option.splits)

text \<open>Draining returns the contents in order.\<close>

fun pop_n :: "nat \<Rightarrow> 'q \<Rightarrow> ('a list \<times> 'q) option" where
  "pop_n 0 q = Some ([], q)"
| "pop_n (Suc n) q = (case pop q of None \<Rightarrow> None | Some (None, q') \<Rightarrow> Some ([], q')
     | Some (Some y, q') \<Rightarrow> (case pop_n n q' of None \<Rightarrow> None | Some (ys, q'') \<Rightarrow> Some (y # ys, q'')))"

lemma pop_n_view:
  "ok q \<Longrightarrow> \<exists>q'. pop_n n q = Some (take n (view q), q') \<and> ok q' \<and> view q' = drop n (view q)"
proof (induction n arbitrary: q)
  case (Suc n)
  from Suc.prems obtain r q' where p: "pop q = Some (r, q')" "ok q'"
    "view q = (case r of None \<Rightarrow> [] | Some y \<Rightarrow> y # view q')" "r = None \<longrightarrow> q' = q"
    by (rule pop_total)
  from Suc.IH [OF p(2)] obtain q'' where q'': "pop_n n q' = Some (take n (view q'), q'')" "ok q''"
    "view q'' = drop n (view q')" by blast
  show ?case
  proof (cases r)
    case None
    then show ?thesis using p by simp
  next
    case (Some y)
    then show ?thesis using p q'' by simp
  qed
qed simp

end

subsection \<open>The ring provides it\<close>

definition rb_ok :: "RingBuffer \<Rightarrow> bool" where
  "rb_ok rb \<longleftrightarrow> length (rb_slots rb) = RB_CAPACITY \<and> 0 \<le> rb_head rb \<and> rb_head rb < int RB_CAPACITY
     \<and> 0 \<le> rb_tail rb \<and> rb_tail rb < int RB_CAPACITY"

definition rb_count :: "int \<Rightarrow> int \<Rightarrow> nat" where
  "rb_count t h = nat ((h - t) mod int RB_CAPACITY)"

definition rb_at :: "int \<Rightarrow> nat \<Rightarrow> nat" where
  "rb_at t k = nat ((t + int k) mod int RB_CAPACITY)"

text \<open>The queued slots, oldest first.\<close>

definition rb_list :: "RingBuffer \<Rightarrow> SmoothedMetrics list" where
  "rb_list rb = map (\<lambda>k. rb_slots rb ! rb_at (rb_tail rb) k) [0..<rb_count (rb_tail rb) (rb_head rb)]"

abbreviation in_ring :: "int \<Rightarrow> bool" where
  "in_ring i \<equiv> 0 \<le> i \<and> i < int RB_CAPACITY"

lemma rb_next_if: "in_ring i \<Longrightarrow> rb_next i = (if i + 1 = int RB_CAPACITY then 0 else i + 1)"
  using mod_wrap [of "i + 1" "int RB_CAPACITY"] by (auto simp: rb_next_def smod_nonneg)

lemma rb_next_range [bounds]: "in_ring i \<Longrightarrow> in_ring (rb_next i)"
  by (auto simp: rb_next_if)

lemma rb_count_if: "in_ring t \<Longrightarrow> in_ring h \<Longrightarrow>
  rb_count t h = (if t \<le> h then nat (h - t) else nat (h - t + int RB_CAPACITY))"
  by (subst rb_count_def, subst mod_neg_wrap) auto

lemma rb_at_if: "in_ring t \<Longrightarrow> k < RB_CAPACITY \<Longrightarrow>
  rb_at t k = (if t + int k < int RB_CAPACITY then nat (t + int k) else nat (t + int k - int RB_CAPACITY))"
  by (subst rb_at_def, subst mod_wrap) auto

lemma rb_count_less [bounds]: "in_ring t \<Longrightarrow> in_ring h \<Longrightarrow> rb_count t h < RB_CAPACITY"
  by (auto simp: rb_count_if)

lemma rb_at_less [bounds]: "in_ring t \<Longrightarrow> k < RB_CAPACITY \<Longrightarrow> rb_at t k < RB_CAPACITY"
  by (auto simp: rb_at_if)

lemma rb_full_iff: "in_ring t \<Longrightarrow> in_ring h \<Longrightarrow> rb_next h = t \<longleftrightarrow> rb_count t h = RB_CAPACITY - 1"
  by (auto simp: rb_next_if rb_count_if)

lemma rb_empty_iff: "in_ring t \<Longrightarrow> in_ring h \<Longrightarrow> t = h \<longleftrightarrow> rb_count t h = 0"
  by (auto simp: rb_count_if)

lemma rb_count_next_head: "in_ring t \<Longrightarrow> in_ring h \<Longrightarrow> rb_next h \<noteq> t \<Longrightarrow>
  rb_count t (rb_next h) = Suc (rb_count t h)"
  by (auto simp: rb_next_if rb_count_if)

lemma rb_count_next_tail: "in_ring t \<Longrightarrow> in_ring h \<Longrightarrow> t \<noteq> h \<Longrightarrow>
  Suc (rb_count (rb_next t) h) = rb_count t h"
  by (auto simp: rb_next_if rb_count_if)

lemma rb_at_count: "in_ring t \<Longrightarrow> in_ring h \<Longrightarrow> rb_at t (rb_count t h) = nat h"
  by (auto simp: rb_at_if rb_count_if)

lemma rb_at_0: "in_ring t \<Longrightarrow> rb_at t 0 = nat t"
  by (simp add: rb_at_if)

lemma rb_at_next: "in_ring t \<Longrightarrow> Suc k < RB_CAPACITY \<Longrightarrow> rb_at (rb_next t) k = rb_at t (Suc k)"
  by (auto simp: rb_at_if rb_next_if)

lemma rb_at_inj: "in_ring t \<Longrightarrow> k < RB_CAPACITY \<Longrightarrow> l < RB_CAPACITY \<Longrightarrow> rb_at t k = rb_at t l \<longleftrightarrow> k = l"
  by (auto simp: rb_at_if split: if_splits)

lemma rb_ok_ranges: "rb_ok rb \<Longrightarrow> in_ring (rb_tail rb)" "rb_ok rb \<Longrightarrow> in_ring (rb_head rb)"
  "rb_ok rb \<Longrightarrow> length (rb_slots rb) = RB_CAPACITY"
  by (simp_all add: rb_ok_def)

lemma rb_ok_index: "rb_ok rb \<Longrightarrow> rb_index_ok rb (rb_head rb)" "rb_ok rb \<Longrightarrow> rb_index_ok rb (rb_tail rb)"
  "rb_ok rb \<Longrightarrow> rb_head rb \<noteq> INT_MAX" "rb_ok rb \<Longrightarrow> rb_tail rb \<noteq> INT_MAX"
  by (auto simp: rb_ok_def rb_index_ok_def RB_CAPACITY_def)

lemma length_rb_list: "length (rb_list rb) = rb_count (rb_tail rb) (rb_head rb)"
  by (simp add: rb_list_def)

lemma rb_list_init: "rb_list (rb_init_segment rb) = []"
  by (simp add: rb_list_def rb_init_segment_def rb_count_def)

lemma rb_ok_init [keeps]: "rb_ok (rb_init_segment rb)"
  by (simp add: rb_ok_def rb_init_segment_def)

lemma rb_push_refused: "rb_ok rb \<Longrightarrow> RB_CAPACITY - 1 \<le> length (rb_list rb) \<Longrightarrow> rb_push rb m = Some (False, rb)"
  using rb_full_iff [of "rb_tail rb" "rb_head rb"] rb_count_less [of "rb_tail rb" "rb_head rb"]
  by (auto simp: rb_push_def length_rb_list rb_ok_index rb_ok_ranges)

text \<open>Writing the slot at \<open>head\<close> touches none of the queued slots.\<close>

lemma rb_list_write:
  assumes "rb_ok rb" "k < rb_count (rb_tail rb) (rb_head rb)"
  shows "(rb_slots rb)[nat (rb_head rb) := m] ! rb_at (rb_tail rb) k = rb_slots rb ! rb_at (rb_tail rb) k"
proof -
  let ?t = "rb_tail rb" and ?h = "rb_head rb"
  have r: "in_ring ?t" "in_ring ?h" using assms(1) by (simp_all add: rb_ok_def)
  have "rb_at ?t k \<noteq> rb_at ?t (rb_count ?t ?h)"
    using rb_at_inj [OF r(1), of k "rb_count ?t ?h"] rb_count_less [OF r] assms(2) by simp
  then show ?thesis using rb_at_count [OF r] by simp
qed

lemma rb_push_accepted:
  assumes "rb_ok rb" "length (rb_list rb) < RB_CAPACITY - 1"
  shows "\<exists>rb'. rb_push rb m = Some (True, rb') \<and> rb_ok rb' \<and> rb_list rb' = rb_list rb @ [m]"
proof -
  let ?t = "rb_tail rb" and ?h = "rb_head rb"
  have r: "in_ring ?t" "in_ring ?h" using assms(1) by (simp_all add: rb_ok_def)
  have nf: "rb_next ?h \<noteq> ?t" using assms(2) rb_full_iff [OF r] by (simp add: length_rb_list)
  define rb' where "rb' = rb\<lparr>rb_slots := (rb_slots rb)[nat ?h := m], rb_head := rb_next ?h\<rparr>"
  have p: "rb_push rb m = Some (True, rb')"
    using assms(1) nf by (simp add: rb_push_def Let_def rb_ok_index rb'_def)
  have ok: "rb_ok rb'" using assms(1) rb_next_range [OF r(2)] by (simp add: rb_ok_def rb'_def)
  have "nat ?h < length (rb_slots rb)" using assms(1) by (auto simp: rb_ok_def)
  then have "rb_list rb' = rb_list rb @ [m]"
    using rb_count_next_head [OF r nf] rb_at_count [OF r] rb_list_write [OF assms(1)]
    by (simp add: rb_list_def rb'_def)
  with p ok show ?thesis by blast
qed

lemma rb_pop_empty: "rb_ok rb \<Longrightarrow> rb_list rb = [] \<Longrightarrow> rb_pop rb = Some (None, rb)"
  using rb_empty_iff [of "rb_tail rb" "rb_head rb"]
  by (simp add: rb_pop_def rb_list_def rb_ok_ranges)

lemma rb_pop_front:
  assumes "rb_ok rb" "rb_list rb = y # ys"
  shows "\<exists>rb'. rb_pop rb = Some (Some y, rb') \<and> rb_ok rb' \<and> rb_list rb' = ys"
proof -
  let ?t = "rb_tail rb" and ?h = "rb_head rb"
  have r: "in_ring ?t" "in_ring ?h" using assms(1) by (simp_all add: rb_ok_def)
  have ne: "?t \<noteq> ?h" using assms(2) rb_empty_iff [OF r] length_rb_list [of rb] by auto
  define n where "n = rb_count (rb_next ?t) ?h"
  have c: "rb_count ?t ?h = Suc n" using rb_count_next_tail [OF r ne] by (simp add: n_def)
  have l: "rb_list rb = rb_slots rb ! nat ?t # map (\<lambda>k. rb_slots rb ! rb_at ?t (Suc k)) [0..<n]"
    unfolding rb_list_def c by (simp add: rb_at_0 r upt_rec [of 0] map_Suc_upt [symmetric] del: upt_Suc)
  define rb' where "rb' = rb\<lparr>rb_tail := rb_next ?t\<rparr>"
  have "\<forall>k < n. rb_at (rb_next ?t) k = rb_at ?t (Suc k)"
    using rb_at_next [OF r(1)] rb_count_less [OF r] c by auto
  then have "rb_list rb' = map (\<lambda>k. rb_slots rb ! rb_at ?t (Suc k)) [0..<n]"
    by (simp add: rb_list_def rb'_def flip: n_def)
  moreover have "rb_pop rb = Some (Some (rb_slots rb ! nat ?t), rb')"
    using ne rb_ok_index [OF assms(1)] by (simp add: rb_pop_def rb'_def Let_def)
  moreover have "rb_ok rb'" using assms(1) rb_next_range [OF r(1)] by (simp add: rb_ok_def rb'_def)
  ultimately show ?thesis using l assms(2) by auto
qed

interpretation rbq: bounded_queue rb_push rb_pop rb_list rb_ok "RB_CAPACITY - 1"
proof unfold_locales
  fix q assume "rb_ok q"
  then show "length (rb_list q) \<le> RB_CAPACITY - 1"
    using rb_count_less [of "rb_tail q" "rb_head q"] by (simp add: length_rb_list rb_ok_def)
qed (simp_all add: rb_push_refused rb_push_accepted rb_pop_empty rb_pop_front)

lemma rb_is_full_iff: "rb_ok rb \<Longrightarrow> rb_is_full rb \<longleftrightarrow> length (rb_list rb) = RB_CAPACITY - 1"
  by (simp add: rb_is_full_def rb_full_iff rb_ok_ranges length_rb_list)

lemma rb_is_empty_iff: "rb_ok rb \<Longrightarrow> rb_is_empty rb \<longleftrightarrow> rb_list rb = []"
  using rb_empty_iff [of "rb_tail rb" "rb_head rb"]
  by (auto simp: rb_is_empty_def rb_ok_ranges length_rb_list simp flip: length_0_conv)

subsection \<open>Creating, attaching, destroying\<close>

text \<open>
  The shared-memory calls as a record over an abstract world. \<open>shm_mmap\<close> gives the mapped
  segment's contents, \<open>None\<close> for \<open>MAP_FAILED\<close>.
\<close>

record 'w shm_os =
  shm_unlink :: "string \<Rightarrow> 'w \<Rightarrow> 'w"
  shm_open :: "string \<Rightarrow> bool \<Rightarrow> 'w \<Rightarrow> int \<times> 'w"
  shm_fchmod :: "int \<Rightarrow> 'w \<Rightarrow> int \<times> 'w"
  shm_ftruncate :: "int \<Rightarrow> 'w \<Rightarrow> int \<times> 'w"
  shm_mmap :: "int \<Rightarrow> 'w \<Rightarrow> RingBuffer option \<times> 'w"
  shm_munmap :: "'w \<Rightarrow> 'w"
  shm_close :: "int \<Rightarrow> 'w \<Rightarrow> 'w"

definition SHM_NAME :: string where "SHM_NAME = ''/monitor_rb''"
definition SHM_NAME_DASH :: string where "SHM_NAME_DASH = ''/monitor_rb_dash''"

definition rb_create_named :: "'w shm_os \<Rightarrow> string \<Rightarrow> 'w \<Rightarrow> RingBuffer option \<times> 'w" where
  "rb_create_named os name w =
    (let w1 = shm_unlink os name w; (fd, w2) = shm_open os name True w1 in
     if fd < 0 then (None, w2) else
     let (_, w3) = shm_fchmod os fd w2; (r, w4) = shm_ftruncate os fd w3 in
     if r < 0 then (None, shm_close os fd w4) else
     let (m, w5) = shm_mmap os fd w4; w6 = shm_close os fd w5 in
     (map_option rb_init_segment m, w6))"

definition rb_attach_named :: "'w shm_os \<Rightarrow> string \<Rightarrow> 'w \<Rightarrow> RingBuffer option \<times> 'w" where
  "rb_attach_named os name w =
    (let (fd, w1) = shm_open os name False w in
     if fd < 0 then (None, w1) else
     let (m, w2) = shm_mmap os fd w1 in (m, shm_close os fd w2))"

definition rb_destroy_named :: "'w shm_os \<Rightarrow> string \<Rightarrow> 'w \<Rightarrow> 'w" where
  "rb_destroy_named os name w = shm_unlink os name (shm_munmap os w)"

definition rb_create :: "'w shm_os \<Rightarrow> 'w \<Rightarrow> RingBuffer option \<times> 'w" where
  "rb_create os w = rb_create_named os SHM_NAME w"

definition rb_attach :: "'w shm_os \<Rightarrow> 'w \<Rightarrow> RingBuffer option \<times> 'w" where
  "rb_attach os w = rb_attach_named os SHM_NAME w"

definition rb_destroy :: "'w shm_os \<Rightarrow> 'w \<Rightarrow> 'w" where
  "rb_destroy os w = rb_destroy_named os SHM_NAME w"

definition rb_create_dash :: "'w shm_os \<Rightarrow> 'w \<Rightarrow> RingBuffer option \<times> 'w" where
  "rb_create_dash os w = rb_create_named os SHM_NAME_DASH w"

definition rb_attach_dash :: "'w shm_os \<Rightarrow> 'w \<Rightarrow> RingBuffer option \<times> 'w" where
  "rb_attach_dash os w = rb_attach_named os SHM_NAME_DASH w"

definition rb_destroy_dash :: "'w shm_os \<Rightarrow> 'w \<Rightarrow> 'w" where
  "rb_destroy_dash os w = rb_destroy_named os SHM_NAME_DASH w"

definition rb_detach :: "'w shm_os \<Rightarrow> 'w \<Rightarrow> 'w" where
  "rb_detach os w = shm_munmap os w"

text \<open>Any such kernel, instrumented with the descriptors it has open.\<close>

definition shm_tracked :: "'w shm_os \<Rightarrow> ('w \<times> int multiset) shm_os" where
  "shm_tracked os =
    \<lparr>shm_unlink = (\<lambda>n (w, F). (shm_unlink os n w, F)),
     shm_open = (\<lambda>n c (w, F). let (fd, w') = shm_open os n c w
                             in (fd, (w', if 0 \<le> fd then add_mset fd F else F))),
     shm_fchmod = (\<lambda>fd (w, F). let (r, w') = shm_fchmod os fd w in (r, (w', F))),
     shm_ftruncate = (\<lambda>fd (w, F). let (r, w') = shm_ftruncate os fd w in (r, (w', F))),
     shm_mmap = (\<lambda>fd (w, F). let (r, w') = shm_mmap os fd w in (r, (w', F))),
     shm_munmap = (\<lambda>(w, F). (shm_munmap os w, F)),
     shm_close = (\<lambda>fd (w, F). (shm_close os fd w, F - {#fd#}))\<rparr>"

text \<open>A freshly created ring, whatever the segment held before.\<close>

definition rb_fresh :: RingBuffer where
  "rb_fresh = rb_init_segment \<lparr>rb_slots = [], rb_head = 0, rb_tail = 0, rb_abi_version = 0, rb_slot_size = 0\<rparr>"

lemma rb_fresh_props: "rb_ok rb_fresh" "rb_list rb_fresh = []"
  by (simp_all add: rb_fresh_def rb_ok_init rb_list_init)

lemma create_tracked:
  assumes "rb_create_named (shm_tracked os) name (w, F) = (r, w', F')"
  shows "F' = F \<and> (\<forall>rb. r = Some rb \<longrightarrow> rb_ok rb \<and> rb_list rb = [] \<and> rb_check_abi rb)"
proof -
  have init: "rb_check_abi (rb_init_segment m)" for m by (simp add: rb_check_abi_def rb_init_segment_def)
  show ?thesis using assms
    by (auto simp: rb_create_named_def shm_tracked_def Let_def init rb_ok_init rb_list_init
        split: prod.splits if_splits)
qed

subsection \<open>Properties\<close>

text \<open>
  C9. While both indices are in range, a push never touches memory outside the ring, accepts
  exactly when fewer than \<open>RB_CAPACITY - 1\<close> slots are queued, appends the slot at the end
  of the queue when it accepts and changes nothing when it refuses.
\<close>

theorem ring_push_refines_queue:
  assumes "rb_ok rb"
  shows "\<exists>rb'. rb_push rb m = Some (length (rb_list rb) < RB_CAPACITY - 1, rb') \<and> rb_ok rb' \<and>
    rb_list rb' = (if length (rb_list rb) < RB_CAPACITY - 1 then rb_list rb @ [m] else rb_list rb)"
proof -
  obtain b rb' where "rb_push rb m = Some (b, rb')" "rb_ok rb'"
    "rb_list rb' = (if b then rb_list rb @ [m] else rb_list rb)"
    "b \<longleftrightarrow> length (rb_list rb) < RB_CAPACITY - 1"
    using rbq.push_total [OF assms] by blast
  then show ?thesis by (intro exI [of _ rb']) auto
qed

theorem ring_push_refines_queue_witness:
  "\<exists>rb'. rb_push rb_fresh sm_zero = Some (length (rb_list rb_fresh) < RB_CAPACITY - 1, rb') \<and> rb_ok rb' \<and>
    rb_list rb' = (if length (rb_list rb_fresh) < RB_CAPACITY - 1
      then rb_list rb_fresh @ [sm_zero] else rb_list rb_fresh)"
  by (rule ring_push_refines_queue) (rule rb_fresh_props)

text \<open>
  C10. First in, first out, without loss or duplication: pushing any batch into an empty ring
  and then popping \<open>n\<close> times returns the first \<open>n\<close> of the slots that fitted, in order, and
  leaves the others queued; what did not fit is dropped, never overwriting older slots.
\<close>

theorem ring_fifo:
  assumes "rb_ok rb" and "rb_list rb = []"
  shows "\<exists>rb1 rb2. rbq.push_all rb ms = Some rb1 \<and>
    rbq.pop_n n rb1 = Some (take n (take (RB_CAPACITY - 1) ms), rb2) \<and>
    rb_list rb2 = drop n (take (RB_CAPACITY - 1) ms)"
  using rbq.push_all_view [OF assms(1), of ms] rbq.pop_n_view assms(2)
  by (metis append_Nil diff_zero list.size(3))

theorem ring_fifo_witness:
  "\<exists>rb1 rb2. rbq.push_all rb_fresh [sm_zero, sm_zero\<lparr>sm_pid := 7\<rparr>] = Some rb1 \<and>
    rbq.pop_n 1 rb1 = Some (take 1 (take (RB_CAPACITY - 1) [sm_zero, sm_zero\<lparr>sm_pid := 7\<rparr>]), rb2) \<and>
    rb_list rb2 = drop 1 (take (RB_CAPACITY - 1) [sm_zero, sm_zero\<lparr>sm_pid := 7\<rparr>])"
  by (rule ring_fifo) (rule rb_fresh_props)+

text \<open>
  C30. Whatever the kernel answers to the shared-memory calls, creating a ring leaves no file
  descriptor open, and a ring that is returned is empty, in range and passes the ABI check
  consumers run on it.
\<close>

theorem ring_create:
  assumes "rb_create_named (shm_tracked os) name (w, F) = (r, w', F')"
  shows "F' = F \<and> (\<forall>rb. r = Some rb \<longrightarrow> rb_ok rb \<and> rb_list rb = [] \<and> rb_check_abi rb)"
  using assms by (rule create_tracked)

definition shm_example :: "'w shm_os" where
  "shm_example = \<lparr>shm_unlink = (\<lambda>n w. w), shm_open = (\<lambda>n c w. (3, w)), shm_fchmod = (\<lambda>fd w. (0, w)),
     shm_ftruncate = (\<lambda>fd w. (0, w)), shm_mmap = (\<lambda>fd w. (Some rb_fresh, w)),
     shm_munmap = (\<lambda>w. w), shm_close = (\<lambda>fd w. w)\<rparr>"

theorem ring_create_witness:
  "rb_ok (rb_init_segment rb_fresh) \<and> rb_list (rb_init_segment rb_fresh) = [] \<and>
   rb_check_abi (rb_init_segment rb_fresh)"
proof -
  have "rb_create_named (shm_tracked shm_example) SHM_NAME ((), {#}) = (Some (rb_init_segment rb_fresh), (), {#})"
    by (simp add: rb_create_named_def shm_tracked_def shm_example_def)
  from ring_create [OF this] show ?thesis by simp
qed

end
