(* ===== verification/Ring_Spsc.thy ===== *)
theory Ring_Spsc
  imports Ring_Buffer
begin

text \<open>
  The ring under concurrency: one producer process (the daemon) and one consumer process
  interleave at the granularity of their atomic accesses. The program counters hold what
  each side has loaded so far, so between the producer's check of \<open>tail\<close> and its release
  store of \<open>head\<close> the consumer may take any number of steps, and the other way round.
  Release/acquire ordering on the two single-writer indices makes every execution
  equivalent to such an interleaving.

  The theorems: nothing is lost, duplicated or reordered between accepted pushes and
  pops, and the slot being written is never the slot being read.
\<close>

text \<open>
  \<open>P_loaded m h\<close>: \<open>head\<close> has been loaded. \<open>P_space m h\<close>: the test against \<open>tail\<close> has passed.
  \<open>P_written m h\<close>: the slot has been written, \<open>head\<close> is not yet published.
\<close>

datatype producer = P_idle | P_loaded SmoothedMetrics int | P_space SmoothedMetrics int
  | P_written SmoothedMetrics int

datatype consumer = C_idle | C_loaded int | C_avail int | C_copied SmoothedMetrics int

record spsc =
  ring :: RingBuffer
  ppc :: producer
  cpc :: consumer
  accepted :: "SmoothedMetrics list"
  refused :: "SmoothedMetrics list"
  popped :: "SmoothedMetrics list"

definition spsc_init :: "RingBuffer \<Rightarrow> spsc" where
  "spsc_init rb = \<lparr>ring = rb, ppc = P_idle, cpc = C_idle, accepted = [], refused = [], popped = []\<rparr>"

text \<open>The producer's steps, in the order of \<open>rb_push\<close>.\<close>

inductive push_step :: "spsc \<Rightarrow> spsc \<Rightarrow> bool" where
  load_head: "ppc s = P_idle \<Longrightarrow>
    push_step s (s\<lparr>ppc := P_loaded m (rb_head (ring s))\<rparr>)"
| full: "ppc s = P_loaded m h \<Longrightarrow> rb_next h = rb_tail (ring s) \<Longrightarrow>
    push_step s (s\<lparr>ppc := P_idle, refused := refused s @ [m]\<rparr>)"
| space: "ppc s = P_loaded m h \<Longrightarrow> rb_next h \<noteq> rb_tail (ring s) \<Longrightarrow>
    push_step s (s\<lparr>ppc := P_space m h\<rparr>)"
| write_slot: "ppc s = P_space m h \<Longrightarrow>
    push_step s (s\<lparr>ppc := P_written m h,
                   ring := (ring s)\<lparr>rb_slots := (rb_slots (ring s))[nat h := m]\<rparr>\<rparr>)"
| publish: "ppc s = P_written m h \<Longrightarrow>
    push_step s (s\<lparr>ppc := P_idle, accepted := accepted s @ [m],
                   ring := (ring s)\<lparr>rb_head := rb_next h\<rparr>\<rparr>)"

text \<open>The consumer's steps, in the order of \<open>rb_pop\<close>.\<close>

inductive pop_step :: "spsc \<Rightarrow> spsc \<Rightarrow> bool" where
  load_tail: "cpc s = C_idle \<Longrightarrow> pop_step s (s\<lparr>cpc := C_loaded (rb_tail (ring s))\<rparr>)"
| nothing: "cpc s = C_loaded t \<Longrightarrow> t = rb_head (ring s) \<Longrightarrow> pop_step s (s\<lparr>cpc := C_idle\<rparr>)"
| avail: "cpc s = C_loaded t \<Longrightarrow> t \<noteq> rb_head (ring s) \<Longrightarrow> pop_step s (s\<lparr>cpc := C_avail t\<rparr>)"
| copy_slot: "cpc s = C_avail t \<Longrightarrow>
    pop_step s (s\<lparr>cpc := C_copied (rb_slots (ring s) ! nat t) t\<rparr>)"
| release: "cpc s = C_copied m t \<Longrightarrow>
    pop_step s (s\<lparr>cpc := C_idle, popped := popped s @ [m],
                  ring := (ring s)\<lparr>rb_tail := rb_next t\<rparr>\<rparr>)"

inductive spsc_step :: "spsc \<Rightarrow> spsc \<Rightarrow> bool" where
  producer: "push_step s s' \<Longrightarrow> spsc_step s s'"
| consumer: "pop_step s s' \<Longrightarrow> spsc_step s s'"

inductive spsc_reach :: "spsc \<Rightarrow> bool" where
  start: "rb_ok rb \<Longrightarrow> rb_list rb = [] \<Longrightarrow> spsc_reach (spsc_init rb)"
| step: "spsc_reach s \<Longrightarrow> spsc_step s s' \<Longrightarrow> spsc_reach s'"

inductive_cases push_stepE: "push_step s s'"
inductive_cases pop_stepE: "pop_step s s'"
inductive_cases spsc_stepE: "spsc_step s s'"

subsection \<open>The invariant\<close>

text \<open>What each program counter knows about the ring.\<close>

fun prod_ok :: "RingBuffer \<Rightarrow> producer \<Rightarrow> bool" where
  "prod_ok rb P_idle = True"
| "prod_ok rb (P_loaded m h) = (h = rb_head rb)"
| "prod_ok rb (P_space m h) = (h = rb_head rb \<and> length (rb_list rb) < RB_CAPACITY - 1)"
| "prod_ok rb (P_written m h) = (h = rb_head rb \<and> length (rb_list rb) < RB_CAPACITY - 1 \<and>
     rb_slots rb ! nat h = m)"

fun cons_ok :: "RingBuffer \<Rightarrow> consumer \<Rightarrow> bool" where
  "cons_ok rb C_idle = True"
| "cons_ok rb (C_loaded t) = (t = rb_tail rb)"
| "cons_ok rb (C_avail t) = (t = rb_tail rb \<and> rb_list rb \<noteq> [])"
| "cons_ok rb (C_copied m t) = (t = rb_tail rb \<and> rb_list rb \<noteq> [] \<and> m = hd (rb_list rb))"

definition spsc_inv :: "spsc \<Rightarrow> bool" where
  "spsc_inv s \<longleftrightarrow> rb_ok (ring s) \<and> prod_ok (ring s) (ppc s) \<and> cons_ok (ring s) (cpc s) \<and>
     accepted s = popped s @ rb_list (ring s)"

text \<open>The three ways a step changes the ring, as facts about its view.\<close>

lemma view_write:
  assumes "rb_ok rb" "h = rb_head rb"
  shows "rb_ok (rb\<lparr>rb_slots := (rb_slots rb)[nat h := m]\<rparr>)"
    and "rb_list (rb\<lparr>rb_slots := (rb_slots rb)[nat h := m]\<rparr>) = rb_list rb"
    and "(rb_slots rb)[nat h := m] ! nat h = m"
  using assms rb_list_write [OF assms(1)] by (auto simp: rb_ok_def rb_list_def)

lemma view_publish:
  assumes "rb_ok rb" "h = rb_head rb" "length (rb_list rb) < RB_CAPACITY - 1" "rb_slots rb ! nat h = m"
  shows "rb_ok (rb\<lparr>rb_head := rb_next h\<rparr>)" and "rb_list (rb\<lparr>rb_head := rb_next h\<rparr>) = rb_list rb @ [m]"
proof -
  have "rb\<lparr>rb_slots := (rb_slots rb)[nat h := m], rb_head := rb_next h\<rparr> = rb\<lparr>rb_head := rb_next h\<rparr>"
    using assms(4) by (metis RingBuffer.surjective RingBuffer.update_convs(1) list_update_id)
  moreover have "rb_push rb m =
      Some (True, rb\<lparr>rb_slots := (rb_slots rb)[nat h := m], rb_head := rb_next h\<rparr>)"
    using rb_push_accepted [OF assms(1,3), of m] assms(2)
    by (auto simp: rb_push_def Let_def split: if_splits)
  ultimately show "rb_ok (rb\<lparr>rb_head := rb_next h\<rparr>)"
    "rb_list (rb\<lparr>rb_head := rb_next h\<rparr>) = rb_list rb @ [m]"
    using rb_push_accepted [OF assms(1,3), of m] by auto
qed

lemma view_release:
  assumes "rb_ok rb" "t = rb_tail rb" "rb_list rb \<noteq> []"
  shows "rb_ok (rb\<lparr>rb_tail := rb_next t\<rparr>)" and "rb_list (rb\<lparr>rb_tail := rb_next t\<rparr>) = tl (rb_list rb)"
    and "hd (rb_list rb) = rb_slots rb ! nat t"
proof -
  obtain y ys where l: "rb_list rb = y # ys" using assms(3) by (cases "rb_list rb") auto
  from rb_pop_front [OF assms(1) l] obtain rb' where
    "rb_pop rb = Some (Some y, rb')" "rb_ok rb'" "rb_list rb' = ys" by blast
  then show "rb_ok (rb\<lparr>rb_tail := rb_next t\<rparr>)" "rb_list (rb\<lparr>rb_tail := rb_next t\<rparr>) = tl (rb_list rb)"
    "hd (rb_list rb) = rb_slots rb ! nat t"
    using l assms(2) by (auto simp: rb_pop_def Let_def split: if_splits)
qed

lemma push_step_inv: "push_step s s' \<Longrightarrow> spsc_inv s \<Longrightarrow> spsc_inv s'"
proof (induction rule: push_step.induct)
  case (load_head s m)
  then show ?case by (simp add: spsc_inv_def)
next
  case (full s m h)
  then show ?case by (simp add: spsc_inv_def)
next
  case (space s m h)
  then show ?case
    using rb_is_full_iff [of "ring s"] rbq.view_bound [of "ring s"]
    by (auto simp: spsc_inv_def rb_is_full_def)
next
  case (write_slot s m h)
  then show ?case
    using view_write [of "ring s" h m] by (cases "cpc s") (auto simp: spsc_inv_def)
next
  case (publish s m h)
  then show ?case
    using view_publish [of "ring s" h m] by (cases "cpc s") (auto simp: spsc_inv_def)
qed

lemma pop_step_inv: "pop_step s s' \<Longrightarrow> spsc_inv s \<Longrightarrow> spsc_inv s'"
proof (induction rule: pop_step.induct)
  case (load_tail s)
  then show ?case by (simp add: spsc_inv_def)
next
  case (nothing s t)
  then show ?case by (simp add: spsc_inv_def)
next
  case (avail s t)
  then show ?case using rb_is_empty_iff [of "ring s"] by (auto simp: spsc_inv_def rb_is_empty_def)
next
  case (copy_slot s t)
  then show ?case using view_release(3) [of "ring s" t] by (auto simp: spsc_inv_def)
next
  case (release s m t)
  then show ?case
    using view_release [of "ring s" t]
    by (cases "ppc s"; cases "rb_list (ring s)") (auto simp: spsc_inv_def)
qed

lemma spsc_reach_inv: "spsc_reach s \<Longrightarrow> spsc_inv s"
proof (induction rule: spsc_reach.induct)
  case (start rb)
  then show ?case by (simp add: spsc_inv_def spsc_init_def)
next
  case (step s s')
  then show ?case by (auto elim!: spsc_stepE intro: push_step_inv pop_step_inv)
qed

text \<open>The slot the producer is about to write, and the slot the consumer is about to read.\<close>

fun writing :: "producer \<Rightarrow> int option" where
  "writing (P_space m h) = Some h"
| "writing _ = None"

fun reading :: "consumer \<Rightarrow> int option" where
  "reading (C_avail t) = Some t"
| "reading _ = None"

lemma inv_no_overlap:
  assumes "spsc_inv s" "writing (ppc s) = Some h" "reading (cpc s) = Some t"
  shows "h \<noteq> t \<and> in_ring h \<and> in_ring t"
proof -
  have "h = rb_head (ring s)" "t = rb_tail (ring s)" "rb_ok (ring s)" "rb_list (ring s) \<noteq> []"
    using assms by (auto simp: spsc_inv_def elim!: writing.elims reading.elims)
  then show ?thesis using rb_is_empty_iff [of "ring s"] by (auto simp: rb_is_empty_def rb_ok_def)
qed

text \<open>
  An undisturbed \<open>rb_push\<close> or \<open>rb_pop\<close> is a run of these steps, so the sequential operations
  and the interleaved ones are the same code.
\<close>

lemma push_steps_seq:
  assumes "ppc s = P_idle" "rb_push (ring s) m = Some (True, rb')"
  shows "spsc_step\<^sup>*\<^sup>* s (s\<lparr>ring := rb', accepted := accepted s @ [m]\<rparr>)"
proof -
  let ?h = "rb_head (ring s)"
  let ?s1 = "s\<lparr>ppc := P_loaded m ?h\<rparr>" and ?s2 = "s\<lparr>ppc := P_space m ?h\<rparr>"
  let ?s3 = "s\<lparr>ppc := P_written m ?h, ring := (ring s)\<lparr>rb_slots := (rb_slots (ring s))[nat ?h := m]\<rparr>\<rparr>"
  have r: "rb' = (ring s)\<lparr>rb_slots := (rb_slots (ring s))[nat ?h := m], rb_head := rb_next ?h\<rparr>"
    and n: "rb_next ?h \<noteq> rb_tail (ring s)"
    using assms(2) by (auto simp: rb_push_def Let_def split: if_splits)
  have "spsc_step s ?s1" using push_step.load_head [OF assms(1)] by (rule spsc_step.producer)
  moreover have "spsc_step ?s1 ?s2"
    using push_step.space [of ?s1 m ?h] n by (intro spsc_step.producer) simp
  moreover have "spsc_step ?s2 ?s3"
    using push_step.write_slot [of ?s2 m ?h] by (intro spsc_step.producer) simp
  moreover have "spsc_step ?s3 (s\<lparr>ring := rb', accepted := accepted s @ [m]\<rparr>)"
    using push_step.publish [of ?s3 m ?h] assms(1) unfolding r
    by (intro spsc_step.producer) (cases s; simp)
  ultimately show ?thesis by (meson converse_rtranclp_into_rtranclp r_into_rtranclp)
qed

subsection \<open>Properties\<close>

text \<open>
  C5. In every reachable interleaving of the daemon's pushes with a consumer's pops, what
  has been popped followed by what is queued is exactly the sequence of accepted pushes:
  nothing is lost, duplicated, reordered or torn.
\<close>

theorem spsc_delivers_in_order:
  assumes "spsc_reach s"
  shows "accepted s = popped s @ rb_list (ring s) \<and> rb_ok (ring s)"
  using spsc_reach_inv [OF assms] by (simp add: spsc_inv_def)

lemma spsc_example:
  "\<exists>rb'. spsc_reach ((spsc_init rb_fresh)\<lparr>ring := rb', accepted := [sm_zero]\<rparr>)"
proof -
  from rb_push_accepted [OF rb_fresh_props(1), of sm_zero] rb_fresh_props(2)
  obtain rb' where p: "rb_push rb_fresh sm_zero = Some (True, rb')" by (auto simp: RB_CAPACITY_def)
  have s: "spsc_step\<^sup>*\<^sup>* (spsc_init rb_fresh) ((spsc_init rb_fresh)\<lparr>ring := rb', accepted := [sm_zero]\<rparr>)"
    using push_steps_seq [of "spsc_init rb_fresh" sm_zero rb'] p by (simp add: spsc_init_def)
  have reach: "spsc_reach t" if "spsc_step\<^sup>*\<^sup>* (spsc_init rb_fresh) t" for t
    using that by (induction rule: rtranclp_induct) (auto intro: spsc_reach.intros rb_fresh_props)
  show ?thesis using reach [OF s] by blast
qed

theorem spsc_delivers_in_order_witness:
  "\<exists>s :: spsc. accepted s = [sm_zero] \<and> accepted s = popped s @ rb_list (ring s) \<and> rb_ok (ring s)"
proof -
  obtain rb' where "spsc_reach ((spsc_init rb_fresh)\<lparr>ring := rb', accepted := [sm_zero]\<rparr>)"
    using spsc_example by blast
  note d = spsc_delivers_in_order [OF this]
  show ?thesis
    by (rule exI [of _ "(spsc_init rb_fresh)\<lparr>ring := rb', accepted := [sm_zero]\<rparr>"]) (use d in simp)
qed

text \<open>
  C23. The slot the producer is about to write and the slot the consumer is about to copy are
  never the same one, and both are inside the ring.
\<close>

theorem spsc_no_shared_slot:
  assumes "spsc_reach s" and "writing (ppc s) = Some h" and "reading (cpc s) = Some t"
  shows "h \<noteq> t \<and> in_ring h \<and> in_ring t"
  using spsc_reach_inv [OF assms(1)] assms(2,3) by (rule inv_no_overlap)

lemma spsc_both_busy:
  "\<exists>s h t. spsc_reach s \<and> writing (ppc s) = Some h \<and> reading (cpc s) = Some t"
proof -
  obtain rb' where r: "spsc_reach ((spsc_init rb_fresh)\<lparr>ring := rb', accepted := [sm_zero]\<rparr>)" (is "spsc_reach ?s")
    using spsc_example by blast
  have a: "rb_list rb' = [sm_zero]" "rb_ok rb'"
    using spsc_reach_inv [OF r] by (simp_all add: spsc_inv_def spsc_init_def)
  have ne: "rb_tail rb' \<noteq> rb_head rb'" and nf: "rb_next (rb_head rb') \<noteq> rb_tail rb'"
    using rb_is_empty_iff [OF a(2)] rb_is_full_iff [OF a(2)] a(1)
    by (auto simp: rb_is_empty_def rb_is_full_def RB_CAPACITY_def)
  let ?s1 = "?s\<lparr>cpc := C_loaded (rb_tail rb')\<rparr>" and ?s2 = "?s\<lparr>cpc := C_avail (rb_tail rb')\<rparr>"
  let ?s3 = "?s2\<lparr>ppc := P_loaded sm_zero (rb_head rb')\<rparr>" and ?s4 = "?s2\<lparr>ppc := P_space sm_zero (rb_head rb')\<rparr>"
  have "spsc_reach ?s1" using pop_step.load_tail [of ?s] r
    by (auto simp: spsc_init_def intro: spsc_reach.step spsc_step.consumer)
  then have "spsc_reach ?s2" using pop_step.avail [of ?s1 "rb_tail rb'"] ne
    by (auto simp: spsc_init_def intro: spsc_reach.step spsc_step.consumer)
  then have "spsc_reach ?s3" using push_step.load_head [of ?s2 sm_zero]
    by (auto simp: spsc_init_def intro: spsc_reach.step spsc_step.producer)
  then have "spsc_reach ?s4" using push_step.space [of ?s3 sm_zero "rb_head rb'"] nf
    by (auto simp: spsc_init_def intro: spsc_reach.step spsc_step.producer)
  then have "spsc_reach ?s4 \<and> writing (ppc ?s4) = Some (rb_head rb') \<and> reading (cpc ?s4) = Some (rb_tail rb')"
    by simp
  then show ?thesis by blast
qed

theorem spsc_no_shared_slot_witness: "\<exists>s h t. spsc_reach s \<and> writing (ppc s) = Some h \<and>
    reading (cpc s) = Some t \<and> h \<noteq> t \<and> in_ring h \<and> in_ring t"
  using spsc_both_busy spsc_no_shared_slot by blast

end
