(* ===== verification/Config.thy ===== *)
theory Config
  imports C_Lib
begin

text \<open>
  The configuration record and the command line, \<open>parse_args\<close> of \<^verbatim>\<open>src/schedmon.c\<close>. The
  option loop is a recursion on the remaining arguments; an option that needs a value and
  is the last argument is ignored, as in the code.
\<close>

abbreviation MAX_PIDS :: nat where "MAX_PIDS \<equiv> 256"
abbreviation DEFAULT_INTERVAL :: int where "DEFAULT_INTERVAL \<equiv> 50"
abbreviation DEFAULT_TOP_N :: int where "DEFAULT_TOP_N \<equiv> 256"
abbreviation MIN_UID :: int where "MIN_UID \<equiv> 0"
abbreviation LINUX_PID_MAX :: int where "LINUX_PID_MAX \<equiv> 4194304"

record DaemonConfig =
  cfg_pids :: "int list"
  top_n :: int
  min_uid :: int
  interval_ms :: int
  csv_path :: "string option"
  label :: "string option"
  terminal_mode :: bool
  running :: bool
  show_zero :: bool

text \<open>\<open>n_pids\<close> is the length of the list of explicit pids.\<close>

abbreviation n_pids :: "DaemonConfig \<Rightarrow> nat" where "n_pids c \<equiv> length (cfg_pids c)"

definition default_config :: DaemonConfig where
  "default_config = \<lparr>cfg_pids = [], top_n = 0, min_uid = MIN_UID, interval_ms = DEFAULT_INTERVAL,
     csv_path = None, label = None, terminal_mode = False, running = False, show_zero = False\<rparr>"

text \<open>One token of \<open>--pids\<close>: \<open>end == tok || *end || v <= 0 || v > LINUX_PID_MAX\<close> is skipped.\<close>

definition add_pid_token :: "DaemonConfig \<Rightarrow> string \<Rightarrow> DaemonConfig" where
  "add_pid_token c tok =
    (if MAX_PIDS \<le> n_pids c then c else
     let (v, rest) = strtol tok
     in if rest = tok \<or> rest \<noteq> [] \<or> v \<le> 0 \<or> LINUX_PID_MAX < v then c
        else c\<lparr>cfg_pids := cfg_pids c @ [v]\<rparr>)"

definition parse_pids :: "DaemonConfig \<Rightarrow> string \<Rightarrow> DaemonConfig" where
  "parse_pids c arg = foldl add_pid_token c (strtok (CHR '','') arg)"

definition set_top :: "DaemonConfig \<Rightarrow> string \<Rightarrow> DaemonConfig" where
  "set_top c arg = (let n = atoi arg in c\<lparr>top_n := (if n \<le> 0 \<or> int MAX_PIDS < n then DEFAULT_TOP_N else n)\<rparr>)"

definition set_interval :: "DaemonConfig \<Rightarrow> string \<Rightarrow> DaemonConfig" where
  "set_interval c arg = (let n = atoi arg in c\<lparr>interval_ms := (if n \<le> 0 then DEFAULT_INTERVAL else n)\<rparr>)"

fun parse_loop :: "DaemonConfig \<Rightarrow> string list \<Rightarrow> DaemonConfig" where
  "parse_loop c [] = c"
| "parse_loop c (a # as) =
    (case as of
       v # rest \<Rightarrow>
         if a = ''--pids'' then parse_loop (parse_pids c v) rest
         else if a = ''--top'' then parse_loop (set_top c v) rest
         else if a = ''--interval'' then parse_loop (set_interval c v) rest
         else if a = ''--csv'' then parse_loop (c\<lparr>csv_path := Some v\<rparr>) rest
         else if a = ''--min-uid'' then parse_loop (c\<lparr>min_uid := atoi v\<rparr>) rest
         else if a = ''--label'' then parse_loop (c\<lparr>label := Some v\<rparr>) rest
         else if a = ''--terminal'' then parse_loop (c\<lparr>terminal_mode := True\<rparr>) as
         else if a = ''--zero'' \<or> a = ''-z'' then parse_loop (c\<lparr>show_zero := True\<rparr>) as
         else parse_loop c as
     | [] \<Rightarrow>
         if a = ''--terminal'' then c\<lparr>terminal_mode := True\<rparr>
         else if a = ''--zero'' \<or> a = ''-z'' then c\<lparr>show_zero := True\<rparr>
         else c)"

definition parse_args :: "string list \<Rightarrow> DaemonConfig" where
  "parse_args argv =
    (let c = parse_loop default_config argv
     in if n_pids c = 0 \<and> top_n c = 0 then c\<lparr>top_n := DEFAULT_TOP_N\<rparr> else c)"

subsection \<open>Every command line gives a usable configuration\<close>

definition cfg_ok :: "DaemonConfig \<Rightarrow> bool" where
  "cfg_ok c \<longleftrightarrow> n_pids c \<le> MAX_PIDS \<and> (\<forall>p \<in> set (cfg_pids c). 0 < p \<and> p \<le> LINUX_PID_MAX) \<and>
     0 \<le> top_n c \<and> top_n c \<le> int MAX_PIDS \<and> 0 < interval_ms c"

lemma cfg_ok_default: "cfg_ok default_config"
  by (simp add: cfg_ok_def default_config_def)

lemma add_pid_token_ok [keeps]: "cfg_ok c \<Longrightarrow> cfg_ok (add_pid_token c tok)"
  by (auto simp: add_pid_token_def cfg_ok_def split: prod.splits)

lemma parse_pids_ok [keeps]: "cfg_ok c \<Longrightarrow> cfg_ok (parse_pids c arg)"
proof -
  have "cfg_ok c \<Longrightarrow> cfg_ok (foldl add_pid_token c toks)" for toks
    by (induction toks arbitrary: c) (simp_all add: add_pid_token_ok)
  then show "cfg_ok c \<Longrightarrow> cfg_ok (parse_pids c arg)" by (simp add: parse_pids_def)
qed

lemma set_top_ok [keeps]: "cfg_ok c \<Longrightarrow> cfg_ok (set_top c arg)"
  by (auto simp: set_top_def cfg_ok_def Let_def)

lemma set_interval_ok [keeps]: "cfg_ok c \<Longrightarrow> cfg_ok (set_interval c arg)"
  by (auto simp: set_interval_def cfg_ok_def Let_def)

lemma cfg_ok_flags [simp]:
  "cfg_ok (c\<lparr>csv_path := x\<rparr>) = cfg_ok c" "cfg_ok (c\<lparr>min_uid := u\<rparr>) = cfg_ok c"
  "cfg_ok (c\<lparr>label := l\<rparr>) = cfg_ok c" "cfg_ok (c\<lparr>terminal_mode := t\<rparr>) = cfg_ok c"
  "cfg_ok (c\<lparr>show_zero := z\<rparr>) = cfg_ok c" "cfg_ok (c\<lparr>running := r\<rparr>) = cfg_ok c"
  by (simp_all add: cfg_ok_def)

lemma parse_loop_ok: "cfg_ok c \<Longrightarrow> cfg_ok (parse_loop c argv)"
proof (induction c argv rule: parse_loop.induct)
  case (2 c a as)
  show ?case
  proof (cases as)
    case Nil
    with "2.prems" show ?thesis by simp
  next
    case (Cons v rest)
    with 2 show ?thesis by (auto simp: parse_pids_ok set_top_ok set_interval_ok)
  qed
qed simp

lemma parse_args_cfg_ok: "cfg_ok (parse_args argv)"
  using parse_loop_ok [OF cfg_ok_default, of argv] by (auto simp: parse_args_def Let_def cfg_ok_def)

subsection \<open>The pid list round trip\<close>

fun join_pids :: "nat list \<Rightarrow> string" where
  "join_pids [] = []"
| "join_pids [p] = dec p"
| "join_pids (p # ps) = dec p @ CHR '','' # join_pids ps"

lemma comma_notin_dec: "CHR '','' \<notin> set (dec n)"
  using dec_isdigit [of "CHR '',''" n] by (auto simp: isdigit_def)

lemma strtok_dec:
  "strtok (CHR '','') (dec p) = [dec p]"
  "strtok (CHR '','') (dec p @ CHR '','' # r) = dec p # strtok (CHR '','') (CHR '','' # r)"
proof -
  obtain d t where d: "dec p = d # t" by (cases "dec p") (simp_all add: dec_nonempty)
  have n: "\<forall>c \<in> set (dec p). c \<noteq> CHR '',''" using comma_notin_dec by metis
  then have h: "d \<noteq> CHR '',''" using d by simp
  have e: "strtok (CHR '','') [] = []" by (simp add: strtok.simps)
  have "takeWhile (\<lambda>c. c \<noteq> CHR '','') (dec p) = dec p" "dropWhile (\<lambda>c. c \<noteq> CHR '','') (dec p) = []"
    using n by simp_all
  moreover have "dropWhile (\<lambda>c. c = CHR '','') (dec p) = dec p" using d h by simp
  ultimately show "strtok (CHR '','') (dec p) = [dec p]"
    by (simp only: strtok.simps [of _ "dec p"] e dec_nonempty Let_def if_False)
  have "takeWhile (\<lambda>c. c \<noteq> CHR '','') (dec p @ CHR '','' # r) = dec p"
    "dropWhile (\<lambda>c. c \<noteq> CHR '','') (dec p @ CHR '','' # r) = CHR '','' # r"
    using n by (simp_all add: takeWhile_append dropWhile_append)
  moreover have "dropWhile (\<lambda>c. c = CHR '','') (dec p @ CHR '','' # r) = dec p @ CHR '','' # r"
    using d h by simp
  ultimately show "strtok (CHR '','') (dec p @ CHR '','' # r) = dec p # strtok (CHR '','') (CHR '','' # r)"
    by (simp add: strtok.simps [of _ "dec p @ CHR '','' # r"])
qed

lemma strtok_skip: "strtok (CHR '','') (CHR '','' # s) = strtok (CHR '','') s"
  by (simp add: strtok.simps [of _ "CHR '','' # s"] strtok.simps [of _ s])

lemma strtok_join: "strtok (CHR '','') (join_pids ps) = map dec ps"
proof (induction ps rule: join_pids.induct)
  case 1
  show ?case by (simp add: strtok.simps)
qed (simp_all add: strtok_dec strtok_skip)

lemma add_pid_token_dec:
  assumes "0 < p" "int p \<le> LINUX_PID_MAX" "n_pids c < MAX_PIDS"
  shows "add_pid_token c (dec p) = c\<lparr>cfg_pids := cfg_pids c @ [int p]\<rparr>"
proof -
  have "strtol (dec p) = (int p, [])" using strtol_dec [of p "[]" "[]"] assms(2) by simp
  then show ?thesis using assms dec_nonempty [of p] by (simp add: add_pid_token_def del: list.distinct)
qed

lemma parse_pids_join:
  assumes "\<forall>p \<in> set ps. 0 < p \<and> int p \<le> LINUX_PID_MAX" "n_pids c + length ps \<le> MAX_PIDS"
  shows "parse_pids c (join_pids ps) = c\<lparr>cfg_pids := cfg_pids c @ map int ps\<rparr>"
proof -
  have "foldl add_pid_token c (map dec ps) = c\<lparr>cfg_pids := cfg_pids c @ map int ps\<rparr>"
    using assms by (induction ps arbitrary: c) (simp_all add: add_pid_token_dec)
  then show ?thesis by (simp add: parse_pids_def strtok_join)
qed

subsection \<open>Properties\<close>

text \<open>
  C40. Every command line, well formed or not, gives a configuration the daemon can run with:
  at most 256 explicit pids, each a possible Linux pid, a positive interval, and a rank
  limit in range that is positive whenever there are no explicit pids.
\<close>

theorem parse_args_safe:
  "cfg_ok (parse_args argv) \<and> (cfg_pids (parse_args argv) = [] \<longrightarrow> 0 < top_n (parse_args argv))"
proof -
  have "cfg_ok (parse_args argv)" by (rule parse_args_cfg_ok)
  moreover have "cfg_pids (parse_args argv) = [] \<longrightarrow> top_n (parse_args argv) \<noteq> 0"
    by (simp add: parse_args_def Let_def)
  ultimately show ?thesis by (auto simp: cfg_ok_def)
qed

theorem parse_args_safe_witness:
  "cfg_ok (parse_args [''--top'', ''9999'', ''--interval'', ''-3'', ''--pids'']) \<and>
   0 < top_n (parse_args [''--top'', ''9999'', ''--interval'', ''-3'', ''--pids''])"
proof -
  have "cfg_pids (parse_args [''--top'', ''9999'', ''--interval'', ''-3'', ''--pids'']) = []"
    by (simp add: parse_args_def Let_def set_top_def set_interval_def default_config_def)
  with parse_args_safe [of "[''--top'', ''9999'', ''--interval'', ''-3'', ''--pids'']"] show ?thesis by blast
qed

text \<open>
  C28. A comma-separated list of pids is read back as those pids in order, for any list of up
  to 256 valid pids.
\<close>

theorem pid_list_round_trip:
  assumes "\<forall>p \<in> set ps. 0 < p \<and> int p \<le> LINUX_PID_MAX" and "length ps \<le> MAX_PIDS"
  shows "cfg_pids (parse_args [''--pids'', join_pids ps]) = map int ps"
  using parse_pids_join [of ps default_config] assms
  by (simp add: parse_args_def Let_def default_config_def)

theorem pid_list_round_trip_witness: "cfg_pids (parse_args [''--pids'', ''1234,56'']) = [1234, 56]"
proof -
  have "join_pids [1234, 56] = ''1234,56''" by code_simp
  with pid_list_round_trip [of "[1234, 56]"] show ?thesis by simp
qed

end
