(* ===== verification/Binary64.thy ===== *)
theory Binary64
  imports Prelude
begin

text \<open>
  The C type \<open>double\<close>. A double is represented by its exact real value; every
  arithmetic operation of the code is the exact operation followed by \<open>rnd64\<close>, IEEE-754
  round-to-nearest, ties-to-even, with a 53-bit significand and the exponent bounded
  below by -1074 (so subnormals are covered). The daemon's values stay far below the
  overflow threshold (counters are at most \<open>2 ^ 64\<close> and are divided by guarded
  denominators), so infinities and NaNs are not represented.

  The theorems give what the metrics rely on: rounding is monotone, odd, exact on
  representable numbers (all integers up to \<open>2 ^ 53\<close> among them) and otherwise off by at
  most half a unit in the last place.
\<close>

subsection \<open>Binary exponent\<close>

function bexp :: "real \<Rightarrow> int" where
  "bexp x = (if x \<le> 0 then 0
             else if x < 1 then bexp (2 * x) - 1
             else if 2 \<le> x then bexp (x / 2) + 1
             else 0)"
  by pat_completeness auto
termination
proof (relation "measure (\<lambda>x. if 1 \<le> x then nat \<lfloor>log 2 x\<rfloor> else nat (\<lceil>- log 2 x\<rceil>))", goal_cases)
  case 1
  show ?case by simp
next
  case (2 x)
  then have x: "0 < x" "x < 1" by auto
  have l: "log 2 (2 * x) = 1 + log 2 x" using x by (simp add: log_mult)
  have n: "log 2 x < 0" using x by simp
  show ?case
  proof (cases "1 \<le> 2 * x")
    case True
    then have "0 \<le> log 2 (2 * x)" by simp
    then have "\<lfloor>log 2 (2 * x)\<rfloor> = 0" unfolding l using n by linarith
    moreover have "0 < \<lceil>- log 2 x\<rceil>" using n by linarith
    ultimately show ?thesis using True x by simp
  next
    case False
    have "\<lceil>- log 2 (2 * x)\<rceil> < \<lceil>- log 2 x\<rceil>" using l by linarith
    moreover have "0 < \<lceil>- log 2 x\<rceil>" using n by linarith
    ultimately show ?thesis using False x by simp
  qed
next
  case (3 x)
  then have x: "2 \<le> x" by auto
  have l: "log 2 (x / 2) = log 2 x - 1" using x by (simp add: log_divide)
  have "1 \<le> log 2 x" using x by simp
  then show ?case using x l by simp
qed

declare bexp.simps [simp del]

lemma bexp_bounds: "0 < x \<Longrightarrow> 2 powi (bexp x) \<le> x \<and> x < 2 powi (bexp x + 1)"
proof (induction x rule: bexp.induct)
  case (1 x)
  consider "x < 1" | "2 \<le> x" | "1 \<le> x" "x < 2" by linarith
  then show ?case
  proof cases
    case a: 1
    with "1.IH"(1) "1.prems" have "2 powi bexp (2 * x) \<le> 2 * x \<and> 2 * x < 2 powi (bexp (2 * x) + 1)"
      by simp
    then show ?thesis using a "1.prems"
      by (simp add: bexp.simps [of x] power_int_diff power_int_add field_simps)
  next
    case a: 2
    with "1.IH"(2) "1.prems" have "2 powi bexp (x / 2) \<le> x / 2 \<and> x / 2 < 2 powi (bexp (x / 2) + 1)"
      by simp
    then show ?thesis using a "1.prems"
      by (simp add: bexp.simps [of x] power_int_add field_simps)
  next
    case 3
    then show ?thesis by (simp add: bexp.simps [of x])
  qed
qed

lemma powi_le_cancel: "(2::real) powi a \<le> 2 powi b \<longleftrightarrow> a \<le> b"
  by (meson linorder_not_less one_less_numeral_iff power_int_increasing power_int_strict_increasing
      semiring_norm(76) less_imp_le)

lemma powi_less_cancel: "(2::real) powi a < 2 powi b \<longleftrightarrow> a < b"
  using powi_le_cancel [of b a] by linarith

lemma bexp_unique:
  assumes "2 powi e \<le> x" "x < 2 powi (e + 1)"
  shows "bexp x = e"
proof -
  have "0 < (2::real) powi e" by simp
  with assms(1) have x: "0 < x" by linarith
  from bexp_bounds [OF x] assms have "(2::real) powi e < 2 powi (bexp x + 1)"
    "(2::real) powi bexp x < 2 powi (e + 1)" by linarith+
  then show ?thesis by (simp add: powi_less_cancel)
qed

lemma bexp_mono: "0 < x \<Longrightarrow> x \<le> y \<Longrightarrow> bexp x \<le> bexp y"
proof -
  assume a: "0 < x" "x \<le> y"
  from a bexp_bounds [of x] bexp_bounds [of y] have "(2::real) powi bexp x < 2 powi (bexp y + 1)"
    by linarith
  then show ?thesis by (simp add: powi_less_cancel)
qed

subsection \<open>Rounding to the nearest integer, ties to even\<close>

definition rne :: "real \<Rightarrow> int" where
  "rne y = (let f = \<lfloor>y\<rfloor>; d = y - of_int f in
            if d < 1/2 then f else if 1/2 < d then f + 1 else if even f then f else f + 1)"

lemma rne_of_int [simp]: "rne (of_int n) = n"
  by (simp add: rne_def)

lemma rne_error: "\<bar>of_int (rne y) - y\<bar> \<le> 1/2"
proof -
  have "of_int \<lfloor>y\<rfloor> \<le> y" "y < of_int \<lfloor>y\<rfloor> + 1" by linarith+
  then show ?thesis by (auto simp: rne_def Let_def)
qed

lemma rne_mono: assumes "x \<le> y" shows "rne x \<le> rne y"
proof (cases "\<lfloor>x\<rfloor> = \<lfloor>y\<rfloor>")
  case True
  with assms show ?thesis by (auto simp: rne_def Let_def)
next
  case False
  with floor_mono [OF assms] have "\<lfloor>x\<rfloor> + 1 \<le> \<lfloor>y\<rfloor>" by linarith
  moreover have "rne x \<le> \<lfloor>x\<rfloor> + 1" "\<lfloor>y\<rfloor> \<le> rne y" by (auto simp: rne_def Let_def)
  ultimately show ?thesis by linarith
qed

lemma rne_minus: "rne (- y) = - rne y"
proof (cases "y = of_int \<lfloor>y\<rfloor>")
  case True
  then show ?thesis by (metis of_int_minus rne_of_int)
next
  case False
  define f where "f = \<lfloor>y\<rfloor>"
  have b: "of_int f < y" "y < of_int f + 1" using False unfolding f_def by linarith+
  have n: "\<lfloor>- y\<rfloor> = - f - 1" using b by (simp add: floor_eq_iff)
  have "\<lfloor>y\<rfloor> = f" by (simp add: f_def)
  then show ?thesis using b n by (auto simp: rne_def Let_def)
qed

lemma rne_le_int: "y \<le> of_int n \<Longrightarrow> rne y \<le> n"
  using rne_mono [of y "of_int n"] by simp

lemma rne_ge_int: "of_int n \<le> y \<Longrightarrow> n \<le> rne y"
  using rne_mono [of "of_int n" y] by simp

subsection \<open>Rounding to double precision\<close>

definition uexp :: "real \<Rightarrow> int" where
  "uexp x = max (bexp \<bar>x\<bar> - 52) (-1074)"

definition ulp :: "real \<Rightarrow> real" where
  "ulp x = 2 powi (uexp x)"

definition rnd64 :: "real \<Rightarrow> real" where
  "rnd64 x = of_int (rne (x / ulp x)) * ulp x"

definition is_dbl :: "real \<Rightarrow> bool" where
  "is_dbl x \<longleftrightarrow> (\<exists>m e. \<bar>m\<bar> \<le> 2 ^ 53 \<and> -1074 \<le> e \<and> x = of_int m * 2 powi e)"

lemma ulp_pos [simp]: "0 < ulp x"
  by (simp add: ulp_def)

lemma ulp_nz [simp]: "ulp x \<noteq> 0"
  using ulp_pos [of x] by linarith

lemma ulp_minus [simp]: "ulp (- x) = ulp x"
  by (simp add: ulp_def uexp_def)

lemma rnd64_0 [simp]: "rnd64 0 = 0"
  by (simp add: rnd64_def rne_def)

lemma rnd64_minus [simp]: "rnd64 (- x) = - rnd64 x"
  by (simp add: rnd64_def rne_minus)

lemma rnd64_nonneg: "0 \<le> x \<Longrightarrow> 0 \<le> rnd64 x"
  using rne_ge_int [of 0 "x / ulp x"] ulp_pos [of x] by (simp add: rnd64_def less_imp_le)

lemma powi_split: "u \<le> e \<Longrightarrow> (2::real) powi e = of_int (2 ^ nat (e - u)) * 2 powi u"
proof -
  assume "u \<le> e"
  then have "(2::real) powi e = 2 powi (int (nat (e - u)) + u)" by simp
  also have "\<dots> = 2 ^ nat (e - u) * 2 powi u"
    by (subst power_int_add) (simp_all only: power_int_of_nat, simp)
  finally show ?thesis by simp
qed

lemma rnd64_multiple: "x = of_int n * ulp x \<Longrightarrow> rnd64 x = x"
proof -
  assume a: "x = of_int n * ulp x"
  have "ulp x \<noteq> 0" using ulp_pos [of x] by linarith
  then have "x / ulp x = of_int n" using a by (metis nonzero_mult_div_cancel_right)
  then show ?thesis using a by (simp add: rnd64_def)
qed

lemma rnd64_is_dbl: assumes "is_dbl x" shows "rnd64 x = x"
proof (cases "x = 0")
  case False
  from assms obtain m e where m: "\<bar>m\<bar> \<le> 2 ^ 53" and e: "-1074 \<le> e" and x: "x = of_int m * 2 powi e"
    by (auto simp: is_dbl_def)
  define u where "u = uexp x"
  show ?thesis
  proof (cases "u \<le> e")
    case True
    have "x = of_int m * (of_int (2 ^ nat (e - u)) * 2 powi u)"
      using powi_split [OF True] x by simp
    then have "x = of_int (m * 2 ^ nat (e - u)) * ulp x"
      unfolding ulp_def u_def [symmetric] by (simp only: of_int_mult mult.assoc)
    then show ?thesis by (rule rnd64_multiple)
  next
    case nle: False
    have u: "u = bexp \<bar>x\<bar> - 52" using nle e by (simp add: u_def uexp_def)
    have ax: "\<bar>x\<bar> = of_int \<bar>m\<bar> * 2 powi e" by (simp add: x abs_mult)
    have lo: "2 powi (bexp \<bar>x\<bar>) \<le> \<bar>x\<bar>" using bexp_bounds [of "\<bar>x\<bar>"] False by simp
    have "(2::real) powi (e + 53) \<le> 2 powi (bexp \<bar>x\<bar>)" using nle u by (simp add: powi_le_cancel)
    with lo have "2 powi (e + 53) \<le> \<bar>x\<bar>" by linarith
    moreover have "(2::real) powi (e + 53) = 2 ^ 53 * 2 powi e" by (simp add: power_int_add)
    ultimately have "2 ^ 53 * 2 powi e \<le> of_int \<bar>m\<bar> * (2::real) powi e" using ax by linarith
    then have "(2::real) ^ 53 \<le> of_int \<bar>m\<bar>"
      by (rule mult_right_le_imp_le) simp
    then have "(2::int) ^ 53 \<le> \<bar>m\<bar>" by (metis of_int_le_iff of_int_numeral of_int_power)
    with m have am: "\<bar>m\<bar> = 2 ^ 53" by simp
    then have axp: "\<bar>x\<bar> = 2 powi (e + 53)" by (simp add: ax power_int_add)
    have "bexp \<bar>x\<bar> = e + 53"
      by (rule bexp_unique) (simp_all add: axp powi_less_cancel)
    then have ue: "u = e + 1" using u by simp
    have "x = of_int (sgn m * 2 ^ 52) * ulp x"
    proof -
      have "of_int m = (of_int (sgn m) * 2 ^ 53 :: real)"
        by (metis am mult_sgn_abs of_int_mult of_int_numeral of_int_power)
      then have "x = of_int (sgn m) * 2 ^ 53 * 2 powi e" by (simp add: x)
      then show ?thesis unfolding ulp_def u_def [symmetric] ue by (simp add: power_int_add)
    qed
    then show ?thesis by (rule rnd64_multiple)
  qed
qed simp

text \<open>Every result of a rounding is a double, so rounding twice changes nothing.\<close>

lemma abs_div_ulp: "\<bar>x / ulp x\<bar> < 2 ^ 53"
proof (cases "x = 0")
  case False
  have "\<bar>x\<bar> < 2 powi (bexp \<bar>x\<bar> + 1)" using bexp_bounds [of "\<bar>x\<bar>"] False by simp
  also have "\<dots> \<le> 2 powi (uexp x + 53)" by (simp add: powi_le_cancel uexp_def)
  also have "\<dots> = 2 ^ 53 * ulp x" by (simp add: ulp_def power_int_add)
  finally show ?thesis using ulp_pos [of x] by (simp add: abs_divide pos_divide_less_eq)
qed simp

lemma is_dbl_rnd64: "is_dbl (rnd64 x)"
proof -
  have "- (2 ^ 53) \<le> x / ulp x" "x / ulp x \<le> 2 ^ 53" using abs_div_ulp [of x] by linarith+
  then have "\<bar>rne (x / ulp x)\<bar> \<le> 2 ^ 53"
    using rne_le_int [of "x / ulp x" "2 ^ 53"] rne_ge_int [of "- (2 ^ 53)" "x / ulp x"] by simp
  moreover have "-1074 \<le> uexp x" by (simp add: uexp_def)
  ultimately show ?thesis unfolding is_dbl_def rnd64_def ulp_def by blast
qed

lemma rnd64_idem [simp]: "rnd64 (rnd64 x) = rnd64 x"
  by (rule rnd64_is_dbl [OF is_dbl_rnd64])

lemma is_dbl_int: "\<bar>n\<bar> \<le> 2 ^ 53 \<Longrightarrow> is_dbl (of_int n)"
  unfolding is_dbl_def by (rule exI [of _ n], rule exI [of _ 0]) simp

lemma rnd64_int: "\<bar>n\<bar> \<le> 2 ^ 53 \<Longrightarrow> rnd64 (of_int n) = of_int n"
  by (rule rnd64_is_dbl [OF is_dbl_int])

lemma rnd64_nat: "n \<le> 2 ^ 53 \<Longrightarrow> rnd64 (of_nat n) = of_nat n"
  using rnd64_int [of "int n"] by simp

lemma rnd64_Ints: "x \<in> \<int> \<Longrightarrow> \<bar>x\<bar> \<le> 2 ^ 53 \<Longrightarrow> rnd64 x = x"
proof -
  assume "x \<in> \<int>" "\<bar>x\<bar> \<le> 2 ^ 53"
  then obtain n where x: "x = of_int n" by (auto elim: Ints_cases)
  with \<open>\<bar>x\<bar> \<le> 2 ^ 53\<close> have "\<bar>n\<bar> \<le> 2 ^ 53"
    by (metis of_int_abs of_int_le_iff of_int_numeral of_int_power)
  then show ?thesis unfolding x by (rule rnd64_int)
qed

lemma rnd64_1 [simp]: "rnd64 1 = 1"
  using rnd64_int [of 1] by simp

lemma rnd64_numeral: "(numeral n :: int) \<le> 2 ^ 53 \<Longrightarrow> rnd64 (numeral n) = numeral n"
  using rnd64_int [of "numeral n"] by simp

lemma is_dbl_powi: "-1074 \<le> e \<Longrightarrow> is_dbl (2 powi e)"
  unfolding is_dbl_def by (rule exI [of _ 1], rule exI [of _ e]) simp

subsection \<open>Monotonicity\<close>

lemma rnd64_same_ulp: "ulp x = ulp y \<Longrightarrow> x \<le> y \<Longrightarrow> rnd64 x \<le> rnd64 y"
  using rne_mono [of "x / ulp y" "y / ulp y"] ulp_pos [of y]
  by (simp add: rnd64_def divide_right_mono less_imp_le)

lemma rnd64_mono_pos: assumes "0 < x" "x \<le> y" shows "rnd64 x \<le> rnd64 y"
proof (cases "uexp x = uexp y")
  case True
  then show ?thesis using assms(2) by (intro rnd64_same_ulp) (simp add: ulp_def)
next
  case False
  have xy: "bexp x \<le> bexp y" by (rule bexp_mono [OF assms])
  have lt: "uexp x < uexp y" and uy: "uexp y = bexp y - 52" and b: "bexp x < bexp y"
    using False xy assms by (auto simp: uexp_def)
  let ?p = "(2::real) powi (bexp y)"
  have "x < 2 powi (bexp x + 1)" using bexp_bounds [OF assms(1)] by simp
  also have "\<dots> \<le> ?p" using b by (simp add: powi_le_cancel)
  finally have xp: "x \<le> ?p" by simp
  have yp: "?p \<le> y" using bexp_bounds [of y] assms by simp
  have le: "uexp x \<le> bexp y" "uexp y \<le> bexp y" using lt uy by simp_all
  have px: "?p = of_int (2 ^ nat (bexp y - uexp x)) * ulp x"
    using powi_split [OF le(1)] by (simp add: ulp_def)
  have py: "?p = of_int (2 ^ nat (bexp y - uexp y)) * ulp y"
    using powi_split [OF le(2)] by (simp add: ulp_def)
  have "x / ulp x \<le> of_int (2 ^ nat (bexp y - uexp x))"
    using xp px ulp_pos [of x] by (simp add: pos_divide_le_eq)
  then have "rnd64 x \<le> ?p" unfolding rnd64_def px
    using rne_le_int ulp_pos [of x] by (intro mult_right_mono) (metis of_int_le_iff, simp add: less_imp_le)
  also have "of_int (2 ^ nat (bexp y - uexp y)) \<le> y / ulp y"
    using yp py ulp_pos [of y] by (simp add: pos_le_divide_eq)
  then have "?p \<le> rnd64 y" unfolding rnd64_def py
    using rne_ge_int ulp_pos [of y] by (intro mult_right_mono) (metis of_int_le_iff, simp add: less_imp_le)
  finally show ?thesis .
qed

lemma rnd64_mono: assumes "x \<le> y" shows "rnd64 x \<le> rnd64 y"
proof -
  consider "0 < x" | "x \<le> 0" "0 \<le> y" | "y < 0" by linarith
  then show ?thesis
  proof cases
    case 1
    then show ?thesis using assms by (rule rnd64_mono_pos)
  next
    case 2
    have "0 \<le> rnd64 (- x)" "0 \<le> rnd64 y" using 2 by (simp_all only: rnd64_nonneg neg_0_le_iff_le)
    then show ?thesis by simp
  next
    case 3
    then show ?thesis using rnd64_mono_pos [of "- y" "- x"] assms by simp
  qed
qed

lemma rnd64_le: "is_dbl b \<Longrightarrow> x \<le> b \<Longrightarrow> rnd64 x \<le> b"
  using rnd64_mono [of x b] by (simp add: rnd64_is_dbl)

lemma rnd64_ge: "is_dbl b \<Longrightarrow> b \<le> x \<Longrightarrow> b \<le> rnd64 x"
  using rnd64_mono [of b x] by (simp add: rnd64_is_dbl)

text \<open>A positive value not below the least subnormal stays positive.\<close>

lemma rnd64_pos: "2 powi (-1074) \<le> x \<Longrightarrow> 0 < rnd64 x"
  using rnd64_ge [OF is_dbl_powi, of "-1074" x] zero_less_power_int [of "2::real" "-1074"] by linarith

subsection \<open>Error of one rounding\<close>

definition rnd_err :: "real \<Rightarrow> real" where
  "rnd_err b = b / 2 ^ 53 + 2 powi (-1075)"

lemma rnd64_error_ulp: "\<bar>rnd64 x - x\<bar> \<le> ulp x / 2"
proof -
  have "\<bar>of_int (rne (x / ulp x)) - x / ulp x\<bar> * ulp x \<le> 1/2 * ulp x"
    by (rule mult_right_mono [OF rne_error]) (simp add: less_imp_le)
  also have "\<bar>of_int (rne (x / ulp x)) - x / ulp x\<bar> * ulp x
      = \<bar>(of_int (rne (x / ulp x)) - x / ulp x) * ulp x\<bar>"
    by (simp only: abs_mult abs_of_pos [OF ulp_pos])
  also have "(of_int (rne (x / ulp x)) - x / ulp x) * ulp x = rnd64 x - x"
    by (simp add: rnd64_def left_diff_distrib)
  finally show ?thesis by simp
qed

lemma rnd_err_nonneg: "0 \<le> b \<Longrightarrow> 0 \<le> rnd_err b"
  by (simp add: rnd_err_def less_imp_le)

lemma rnd64_error: assumes "\<bar>x\<bar> \<le> b" shows "\<bar>rnd64 x - x\<bar> \<le> rnd_err b"
proof (cases "x = 0")
  case True
  then show ?thesis using assms rnd_err_nonneg by simp
next
  case nz: False
  have p: "(2::real) powi (-1075) = 2 powi (-1074) / 2"
    using power_int_add [of "2::real" "-1074" "-1"] by (simp add: power_int_minus)
  have "ulp x / 2 \<le> rnd_err b"
  proof (cases "bexp \<bar>x\<bar> - 52 \<le> -1074")
    case True
    have "ulp x / 2 = 2 powi (-1075)" using True unfolding p ulp_def uexp_def by (simp only: max_absorb2)
    then show ?thesis using assms by (simp add: rnd_err_def)
  next
    case False
    then have "ulp x = 2 powi (bexp \<bar>x\<bar> - 52)" by (simp add: ulp_def uexp_def)
    also have "\<dots> = 2 powi (bexp \<bar>x\<bar>) / 2 ^ 52" by (simp add: power_int_diff)
    finally have u: "ulp x / 2 = 2 powi (bexp \<bar>x\<bar>) / 2 ^ 53" by simp
    have "2 powi (bexp \<bar>x\<bar>) \<le> \<bar>x\<bar>" using nz bexp_bounds [of "\<bar>x\<bar>"] by simp
    with assms have "2 powi (bexp \<bar>x\<bar>) / 2 ^ 53 \<le> b / 2 ^ 53"
      by (intro divide_right_mono) simp_all
    moreover have "(0::real) \<le> 2 powi (-1075)" by (rule less_imp_le) simp
    ultimately show ?thesis unfolding u rnd_err_def by linarith
  qed
  with rnd64_error_ulp [of x] show ?thesis by linarith
qed

text \<open>A constant of slack: 220 roundings of values below \<open>12 * M\<close> cost less than \<open>M / 2 ^ 41\<close>.\<close>

lemma rnd_err_small: "1 \<le> M \<Longrightarrow> 220 * rnd_err (12 * M) \<le> M / 2 ^ 41"
proof -
  assume M: "1 \<le> M"
  have "(2::real) powi (-1075) \<le> 2 powi (-100)" by (simp only: powi_le_cancel)
  also have "(2::real) powi (-100) = 1 / 2 ^ 100" by (simp add: power_int_minus_divide)
  finally have "(2::real) powi (-1075) \<le> 1 / 2 ^ 100" .
  then show ?thesis using M unfolding rnd_err_def by simp
qed

subsection \<open>The operations of the C code\<close>

definition dadd :: "real \<Rightarrow> real \<Rightarrow> real" where "dadd x y = rnd64 (x + y)"
definition dsub :: "real \<Rightarrow> real \<Rightarrow> real" where "dsub x y = rnd64 (x - y)"
definition dmul :: "real \<Rightarrow> real \<Rightarrow> real" where "dmul x y = rnd64 (x * y)"
definition ddiv :: "real \<Rightarrow> real \<Rightarrow> real" where "ddiv x y = rnd64 (x / y)"

text \<open>\<open>(double)n\<close> for a C integer, and a floating literal.\<close>

definition dbl_of_u64 :: "u64 \<Rightarrow> real" where "dbl_of_u64 w = rnd64 (of_nat (unat w))"
definition dbl_of_int :: "int \<Rightarrow> real" where "dbl_of_int n = rnd64 (of_int n)"

lemma dbl_of_u64_nonneg: "0 \<le> dbl_of_u64 w"
  unfolding dbl_of_u64_def by (rule rnd64_nonneg) (rule of_nat_0_le_iff)

lemma dbl_of_u64_pos: "0 < w \<Longrightarrow> 1 \<le> dbl_of_u64 w"
proof -
  assume "0 < w"
  then have "1 \<le> unat w" by (simp add: unat_gt_0 Suc_leI word_neq_0_conv)
  then have "rnd64 1 \<le> rnd64 (of_nat (unat w))" by (intro rnd64_mono) (metis of_nat_1 of_nat_mono)
  then show ?thesis unfolding dbl_of_u64_def by (simp only: rnd64_1)
qed

lemma dbl_of_u64_0 [simp]: "dbl_of_u64 0 = 0"
  by (simp add: dbl_of_u64_def)

lemma dbl_of_u64_exact: "unat w \<le> 2 ^ 53 \<Longrightarrow> dbl_of_u64 w = of_nat (unat w)"
  unfolding dbl_of_u64_def by (rule rnd64_nat)

lemma dbl_of_u64_mono: "v \<le> w \<Longrightarrow> dbl_of_u64 v \<le> dbl_of_u64 w"
  unfolding dbl_of_u64_def by (rule rnd64_mono) (simp only: of_nat_le_iff word_le_nat_alt)

lemma ddiv_nonneg: "0 \<le> x \<Longrightarrow> 0 \<le> y \<Longrightarrow> 0 \<le> ddiv x y"
  by (simp add: ddiv_def rnd64_nonneg)

end
