(* ===== verification/Sliding_Window.thy ===== *)
theory Sliding_Window
  imports Binary64
begin

text \<open>
  The N = 10 sample window of \<^verbatim>\<open>src/sliding_window.c\<close>: a circular buffer with a running
  sum that is patched on every push and recomputed exactly every 100 pushes.

  The interface \<open>bounded_window\<close> states what a client may rely on (the view is the list
  of the last \<open>cap\<close> samples, oldest first); the circular buffer is shown to provide it.
  The second half bounds the floating-point drift of the running sum.
\<close>

subsection \<open>State and operations\<close>

abbreviation SWAG_CAPACITY :: nat where "SWAG_CAPACITY \<equiv> 10"

record SlidingWindow =
  sw_buffer :: "real list"
  sw_head :: nat
  sw_count :: nat
  sw_run_sum :: real
  sw_push_count :: u32

definition sw_init :: SlidingWindow where
  "sw_init = \<lparr>sw_buffer = replicate SWAG_CAPACITY 0, sw_head = 0, sw_count = 0,
              sw_run_sum = 0, sw_push_count = 0\<rparr>"

text \<open>The exact recomputation: \<open>for (j = 0; j < count; j++) exact += buffer[j]\<close>.\<close>

definition sw_exact :: "SlidingWindow \<Rightarrow> real" where
  "sw_exact sw = foldl dadd 0 (take (sw_count sw) (sw_buffer sw))"

definition sw_push :: "SlidingWindow \<Rightarrow> real \<Rightarrow> SlidingWindow" where
  "sw_push sw sample =
    (let s1 = (if sw_count sw = SWAG_CAPACITY
               then sw\<lparr>sw_run_sum := dsub (sw_run_sum sw) (sw_buffer sw ! sw_head sw)\<rparr>
               else sw\<lparr>sw_count := sw_count sw + 1\<rparr>);
         s2 = s1\<lparr>sw_buffer := (sw_buffer s1)[sw_head s1 := sample],
                 sw_run_sum := dadd (sw_run_sum s1) sample,
                 sw_head := (sw_head s1 + 1) mod SWAG_CAPACITY,
                 sw_push_count := sw_push_count s1 + 1\<rparr>
     in if of_nat (SWAG_CAPACITY * SWAG_CAPACITY) \<le> sw_push_count s2
        then s2\<lparr>sw_push_count := 0, sw_run_sum := sw_exact s2\<rparr>
        else s2)"

definition sw_mean :: "SlidingWindow \<Rightarrow> real" where
  "sw_mean sw = (if sw_count sw = 0 then 0
                 else ddiv (sw_run_sum sw) (dbl_of_int (int (sw_count sw))))"

subsection \<open>Invariant and view\<close>

definition sw_ok :: "SlidingWindow \<Rightarrow> bool" where
  "sw_ok sw \<longleftrightarrow> length (sw_buffer sw) = SWAG_CAPACITY \<and> sw_head sw < SWAG_CAPACITY \<and>
     sw_count sw \<le> SWAG_CAPACITY \<and> (sw_count sw < SWAG_CAPACITY \<longrightarrow> sw_head sw = sw_count sw) \<and>
     unat (sw_push_count sw) < 100"

text \<open>The samples in the window, oldest first.\<close>

definition sw_window :: "SlidingWindow \<Rightarrow> real list" where
  "sw_window sw = (if sw_count sw < SWAG_CAPACITY then take (sw_count sw) (sw_buffer sw)
                   else drop (sw_head sw) (sw_buffer sw) @ take (sw_head sw) (sw_buffer sw))"

locale bounded_window =
  fixes push :: "'w \<Rightarrow> 'a \<Rightarrow> 'w" and view :: "'w \<Rightarrow> 'a list" and ok :: "'w \<Rightarrow> bool"
    and cap :: nat
  assumes ok_push: "ok w \<Longrightarrow> ok (push w x)"
    and view_push: "ok w \<Longrightarrow> view (push w x) = last_n cap (view w @ [x])"
    and view_short: "ok w \<Longrightarrow> length (view w) \<le> cap"
begin

lemma ok_pushes: "ok w \<Longrightarrow> ok (foldl push w xs)"
  by (induction xs arbitrary: w) (simp_all add: ok_push)

lemma view_pushes: "ok w \<Longrightarrow> view (foldl push w xs) = last_n cap (view w @ xs)"
proof (induction xs arbitrary: w)
  case Nil
  then show ?case by (simp add: last_n_short view_short)
next
  case (Cons x xs)
  then have "view (foldl push w (x # xs)) = last_n cap (last_n cap (view w @ [x]) @ xs)"
    by (simp add: ok_push view_push)
  then show ?case by (simp add: last_n_append_last_n)
qed

text \<open>Once \<open>cap\<close> samples have been pushed nothing of the earlier contents is left.\<close>

lemma view_forgets:
  assumes "ok w" "ok w'" "cap \<le> length xs"
  shows "view (foldl push w xs) = view (foldl push w' xs)"
  using assms by (simp add: view_pushes last_n_def)

end

lemma sw_ok_init [keeps]: "sw_ok sw_init"
  by (simp add: sw_ok_def sw_init_def)

lemma sw_window_init [views]: "sw_window sw_init = []"
  by (simp add: sw_window_def sw_init_def)

lemmas sw_push_unfold = sw_push_def Let_def

lemma sw_push_fields:
  "sw_buffer (sw_push sw x) = (sw_buffer sw)[sw_head sw := x]"
  "sw_head (sw_push sw x) = (sw_head sw + 1) mod SWAG_CAPACITY"
  "sw_count (sw_push sw x) = (if sw_count sw = SWAG_CAPACITY then sw_count sw else sw_count sw + 1)"
  by (simp_all add: sw_push_unfold)

lemma sw_push_count_step:
  assumes "unat (sw_push_count sw) < 100"
  shows "unat (sw_push_count (sw_push sw x)) =
    (if unat (sw_push_count sw) = 99 then 0 else unat (sw_push_count sw) + 1)"
proof -
  have "unat (sw_push_count sw + 1) = unat (sw_push_count sw) + 1"
    using assms by (simp add: unat_word_ariths)
  then show ?thesis using assms by (auto simp: sw_push_unfold word_le_nat_alt)
qed

lemma sw_ok_push [keeps]: "sw_ok sw \<Longrightarrow> sw_ok (sw_push sw x)"
  by (auto simp: sw_ok_def sw_push_fields sw_push_count_step)

lemma sw_window_length: "sw_ok sw \<Longrightarrow> length (sw_window sw) = sw_count sw"
  by (auto simp: sw_ok_def sw_window_def)

lemma sw_window_push_filling:
  assumes "sw_ok sw" "sw_count sw < SWAG_CAPACITY"
  shows "sw_window (sw_push sw x) = sw_window sw @ [x]"
proof -
  let ?c = "sw_count sw"
  have h: "sw_head sw = ?c" and l: "length (sw_buffer sw) = 10" and c: "?c < 10"
    using assms by (auto simp: sw_ok_def)
  have t: "take (Suc ?c) ((sw_buffer sw)[?c := x]) = take ?c (sw_buffer sw) @ [x]"
    using l c by (intro take_Suc_update) simp
  show ?thesis
  proof (cases "Suc ?c = 10")
    case True
    then have "(sw_buffer sw)[?c := x] = take (Suc ?c) ((sw_buffer sw)[?c := x])" using l by simp
    with t True c show ?thesis by (simp add: sw_window_def sw_push_fields h)
  next
    case False
    with t c show ?thesis by (simp add: sw_window_def sw_push_fields h)
  qed
qed

lemma sw_window_push_full:
  assumes "sw_ok sw" "sw_count sw = SWAG_CAPACITY"
  shows "sw_window sw \<noteq> []" and "hd (sw_window sw) = sw_buffer sw ! sw_head sw"
    and "sw_window (sw_push sw x) = tl (sw_window sw) @ [x]"
proof -
  let ?h = "sw_head sw" and ?b = "sw_buffer sw"
  have h: "?h < 10" and l: "length ?b = 10" using assms by (auto simp: sw_ok_def)
  have d: "drop ?h ?b = ?b ! ?h # drop (Suc ?h) ?b" using h l by (simp add: Cons_nth_drop_Suc)
  have w: "sw_window sw = ?b ! ?h # drop (Suc ?h) ?b @ take ?h ?b"
    using assms(2) by (simp add: sw_window_def d)
  then show "sw_window sw \<noteq> []" "hd (sw_window sw) = ?b ! ?h" by simp_all
  have t: "take (Suc ?h) (?b[?h := x]) = take ?h ?b @ [x]" using h l by (intro take_Suc_update) simp
  have "sw_window (sw_push sw x) = drop (Suc ?h) ?b @ take ?h ?b @ [x]"
  proof (cases "Suc ?h = 10")
    case True
    then have "?b[?h := x] = take (Suc ?h) (?b[?h := x])" using l by simp
    with t True l show ?thesis using assms(2) by (simp add: sw_window_def sw_push_fields)
  next
    case False
    with t h l show ?thesis using assms(2) by (simp add: sw_window_def sw_push_fields)
  qed
  with w show "sw_window (sw_push sw x) = tl (sw_window sw) @ [x]" by simp
qed

interpretation swin: bounded_window sw_push sw_window sw_ok SWAG_CAPACITY
proof unfold_locales
  fix w x assume ok: "sw_ok w"
  show "sw_ok (sw_push w x)" using ok by (rule sw_ok_push)
  show "length (sw_window w) \<le> SWAG_CAPACITY"
    using ok by (simp add: sw_window_length sw_ok_def)
  show "sw_window (sw_push w x) = last_n SWAG_CAPACITY (sw_window w @ [x])"
  proof (cases "sw_count w = SWAG_CAPACITY")
    case True
    then show ?thesis using ok
      by (simp add: sw_window_push_full last_n_snoc_full sw_window_length)
  next
    case False
    then have "sw_count w < SWAG_CAPACITY" using ok by (simp add: sw_ok_def)
    then show ?thesis using ok
      by (simp add: sw_window_push_filling last_n_short sw_window_length)
  qed
qed

subsection \<open>The running sum and its drift\<close>

definition sw_drift :: "SlidingWindow \<Rightarrow> real" where
  "sw_drift sw = \<bar>sw_run_sum sw - sum_list (sw_window sw)\<bar>"

lemma sw_run_sum_push:
  assumes "unat (sw_push_count sw) < 100"
  shows "sw_run_sum (sw_push sw x) =
    (if unat (sw_push_count sw) = 99
     then foldl dadd 0 (take (sw_count (sw_push sw x)) (sw_buffer (sw_push sw x)))
     else dadd (if sw_count sw = SWAG_CAPACITY then dsub (sw_run_sum sw) (sw_buffer sw ! sw_head sw)
                else sw_run_sum sw) x)"
proof -
  have "unat (sw_push_count sw + 1) = unat (sw_push_count sw) + 1"
    using assms by (simp add: unat_word_ariths)
  then show ?thesis using assms by (simp add: sw_push_unfold sw_exact_def word_le_nat_alt)
qed

text \<open>The recomputation adds up the same samples as the window, in buffer order.\<close>

lemma sum_take_window: "sw_ok sw \<Longrightarrow>
  sum_list (take (sw_count sw) (sw_buffer sw)) = sum_list (sw_window sw)"
  using append_take_drop_id [of "sw_head sw" "sw_buffer sw"]
    sum_list_append [of "take (sw_head sw) (sw_buffer sw)" "drop (sw_head sw) (sw_buffer sw)"]
  by (auto simp: sw_ok_def sw_window_def)

lemma set_take_window: "sw_ok sw \<Longrightarrow>
  set (take (sw_count sw) (sw_buffer sw)) = set (sw_window sw)"
  using append_take_drop_id [of "sw_head sw" "sw_buffer sw"]
    set_append [of "take (sw_head sw) (sw_buffer sw)" "drop (sw_head sw) (sw_buffer sw)"]
  by (auto simp: sw_ok_def sw_window_def)

text \<open>The sum the window has after the eviction that precedes a push.\<close>

definition evicted_sum :: "SlidingWindow \<Rightarrow> real" where
  "evicted_sum sw = (if sw_count sw = SWAG_CAPACITY then sum_list (tl (sw_window sw))
                     else sum_list (sw_window sw))"

lemma sum_window_push: "sw_ok sw \<Longrightarrow> sum_list (sw_window (sw_push sw x)) = evicted_sum sw + x"
proof -
  assume ok: "sw_ok sw"
  then consider "sw_count sw = SWAG_CAPACITY" | "sw_count sw < SWAG_CAPACITY"
    by (fastforce simp: sw_ok_def)
  then show ?thesis
    by cases (use ok in \<open>simp_all add: sw_window_push_full sw_window_push_filling evicted_sum_def\<close>)
qed

lemma evicted_sum_full:
  assumes "sw_ok sw" "sw_count sw = SWAG_CAPACITY"
  shows "sum_list (sw_window sw) = sw_buffer sw ! sw_head sw + evicted_sum sw"
    and "sw_buffer sw ! sw_head sw \<in> set (sw_window sw)"
  using sw_window_push_full(1,2) [OF assms] assms(2)
  by (cases "sw_window sw"; simp add: evicted_sum_def)+

lemma set_window_push: "sw_ok sw \<Longrightarrow> set (sw_window (sw_push sw x)) \<subseteq> insert x (set (sw_window sw))"
  using swin.view_push [of sw x] set_last_n [of SWAG_CAPACITY "sw_window sw @ [x]"] by auto

subsubsection \<open>Integer samples: no drift\<close>

definition int_samples :: "real set" where
  "int_samples = {x \<in> \<int>. \<bar>x\<bar> \<le> 2 ^ 49}"

definition sum_exact :: "SlidingWindow \<Rightarrow> bool" where
  "sum_exact sw \<longleftrightarrow> sw_ok sw \<and> set (sw_window sw) \<subseteq> int_samples \<and>
     sw_run_sum sw = sum_list (sw_window sw)"

lemma int_samples_sum:
  "set xs \<subseteq> int_samples \<Longrightarrow> sum_list xs \<in> \<int> \<and> \<bar>sum_list xs\<bar> \<le> of_nat (length xs) * 2 ^ 49"
  by (induction xs) (auto simp: int_samples_def algebra_simps abs_le_iff)

lemma foldl_dadd_ints:
  assumes "set xs \<subseteq> int_samples" "a \<in> \<int>" "\<bar>a\<bar> \<le> of_nat k * 2 ^ 49" "k + length xs \<le> 16"
  shows "foldl dadd a xs = a + sum_list xs"
  using assms
proof (induction xs arbitrary: a k)
  case (Cons x xs)
  have x: "x \<in> \<int>" "\<bar>x\<bar> \<le> 2 ^ 49" using Cons.prems(1) by (auto simp: int_samples_def)
  have ax: "\<bar>a + x\<bar> \<le> of_nat (Suc k) * 2 ^ 49"
    using x(2) Cons.prems(3) by (simp add: algebra_simps)
  also have "\<dots> \<le> 2 ^ 53" using Cons.prems(4) by (simp add: of_nat_diff algebra_simps)
  finally have "dadd a x = a + x"
    unfolding dadd_def using x(1) Cons.prems(2) by (intro rnd64_Ints) simp_all
  moreover have "foldl dadd (a + x) xs = a + x + sum_list xs"
    using Cons.prems x(1) ax by (intro Cons.IH [of _ "Suc k"]) simp_all
  ultimately show ?case by simp
qed simp

lemma sum_exact_push:
  assumes "sum_exact sw" "x \<in> int_samples" shows "sum_exact (sw_push sw x)"
proof -
  let ?s = "sw_push sw x"
  have ok: "sw_ok sw" and r: "sw_run_sum sw = sum_list (sw_window sw)"
    and S: "set (sw_window sw) \<subseteq> int_samples" using assms(1) by (auto simp: sum_exact_def)
  have ok': "sw_ok ?s" and S': "set (sw_window ?s) \<subseteq> int_samples"
    using sw_ok_push [OF ok] set_window_push [OF ok, of x] S assms(2) by auto
  have len: "length (sw_window sw) \<le> 10" using swin.view_short [OF ok] .
  have ev: "set (if sw_count sw = SWAG_CAPACITY then tl (sw_window sw) else sw_window sw) \<subseteq> int_samples"
    using S set_tl_subset [of "sw_window sw"] by auto
  have "evicted_sum sw \<in> \<int> \<and> \<bar>evicted_sum sw\<bar> \<le> 10 * 2 ^ 49"
    using int_samples_sum [OF ev] len by (auto simp: evicted_sum_def split: if_splits)
  moreover have "x \<in> \<int> \<and> \<bar>x\<bar> \<le> 2 ^ 49" using assms(2) by (simp add: int_samples_def)
  ultimately have e: "rnd64 (evicted_sum sw) = evicted_sum sw"
    "rnd64 (evicted_sum sw + x) = evicted_sum sw + x"
    by (intro rnd64_Ints; simp; linarith)+
  have "foldl dadd 0 (take (sw_count ?s) (sw_buffer ?s)) = sum_list (sw_window ?s)"
    using foldl_dadd_ints [of "take (sw_count ?s) (sw_buffer ?s)" 0 0] ok' S'
    by (simp add: set_take_window sum_take_window sw_ok_def [of ?s])
  moreover have "(if sw_count sw = SWAG_CAPACITY then dsub (sw_run_sum sw) (sw_buffer sw ! sw_head sw)
      else sw_run_sum sw) = evicted_sum sw"
    using evicted_sum_full(1) [OF ok] e(1) by (auto simp: r dsub_def) (simp add: evicted_sum_def)
  ultimately have "sw_run_sum ?s = sum_list (sw_window ?s)"
    using ok by (simp add: sw_run_sum_push sw_ok_def [of sw] sum_window_push dadd_def e)
  with ok' S' show ?thesis by (simp add: sum_exact_def)
qed

lemma sum_exact_pushes: "sum_exact sw \<Longrightarrow> set xs \<subseteq> int_samples \<Longrightarrow> sum_exact (foldl sw_push sw xs)"
  by (induction xs arbitrary: sw) (simp_all add: sum_exact_push)

lemma sum_exact_init: "sum_exact sw_init"
  by (simp add: sum_exact_def sw_ok_init sw_window_init) (simp add: sw_init_def)

subsubsection \<open>Samples in a range: bounded drift\<close>

text \<open>
  For samples in \<open>[0, M]\<close> every rounding of a push costs at most \<open>rnd_err (12 * M)\<close>. The error
  grows by two roundings per push and is reset to at most ten roundings by the
  recomputation, so it never exceeds 220 of them.
\<close>

definition drift_inv :: "real \<Rightarrow> SlidingWindow \<Rightarrow> bool" where
  "drift_inv M sw \<longleftrightarrow> sw_ok sw \<and> (\<forall>x \<in> set (sw_window sw). 0 \<le> x \<and> x \<le> M) \<and>
     sw_drift sw \<le> of_nat (2 * unat (sw_push_count sw) + 20) * rnd_err (12 * M)"

lemma budget:
  assumes "1 \<le> M" "k \<le> 220" shows "of_nat k * rnd_err (12 * M) \<le> M"
proof -
  have "of_nat k * rnd_err (12 * M) \<le> 220 * rnd_err (12 * M)"
    using assms by (intro mult_right_mono rnd_err_nonneg) simp_all
  also have "\<dots> \<le> M / 2 ^ 41" using assms(1) by (rule rnd_err_small)
  also have "\<dots> \<le> M" using assms(1) by simp
  finally show ?thesis .
qed

lemma foldl_dadd_error:
  assumes "1 \<le> M" "\<forall>x \<in> set xs. 0 \<le> x \<and> x \<le> M" "0 \<le> p" "p \<le> of_nat k * M"
    "\<bar>a - p\<bar> \<le> of_nat k * rnd_err (12 * M)" "k + length xs \<le> 10"
  shows "\<bar>foldl dadd a xs - (p + sum_list xs)\<bar> \<le> of_nat (k + length xs) * rnd_err (12 * M)"
  using assms
proof (induction xs arbitrary: a p k)
  case (Cons x xs)
  let ?e = "rnd_err (12 * M)"
  have x: "0 \<le> x" "x \<le> M" using Cons.prems(2) by auto
  have "of_nat k * ?e \<le> M" using Cons.prems(1,6) by (intro budget) simp_all
  moreover have "of_nat k * M \<le> 9 * M" using Cons.prems(1,6) by (intro mult_right_mono) simp_all
  ultimately have "\<bar>a + x\<bar> \<le> 12 * M" using Cons.prems(3-5) x by linarith
  then have "\<bar>dadd a x - (a + x)\<bar> \<le> ?e" unfolding dadd_def by (rule rnd64_error)
  then have "\<bar>dadd a x - (p + x)\<bar> \<le> of_nat (Suc k) * ?e"
    using Cons.prems(5) by (simp add: algebra_simps)
  moreover have "p + x \<le> of_nat (Suc k) * M" using Cons.prems(4) x by (simp add: algebra_simps)
  ultimately have "\<bar>foldl dadd (dadd a x) xs - (p + x + sum_list xs)\<bar> \<le> of_nat (Suc k + length xs) * ?e"
    using Cons.prems x by (intro Cons.IH) simp_all
  then show ?case by (simp add: add.assoc)
qed simp

lemma evicted_sum_range:
  assumes "sw_ok sw" "1 \<le> M" "\<forall>x \<in> set (sw_window sw). 0 \<le> x \<and> x \<le> M"
  shows "0 \<le> evicted_sum sw" and "evicted_sum sw \<le> 10 * M"
proof -
  let ?l = "if sw_count sw = SWAG_CAPACITY then tl (sw_window sw) else sw_window sw"
  have "\<forall>x \<in> set ?l. 0 \<le> x \<and> x \<le> M" using assms(3) set_tl_subset [of "sw_window sw"] by auto
  then have s: "0 \<le> sum_list ?l \<and> sum_list ?l \<le> of_nat (length ?l) * M" by (rule sum_list_bound)
  have "length ?l \<le> 10" using swin.view_short [OF assms(1)] by auto
  then have "of_nat (length ?l) * M \<le> 10 * M" using assms(2) by (intro mult_right_mono) simp_all
  with s show "0 \<le> evicted_sum sw" "evicted_sum sw \<le> 10 * M"
    by (auto simp: evicted_sum_def split: if_splits)
qed

text \<open>The eviction costs at most one rounding.\<close>

lemma eviction_error:
  assumes "drift_inv M sw" "1 \<le> M"
  shows "\<bar>(if sw_count sw = SWAG_CAPACITY then dsub (sw_run_sum sw) (sw_buffer sw ! sw_head sw)
           else sw_run_sum sw) - evicted_sum sw\<bar>
    \<le> of_nat (2 * unat (sw_push_count sw) + 21) * rnd_err (12 * M)" (is "\<bar>?r - _\<bar> \<le> _")
proof -
  let ?e = "rnd_err (12 * M)" and ?k = "2 * unat (sw_push_count sw) + 20"
  have ok: "sw_ok sw" and rng: "\<forall>x \<in> set (sw_window sw). 0 \<le> x \<and> x \<le> M"
    and d: "\<bar>sw_run_sum sw - sum_list (sw_window sw)\<bar> \<le> of_nat ?k * ?e"
    using assms(1) by (auto simp: drift_inv_def sw_drift_def)
  have b: "of_nat ?k * ?e \<le> M" using assms(2) ok by (intro budget) (auto simp: sw_ok_def)
  have e: "0 \<le> ?e" using assms(2) by (intro rnd_err_nonneg) simp
  have k1: "of_nat (2 * unat (sw_push_count sw) + 21) * ?e = of_nat ?k * ?e + ?e"
    by (simp add: algebra_simps)
  show ?thesis
  proof (cases "sw_count sw = SWAG_CAPACITY")
    case True
    let ?old = "sw_buffer sw ! sw_head sw"
    have s: "sum_list (sw_window sw) = ?old + evicted_sum sw" and o: "0 \<le> ?old" "?old \<le> M"
      using evicted_sum_full [OF ok True] rng by auto
    have "\<bar>sw_run_sum sw - ?old\<bar> \<le> 12 * M"
      using d b s evicted_sum_range [OF ok assms(2) rng] assms(2) by linarith
    then have "\<bar>dsub (sw_run_sum sw) ?old - (sw_run_sum sw - ?old)\<bar> \<le> ?e"
      unfolding dsub_def by (rule rnd64_error)
    then have "\<bar>dsub (sw_run_sum sw) ?old - evicted_sum sw\<bar> \<le> of_nat ?k * ?e + ?e"
      using d s by linarith
    with True show ?thesis unfolding k1 by simp
  next
    case False
    then have "\<bar>sw_run_sum sw - evicted_sum sw\<bar> \<le> of_nat ?k * ?e + ?e"
      using d e by (simp only: evicted_sum_def if_False)
    with False show ?thesis unfolding k1 by simp
  qed
qed

lemma drift_inv_push:
  assumes inv: "drift_inv M sw" and M: "1 \<le> M" and x: "0 \<le> x" "x \<le> M"
  shows "drift_inv M (sw_push sw x)"
proof -
  let ?e = "rnd_err (12 * M)" and ?s = "sw_push sw x" and ?pc = "unat (sw_push_count sw)"
  have ok: "sw_ok sw" and pc: "?pc < 100" and rng: "\<forall>x \<in> set (sw_window sw). 0 \<le> x \<and> x \<le> M"
    using inv by (auto simp: drift_inv_def sw_ok_def)
  have ok': "sw_ok ?s" and rng': "\<forall>x \<in> set (sw_window ?s). 0 \<le> x \<and> x \<le> M"
    using sw_ok_push [OF ok] set_window_push [OF ok, of x] rng x by auto
  have "sw_drift ?s \<le> of_nat (2 * unat (sw_push_count ?s) + 20) * ?e"
  proof (cases "?pc = 99")
    case True
    have len: "length (take (sw_count ?s) (sw_buffer ?s)) \<le> 10" using ok' by (simp add: sw_ok_def)
    have "sw_drift ?s \<le> of_nat (length (take (sw_count ?s) (sw_buffer ?s))) * ?e"
      using foldl_dadd_error [of M "take (sw_count ?s) (sw_buffer ?s)" 0 0 0] M rng' len
      by (simp add: sw_drift_def sw_run_sum_push pc True set_take_window ok'
          del: length_take) (simp add: sum_take_window ok')
    also have "\<dots> \<le> of_nat (2 * unat (sw_push_count ?s) + 20) * ?e"
      using len M by (intro mult_right_mono rnd_err_nonneg; linarith)
    finally show ?thesis .
  next
    case False
    define r where "r = (if sw_count sw = SWAG_CAPACITY
      then dsub (sw_run_sum sw) (sw_buffer sw ! sw_head sw) else sw_run_sum sw)"
    have r: "\<bar>r - evicted_sum sw\<bar> \<le> of_nat (2 * ?pc + 21) * ?e"
      unfolding r_def by (rule eviction_error [OF inv M])
    also have "\<dots> \<le> M" using M pc by (intro budget) simp_all
    finally have "\<bar>r + x\<bar> \<le> 12 * M" using evicted_sum_range [OF ok M rng] x M by linarith
    then have "\<bar>dadd r x - (r + x)\<bar> \<le> ?e" unfolding dadd_def by (rule rnd64_error)
    then have "\<bar>dadd r x - (evicted_sum sw + x)\<bar> \<le> of_nat (2 * ?pc + 21) * ?e + ?e"
      using r by linarith
    also have "\<dots> = of_nat (2 * (?pc + 1) + 20) * ?e" by (simp add: algebra_simps)
    finally show ?thesis using False pc ok
      by (simp add: sw_drift_def sw_run_sum_push sum_window_push sw_push_count_step flip: r_def)
  qed
  with ok' rng' show ?thesis by (simp add: drift_inv_def)
qed

lemma drift_inv_pushes:
  "drift_inv M sw \<Longrightarrow> 1 \<le> M \<Longrightarrow> \<forall>x \<in> set xs. 0 \<le> x \<and> x \<le> M \<Longrightarrow> drift_inv M (foldl sw_push sw xs)"
  by (induction xs arbitrary: sw) (simp_all add: drift_inv_push)

lemma drift_inv_init: "1 \<le> M \<Longrightarrow> drift_inv M sw_init"
  by (simp add: drift_inv_def sw_drift_def sw_ok_init sw_window_init rnd_err_nonneg)
    (simp add: sw_init_def rnd_err_nonneg)

subsection \<open>A residue example\<close>

lemma rnd64_one_plus: "rnd64 (1 + 3 / 2 ^ 54) = 1 + 1 / 2 ^ 52"
proof -
  have "bexp (1 + 3 / 2 ^ 54) = 0" by (rule bexp_unique) simp_all
  then have u: "ulp (1 + 3 / 2 ^ 54) = 1 / 2 ^ 52"
    unfolding ulp_def uexp_def by (simp add: power_int_minus_divide)
  have "\<lfloor>(1 + 3 / 2 ^ 54) / (1 / 2 ^ 52) :: real\<rfloor> = 2 ^ 52" by simp
  then have "rne ((1 + 3 / 2 ^ 54) / (1 / 2 ^ 52)) = 2 ^ 52 + 1" by (simp add: rne_def)
  then show ?thesis unfolding rnd64_def u by simp
qed

lemma is_dbl_frac: "\<bar>m\<bar> \<le> 2 ^ 53 \<Longrightarrow> k \<le> 1074 \<Longrightarrow> is_dbl (of_int m / 2 ^ k)"
  unfolding is_dbl_def by (rule exI [of _ m], rule exI [of _ "- int k"]) (simp add: power_int_minus_divide)

lemma residue_adds:
  "dadd 0 1 = 1"
  "dadd 1 (3 / 18014398509481984) = 4503599627370497 / 4503599627370496"
  "dadd (4503599627370497 / 4503599627370496) 0 = 4503599627370497 / 4503599627370496"
  "dsub (4503599627370497 / 4503599627370496) 1 = 1 / 4503599627370496"
  "dadd (1 / 4503599627370496) 0 = 1 / 4503599627370496"
  "dsub (1 / 4503599627370496) (3 / 18014398509481984) = 1 / 18014398509481984"
  "dadd (1 / 18014398509481984) 0 = 1 / 18014398509481984"
  using rnd64_one_plus rnd64_is_dbl [OF is_dbl_frac [of "2 ^ 52 + 1" 52]]
    rnd64_is_dbl [OF is_dbl_frac [of 1 52]] rnd64_is_dbl [OF is_dbl_frac [of 1 54]]
  by (simp_all add: dadd_def dsub_def)

definition residue_samples :: "real list" where
  "residue_samples = [1, 3 / 2 ^ 54] @ replicate SWAG_CAPACITY 0"

text \<open>Until the next recomputation the running sum is a function of the window alone.\<close>

fun patched_sum :: "real list \<Rightarrow> real \<Rightarrow> real list \<Rightarrow> real" where
  "patched_sum w r [] = r"
| "patched_sum w r (x # xs) =
     patched_sum (last_n SWAG_CAPACITY (w @ [x]))
       (dadd (if length w = SWAG_CAPACITY then dsub r (hd w) else r) x) xs"

lemma run_sum_patched:
  assumes "sw_ok sw" "unat (sw_push_count sw) + length xs < 100"
  shows "sw_run_sum (foldl sw_push sw xs) = patched_sum (sw_window sw) (sw_run_sum sw) xs"
  using assms
proof (induction xs arbitrary: sw)
  case (Cons x xs)
  have pc: "unat (sw_push_count sw) < 99" using Cons.prems(2) by simp
  have r: "sw_run_sum (sw_push sw x) = dadd (if length (sw_window sw) = SWAG_CAPACITY
      then dsub (sw_run_sum sw) (hd (sw_window sw)) else sw_run_sum sw) x"
    using pc Cons.prems(1) by (simp add: sw_run_sum_push sw_window_length sw_window_push_full)
  show ?case using Cons.IH [of "sw_push sw x"] Cons.prems pc
    by (simp add: r sw_ok_push sw_push_count_step swin.view_push)
qed simp

lemma residue_run: "sw_run_sum (foldl sw_push sw_init residue_samples) = 1 / 2 ^ 54"
proof -
  have l: "residue_samples = [1, 3 / 2 ^ 54, 0, 0, 0, 0, 0, 0, 0, 0, 0, 0]"
    by (simp add: residue_samples_def numeral_eq_Suc)
  have "sw_run_sum (foldl sw_push sw_init residue_samples) = patched_sum [] 0 residue_samples"
    using run_sum_patched [OF sw_ok_init, of residue_samples]
    by (simp add: l sw_window_init) (simp add: sw_init_def)
  also have "\<dots> = 1 / 2 ^ 54"
    by (simp add: l last_n_def residue_adds)
  finally show ?thesis .
qed

lemma push_count_run:
  "unat (sw_push_count sw) + length xs < 100 \<Longrightarrow>
   unat (sw_push_count (foldl sw_push sw xs)) = unat (sw_push_count sw) + length xs"
  by (induction xs arbitrary: sw) (simp_all add: sw_push_count_step)

text \<open>A zero pushed onto a window of zeros leaves the running sum alone, except for the recomputation.\<close>

lemma foldl_dadd_zeros: "foldl dadd 0 (replicate n 0) = 0"
  by (induction n) (simp_all add: dadd_def)

lemma zero_push:
  assumes "sw_ok sw" "sw_window sw = replicate SWAG_CAPACITY 0" "is_dbl (sw_run_sum sw)"
  shows "sw_window (sw_push sw 0) = replicate SWAG_CAPACITY 0"
    and "sw_run_sum (sw_push sw 0) = (if unat (sw_push_count sw) = 99 then 0 else sw_run_sum sw)"
proof -
  have c: "sw_count sw = SWAG_CAPACITY" using sw_window_length [OF assms(1)] assms(2) by simp
  show w: "sw_window (sw_push sw 0) = replicate SWAG_CAPACITY 0"
    using swin.view_push [OF assms(1)] assms(2) by (simp add: last_n_def numeral_eq_Suc)
  have ok: "sw_ok (sw_push sw 0)" by (rule sw_ok_push [OF assms(1)])
  have z: "sw_buffer sw ! sw_head sw = 0" using evicted_sum_full(2) [OF assms(1) c] assms(2) by simp
  let ?t = "take (sw_count (sw_push sw 0)) (sw_buffer (sw_push sw 0))"
  have "set ?t = {0}" unfolding set_take_window [OF ok] w by simp
  then have "?t = replicate (length ?t) 0" by (metis replicate_eqI singletonD)
  then have "foldl dadd 0 ?t = 0" by (metis foldl_dadd_zeros)
  then show "sw_run_sum (sw_push sw 0) = (if unat (sw_push_count sw) = 99 then 0 else sw_run_sum sw)"
    using assms(1,3) z c by (simp add: sw_run_sum_push sw_ok_def dadd_def dsub_def rnd64_is_dbl)
qed

lemma zero_pushes:
  assumes "sw_ok sw" "sw_window sw = replicate SWAG_CAPACITY 0" "is_dbl (sw_run_sum sw)"
  shows "sw_window (foldl sw_push sw (replicate n 0)) = replicate SWAG_CAPACITY 0 \<and>
    sw_run_sum (foldl sw_push sw (replicate n 0)) = (if unat (sw_push_count sw) + n < 100 then sw_run_sum sw else 0)"
  using assms
proof (induction n arbitrary: sw)
  case 0
  then show ?case by (simp add: sw_ok_def)
next
  case (Suc n)
  have pc: "unat (sw_push_count sw) < 100" using Suc.prems(1) by (simp add: sw_ok_def)
  note z = zero_push [OF Suc.prems]
  have "is_dbl (sw_run_sum (sw_push sw 0))" using z(2) Suc.prems(3) is_dbl_int [of 0] by simp
  from Suc.IH [OF sw_ok_push [OF Suc.prems(1)] z(1) this] show ?case
    using z(2) pc by (auto simp: sw_push_count_step)
qed

subsection \<open>Properties\<close>

text \<open>
  C12. After any sequence of pushes the window holds exactly the last ten samples, oldest
  first, and all its indices and counters are in range.
\<close>

theorem window_holds_last_ten:
  "sw_window (foldl sw_push sw_init xs) = last_n SWAG_CAPACITY xs \<and> sw_ok (foldl sw_push sw_init xs)"
  using swin.view_pushes [OF sw_ok_init, of xs] swin.ok_pushes [OF sw_ok_init, of xs]
  by (simp add: sw_window_init)

text \<open>
  C11. However long the run, the running sum that is patched on every push stays within
  \<open>M / 2 ^ 41\<close> of the true sum of the window, for samples in \<open>[0, M]\<close>.
\<close>

theorem window_drift_bounded:
  assumes "1 \<le> M" and "\<forall>x \<in> set xs. 0 \<le> x \<and> x \<le> M"
  shows "\<bar>sw_run_sum (foldl sw_push sw_init xs) - sum_list (last_n SWAG_CAPACITY xs)\<bar> \<le> M / 2 ^ 41"
proof -
  let ?s = "foldl sw_push sw_init xs" and ?e = "rnd_err (12 * M)"
  have inv: "drift_inv M ?s" using drift_inv_pushes [OF drift_inv_init] assms by blast
  then have pc: "unat (sw_push_count ?s) < 100" by (simp add: drift_inv_def sw_ok_def)
  have "sw_drift ?s \<le> of_nat (2 * unat (sw_push_count ?s) + 20) * ?e"
    using inv by (simp add: drift_inv_def)
  also have "\<dots> \<le> 220 * ?e" using pc assms(1) by (intro mult_right_mono rnd_err_nonneg; linarith)
  also have "\<dots> \<le> M / 2 ^ 41" using assms(1) by (rule rnd_err_small)
  finally show ?thesis
    using swin.view_pushes [OF sw_ok_init, of xs] by (simp add: sw_drift_def sw_window_init)
qed

theorem window_drift_bounded_witness:
  "\<bar>sw_run_sum (foldl sw_push sw_init [1/10, 1/3]) - sum_list (last_n SWAG_CAPACITY [1/10, 1/3])\<bar> \<le> 1 / 2 ^ 41"
  by (rule window_drift_bounded) simp_all

text \<open>
  C31. On whole-number samples (byte and event counts up to \<open>2 ^ 49\<close>) there is no drift at
  all: the running sum is the exact sum of the last ten samples and the mean is that sum
  divided by their number, rounded once.
\<close>

theorem window_exact_on_counts:
  assumes "set xs \<subseteq> int_samples" and "xs \<noteq> []"
  shows "sw_run_sum (foldl sw_push sw_init xs) = sum_list (last_n SWAG_CAPACITY xs) \<and>
    sw_mean (foldl sw_push sw_init xs) =
      rnd64 (sum_list (last_n SWAG_CAPACITY xs) / of_nat (min SWAG_CAPACITY (length xs)))"
proof -
  let ?s = "foldl sw_push sw_init xs"
  have ok: "sw_ok ?s" and r: "sw_run_sum ?s = sum_list (sw_window ?s)"
    using sum_exact_pushes [OF sum_exact_init assms(1)] by (simp_all add: sum_exact_def)
  have w: "sw_window ?s = last_n SWAG_CAPACITY xs"
    using swin.view_pushes [OF sw_ok_init, of xs] by (simp add: sw_window_init)
  have c: "sw_count ?s = min SWAG_CAPACITY (length xs)" using sw_window_length [OF ok] w by simp
  then have "dbl_of_int (int (sw_count ?s)) = of_nat (min SWAG_CAPACITY (length xs))"
    using rnd64_nat [of "min SWAG_CAPACITY (length xs)"] by (simp add: dbl_of_int_def)
  with r w c assms(2) show ?thesis by (simp add: sw_mean_def ddiv_def)
qed

theorem window_exact_on_counts_witness:
  "sw_run_sum (foldl sw_push sw_init [3, 5]) = sum_list (last_n SWAG_CAPACITY [3, 5]) \<and>
    sw_mean (foldl sw_push sw_init [3, 5]) = rnd64 (sum_list (last_n SWAG_CAPACITY [3, 5]) / of_nat (min SWAG_CAPACITY (length [3, 5 :: real])))"
  by (rule window_exact_on_counts) (simp_all add: int_samples_def)

text \<open>
  C32. How long a residue survives in the running sum: after the samples \<open>1\<close> and \<open>3 / 2 ^ 54\<close> and
  ten zeros the window holds zeros only, and it stays so for any number of further zeros; the mean
  is the positive residue \<open>1 / 2 ^ 54\<close> divided by ten, unchanged, for the next 87 of them, and exactly zero
  from the 88th on, when the hundredth push recomputes the sum.
\<close>

theorem window_residue:
  "sw_window (foldl sw_push sw_init (residue_samples @ replicate n 0)) = replicate SWAG_CAPACITY 0 \<and>
   sw_mean (foldl sw_push sw_init (residue_samples @ replicate n 0)) = (if n < 88 then ddiv (1 / 2 ^ 54) 10 else 0) \<and>
   0 < ddiv (1 / 2 ^ 54) 10"
proof -
  have "(2::real) powi (-1074) \<le> 2 powi (-58)" by (simp only: powi_le_cancel)
  also have "\<dots> \<le> 1 / 2 ^ 54 / 10" by (simp add: power_int_minus_divide)
  finally have pos: "0 < ddiv (1 / 2 ^ 54) 10" unfolding ddiv_def by (rule rnd64_pos)
  let ?s = "foldl sw_push sw_init residue_samples" and ?t = "foldl sw_push sw_init (residue_samples @ replicate n 0)"
  have ok: "sw_ok ?s" "sw_ok ?t" by (rule swin.ok_pushes [OF sw_ok_init])+
  have w: "sw_window ?s = replicate SWAG_CAPACITY 0"
    using swin.view_pushes [OF sw_ok_init, of residue_samples] by (simp add: sw_window_init last_n_def residue_samples_def)
  have d: "is_dbl (sw_run_sum ?s)" using is_dbl_frac [of 1 54] by (simp add: residue_run)
  have "unat (sw_push_count ?s) = 12"
    using push_count_run [of sw_init residue_samples] by (simp add: sw_init_def residue_samples_def)
  then have t: "sw_window ?t = replicate SWAG_CAPACITY 0" "sw_run_sum ?t = (if n < 88 then 1 / 2 ^ 54 else 0)"
    using zero_pushes [OF ok(1) w d, of n] by (simp_all add: residue_run)
  have "sw_count ?t = SWAG_CAPACITY" using sw_window_length [OF ok(2)] t(1) by simp
  moreover have "dbl_of_int (int SWAG_CAPACITY) = 10" using rnd64_int [of 10] by (simp add: dbl_of_int_def)
  ultimately have "sw_mean ?t = (if n < 88 then ddiv (1 / 2 ^ 54) 10 else 0)"
    using t(2) by (simp add: sw_mean_def) (simp add: ddiv_def)
  with t(1) pos show ?thesis by simp
qed

end
