(* ===== verification/Perf_Counter.thy ===== *)
theory Perf_Counter
  imports Prelude "HOL-Library.Multiset"
begin

text \<open>
  The \<open>perf_event_open\<close> wrapper of \<^verbatim>\<open>src/perf_counter.c\<close>: a group of three hardware counters
  (cycles, instructions, last-level-cache misses), or a lone software clock when there is
  no PMU. The kernel is a record of system calls over an abstract world.

  Instrumenting any such kernel with the multiset of open descriptors gives the resource
  theorems: whatever the kernel answers, opening leaves open exactly the descriptors the
  structure holds, and closing releases exactly those.
\<close>

subsection \<open>System calls\<close>

abbreviation PERF_TYPE_HARDWARE :: u32 where "PERF_TYPE_HARDWARE \<equiv> 0"
abbreviation PERF_TYPE_SOFTWARE :: u32 where "PERF_TYPE_SOFTWARE \<equiv> 1"
abbreviation PERF_COUNT_HW_CPU_CYCLES :: u64 where "PERF_COUNT_HW_CPU_CYCLES \<equiv> 0"
abbreviation PERF_COUNT_HW_INSTRUCTIONS :: u64 where "PERF_COUNT_HW_INSTRUCTIONS \<equiv> 1"
abbreviation PERF_COUNT_HW_CACHE_MISSES :: u64 where "PERF_COUNT_HW_CACHE_MISSES \<equiv> 3"
abbreviation PERF_COUNT_SW_CPU_CLOCK :: u64 where "PERF_COUNT_SW_CPU_CLOCK \<equiv> 0"
abbreviation EMFILE :: int where "EMFILE \<equiv> 24"
abbreviation ENFILE :: int where "ENFILE \<equiv> 23"

datatype perf_ioctl = IOC_RESET | IOC_ENABLE | IOC_DISABLE

text \<open>\<open>struct perf_event_attr\<close>, the fields that vary; \<open>grouped\<close> is \<open>PERF_FORMAT_GROUP | PERF_FORMAT_ID\<close>.\<close>

record perf_attr =
  pa_type :: u32
  pa_config :: u64
  pa_grouped :: bool

text \<open>\<open>struct read_format\<close>: \<open>(value, id)\<close> pairs.\<close>

record read_format =
  rf_nr :: u64
  rf_values :: "(u64 \<times> u64) list"

text \<open>
  \<open>po_open attr pid cpu group_fd\<close> returns the descriptor (-1 on failure) and \<open>errno\<close>.
  \<open>po_read_u64\<close> is \<open>Some\<close> when all eight bytes were read, \<open>po_read_group\<close> when at least the
  count was; \<open>po_ioctl_id\<close> is \<open>PERF_EVENT_IOC_ID\<close>, \<open>None\<close> if it fails.
\<close>

record 'w perf_os =
  po_open :: "perf_attr \<Rightarrow> int \<Rightarrow> int \<Rightarrow> int \<Rightarrow> 'w \<Rightarrow> (int \<times> int) \<times> 'w"
  po_ioctl :: "int \<Rightarrow> perf_ioctl \<Rightarrow> bool \<Rightarrow> 'w \<Rightarrow> 'w"
  po_ioctl_id :: "int \<Rightarrow> 'w \<Rightarrow> u64 option \<times> 'w"
  po_read_u64 :: "int \<Rightarrow> 'w \<Rightarrow> u64 option \<times> 'w"
  po_read_group :: "int \<Rightarrow> 'w \<Rightarrow> read_format option \<times> 'w"
  po_close :: "int \<Rightarrow> 'w \<Rightarrow> 'w"

subsection \<open>State and operations\<close>

record raw_counters_t =
  rc_cycles :: u64
  rc_instructions :: u64
  rc_llc_misses :: u64

definition raw_zero :: raw_counters_t where
  "raw_zero = \<lparr>rc_cycles = 0, rc_instructions = 0, rc_llc_misses = 0\<rparr>"

record perf_counter_t =
  pc_pid :: int
  pc_cpu_id :: int
  fd_cycles :: int
  fd_instr :: int
  fd_llc :: int
  hw_available :: int
  id_cycles :: u64
  id_instr :: u64
  id_llc :: u64

text \<open>\<open>memset(pc, 0, ..)\<close> followed by the three descriptors set to -1.\<close>

definition pc_blank :: perf_counter_t where
  "pc_blank = \<lparr>pc_pid = 0, pc_cpu_id = 0, fd_cycles = -1, fd_instr = -1, fd_llc = -1,
     hw_available = 0, id_cycles = 0, id_instr = 0, id_llc = 0\<rparr>"

definition open_counter ::
  "'w perf_os \<Rightarrow> u32 \<Rightarrow> u64 \<Rightarrow> int \<Rightarrow> int \<Rightarrow> int \<Rightarrow> bool \<Rightarrow> 'w \<Rightarrow> int \<times> int \<times> 'w" where
  "open_counter os type config pid cpu_id leader_fd is_group_leader w =
    (let ((fd, errno), w1) = po_open os
           \<lparr>pa_type = type, pa_config = config, pa_grouped = is_group_leader\<rparr> pid cpu_id leader_fd w
     in if fd = -1 then (fd, errno, w1) else (fd, 0, w1))"

definition perf_counter_close :: "'w perf_os \<Rightarrow> perf_counter_t \<Rightarrow> 'w \<Rightarrow> perf_counter_t \<times> 'w" where
  "perf_counter_close os pc w =
    (let w1 = (if 0 \<le> fd_cycles pc
               then po_close os (fd_cycles pc)
                      (po_ioctl os (fd_cycles pc) IOC_DISABLE (hw_available pc \<noteq> 0) w)
               else w);
         w2 = (if 0 \<le> fd_instr pc then po_close os (fd_instr pc) w1 else w1);
         w3 = (if 0 \<le> fd_llc pc then po_close os (fd_llc pc) w2 else w2)
     in (pc_blank, w3))"

text \<open>\<open>ioctl(fd, PERF_EVENT_IOC_ID, &id)\<close>: the field keeps its value if the call fails.\<close>

definition store_id :: "u64 \<Rightarrow> u64 option \<Rightarrow> u64" where
  "store_id old r = (case r of None \<Rightarrow> old | Some i \<Rightarrow> i)"

text \<open>The software fallback: a lone clock counter, not a group.\<close>

definition perf_open_fallback :: "'w perf_os \<Rightarrow> perf_counter_t \<Rightarrow> 'w \<Rightarrow> int \<times> perf_counter_t \<times> 'w" where
  "perf_open_fallback os pc w =
    (let pc1 = pc\<lparr>hw_available := 0\<rparr>;
         (fd, err, w1) = open_counter os PERF_TYPE_SOFTWARE PERF_COUNT_SW_CPU_CLOCK
                           (pc_pid pc) (pc_cpu_id pc) (-1) False w;
         pc2 = pc1\<lparr>fd_cycles := fd\<rparr>
     in if fd < 0 then (-1, pc2, w1)
        else (0, pc2, po_ioctl os fd IOC_ENABLE False (po_ioctl os fd IOC_RESET False w1)))"

text \<open>The rest of the group, once the leader is open.\<close>

definition perf_open_group :: "'w perf_os \<Rightarrow> perf_counter_t \<Rightarrow> 'w \<Rightarrow> int \<times> perf_counter_t \<times> 'w" where
  "perf_open_group os pc w =
    (let (fd1, err1, w1) = open_counter os PERF_TYPE_HARDWARE PERF_COUNT_HW_INSTRUCTIONS
                             (pc_pid pc) (pc_cpu_id pc) (fd_cycles pc) False w;
         pc1 = pc\<lparr>fd_instr := fd1\<rparr>
     in if fd1 < 0 then (let (pc', w') = perf_counter_close os pc1 w1 in (-1, pc', w')) else
     let (fd2, err2, w2) = open_counter os PERF_TYPE_HARDWARE PERF_COUNT_HW_CACHE_MISSES
                             (pc_pid pc) (pc_cpu_id pc) (fd_cycles pc) False w1;
         pc2 = pc1\<lparr>fd_llc := fd2\<rparr>
     in if fd2 < 0 then (let (pc', w') = perf_counter_close os pc2 w2 in (-1, pc', w')) else
     let (i1, w3) = po_ioctl_id os (fd_cycles pc2) w2;
         (i2, w4) = po_ioctl_id os (fd_instr pc2) w3;
         (i3, w5) = po_ioctl_id os (fd_llc pc2) w4;
         w6 = po_ioctl os (fd_cycles pc2) IOC_RESET True w5;
         w7 = po_ioctl os (fd_cycles pc2) IOC_ENABLE True w6
     in (0, pc2\<lparr>id_cycles := store_id (id_cycles pc2) i1, id_instr := store_id (id_instr pc2) i2,
                id_llc := store_id (id_llc pc2) i3\<rparr>, w7))"

definition perf_counter_open ::
  "'w perf_os \<Rightarrow> int \<Rightarrow> int \<Rightarrow> 'w \<Rightarrow> int \<times> perf_counter_t \<times> 'w" where
  "perf_counter_open os pid cpu_id w =
    (let pc = pc_blank\<lparr>pc_pid := pid, pc_cpu_id := cpu_id, hw_available := 1\<rparr>;
         (fd, err, w1) = open_counter os PERF_TYPE_HARDWARE PERF_COUNT_HW_CPU_CYCLES
                           pid cpu_id (-1) True w;
         pc1 = pc\<lparr>fd_cycles := fd\<rparr>
     in if fd < 0 then
          (if err = EMFILE \<or> err = ENFILE then (-1, pc1\<lparr>hw_available := 0\<rparr>, w1)
           else perf_open_fallback os pc1 w1)
        else perf_open_group os pc1 w1)"

text \<open>One entry of a group read, matched by its event id.\<close>

definition store_value :: "perf_counter_t \<Rightarrow> raw_counters_t \<Rightarrow> u64 \<times> u64 \<Rightarrow> raw_counters_t" where
  "store_value pc out v =
    (let (value, i) = v in
     if i = id_cycles pc then out\<lparr>rc_cycles := value\<rparr>
     else if i = id_instr pc then out\<lparr>rc_instructions := value\<rparr>
     else if i = id_llc pc then out\<lparr>rc_llc_misses := value\<rparr>
     else out)"

definition perf_counter_read ::
  "'w perf_os \<Rightarrow> perf_counter_t \<Rightarrow> 'w \<Rightarrow> int \<times> raw_counters_t \<times> 'w" where
  "perf_counter_read os pc w =
    (if hw_available pc = 0 then
       (let (r, w1) = po_read_u64 os (fd_cycles pc) w
        in case r of None \<Rightarrow> (-1, raw_zero, w1) | Some v \<Rightarrow> (0, raw_zero\<lparr>rc_cycles := v\<rparr>, w1))
     else
       (let (r, w1) = po_read_group os (fd_cycles pc) w
        in case r of None \<Rightarrow> (-1, raw_zero, w1)
           | Some rf \<Rightarrow> (0, foldl (store_value pc) raw_zero
                             (take (min (unat (rf_nr rf)) 3) (rf_values rf)), w1)))"

subsection \<open>Reading back a group\<close>

text \<open>
  The kernel may report the three events in any order: with distinct ids the values land
  in the right fields.
\<close>

definition group_of :: "perf_counter_t \<Rightarrow> raw_counters_t \<Rightarrow> (u64 \<times> u64) list" where
  "group_of pc c = [(rc_cycles c, id_cycles pc), (rc_instructions c, id_instr pc), (rc_llc_misses c, id_llc pc)]"

lemma three_perms: "mset xs = {#a, b, c#} \<Longrightarrow>
  xs = [a, b, c] \<or> xs = [a, c, b] \<or> xs = [b, a, c] \<or> xs = [b, c, a] \<or> xs = [c, a, b] \<or> xs = [c, b, a]"
proof -
  assume m: "mset xs = {#a, b, c#}"
  then have "length xs = 3" by (metis size_mset size_add_mset size_empty numeral_3_eq_3)
  then obtain x y z where xs: "xs = [x, y, z]" by (auto simp: length_Suc_conv numeral_3_eq_3)
  show ?thesis using m unfolding xs by (auto simp: add_eq_conv_ex)
qed

lemma store_values_perm:
  assumes "mset vs = mset (group_of pc c)" "distinct [id_cycles pc, id_instr pc, id_llc pc]"
  shows "foldl (store_value pc) raw_zero vs = c"
proof -
  have "mset vs = {#(rc_cycles c, id_cycles pc), (rc_instructions c, id_instr pc), (rc_llc_misses c, id_llc pc)#}"
    using assms(1) by (simp add: group_of_def)
  from three_perms [OF this] assms(2) show ?thesis
    by (cases c; elim disjE) (auto simp: store_value_def raw_zero_def)
qed

subsection \<open>Descriptors\<close>

definition perf_tracked :: "'w perf_os \<Rightarrow> ('w \<times> int multiset) perf_os" where
  "perf_tracked os =
    \<lparr>po_open = (\<lambda>a p c g (w, F). let ((fd, e), w') = po_open os a p c g w
                                in ((fd, e), (w', if 0 \<le> fd then add_mset fd F else F))),
     po_ioctl = (\<lambda>fd r g (w, F). (po_ioctl os fd r g w, F)),
     po_ioctl_id = (\<lambda>fd (w, F). let (i, w') = po_ioctl_id os fd w in (i, (w', F))),
     po_read_u64 = (\<lambda>fd (w, F). let (i, w') = po_read_u64 os fd w in (i, (w', F))),
     po_read_group = (\<lambda>fd (w, F). let (i, w') = po_read_group os fd w in (i, (w', F))),
     po_close = (\<lambda>fd (w, F). (po_close os fd w, F - {#fd#}))\<rparr>"

definition pc_fds :: "perf_counter_t \<Rightarrow> int list" where
  "pc_fds pc = filter (\<lambda>fd. 0 \<le> fd) [fd_cycles pc, fd_instr pc, fd_llc pc]"

text \<open>What a successful open leaves: a full group, or the lone software counter.\<close>

definition pc_open_ok :: "perf_counter_t \<Rightarrow> bool" where
  "pc_open_ok pc \<longleftrightarrow> 0 \<le> fd_cycles pc \<and>
     (if hw_available pc = 0 then fd_instr pc = -1 \<and> fd_llc pc = -1
      else 0 \<le> fd_instr pc \<and> 0 \<le> fd_llc pc)"

lemma pc_fds_blank [simp]: "pc_fds pc_blank = []"
  by (simp add: pc_fds_def pc_blank_def)

lemma close_blank: "perf_counter_close os pc_blank w = (pc_blank, w)"
  by (simp add: perf_counter_close_def pc_blank_def)

lemma open_counter_tracked:
  assumes "open_counter (perf_tracked os) t c p cpu l g (w, F) = (fd, e, w', F')"
  shows "F' = (if 0 \<le> fd then add_mset fd F else F)"
  using assms by (auto simp: open_counter_def perf_tracked_def Let_def split: prod.splits if_splits)

lemma close_tracked:
  "\<exists>w'. perf_counter_close (perf_tracked os) pc (w, F) = (pc_blank, w', F - mset (pc_fds pc))"
  by (simp add: perf_counter_close_def perf_tracked_def Let_def pc_fds_def add_mset_commute)

lemma fallback_tracked:
  assumes "perf_open_fallback (perf_tracked os) pc (w, F) = (r, pc', w', F')"
    "fd_instr pc = -1" "fd_llc pc = -1"
  shows "F' = F + mset (pc_fds pc') \<and>
    (r = 0 \<and> pc_open_ok pc' \<and> hw_available pc' = 0 \<or> r = -1 \<and> pc_fds pc' = [])"
proof -
  obtain fd e w1 F1 where oc: "open_counter (perf_tracked os) PERF_TYPE_SOFTWARE PERF_COUNT_SW_CPU_CLOCK
      (pc_pid pc) (pc_cpu_id pc) (-1) False (w, F) = (fd, e, w1, F1)"
    by (cases "open_counter (perf_tracked os) PERF_TYPE_SOFTWARE PERF_COUNT_SW_CPU_CLOCK
      (pc_pid pc) (pc_cpu_id pc) (-1) False (w, F)") auto
  from open_counter_tracked [OF oc] assms show ?thesis
    unfolding perf_open_fallback_def oc
    by (auto simp: Let_def perf_tracked_def pc_fds_def pc_open_ok_def split: if_splits)
qed

lemma close_tracked_eq:
  assumes "perf_counter_close (perf_tracked os) pc (w, F) = (pc', w', F')"
  shows "pc' = pc_blank" and "F' = F - mset (pc_fds pc)"
  using close_tracked [of os pc w F] assms by auto

lemma ioctl_tracked [simp]:
  "po_ioctl (perf_tracked os) fd r g (w, F) = (po_ioctl os fd r g w, F)"
  "po_ioctl_id (perf_tracked os) fd (w, F) = (let (i, w') = po_ioctl_id os fd w in (i, (w', F)))"
  by (simp_all add: perf_tracked_def)

lemma group_tracked:
  assumes g: "perf_open_group (perf_tracked os) pc (w, add_mset (fd_cycles pc) F) = (r, pc', w', F')"
    and pc: "0 \<le> fd_cycles pc" "fd_instr pc = -1" "fd_llc pc = -1" "hw_available pc = 1"
  shows "F' = F + mset (pc_fds pc') \<and>
    (r = 0 \<and> pc_open_ok pc' \<and> hw_available pc' = 1 \<or> r = -1 \<and> pc_fds pc' = [])"
proof -
  let ?F = "add_mset (fd_cycles pc) F"
  obtain fd1 e1 w1 F1 where o1: "open_counter (perf_tracked os) PERF_TYPE_HARDWARE
      PERF_COUNT_HW_INSTRUCTIONS (pc_pid pc) (pc_cpu_id pc) (fd_cycles pc) False (w, ?F) = (fd1, e1, w1, F1)"
    by (metis prod_cases4)
  have F1: "F1 = (if 0 \<le> fd1 then add_mset fd1 ?F else ?F)" by (rule open_counter_tracked [OF o1])
  obtain fd2 e2 w2 F2 where o2: "open_counter (perf_tracked os) PERF_TYPE_HARDWARE
      PERF_COUNT_HW_CACHE_MISSES (pc_pid pc) (pc_cpu_id pc) (fd_cycles pc) False (w1, F1) = (fd2, e2, w2, F2)"
    by (metis prod_cases4)
  have F2: "F2 = (if 0 \<le> fd2 then add_mset fd2 F1 else F1)" by (rule open_counter_tracked [OF o2])
  consider "fd1 < 0" | "0 \<le> fd1" "fd2 < 0" | "0 \<le> fd1" "0 \<le> fd2" by linarith
  then show ?thesis
  proof cases
    case 1
    have c: "perf_counter_close (perf_tracked os) (pc\<lparr>fd_instr := fd1\<rparr>) (w1, F1) = (pc', w', F')" and "r = -1"
      using g 1 by (auto simp: perf_open_group_def o1 Let_def split: prod.splits)
    then show ?thesis using close_tracked_eq [OF c] F1 1 pc by (simp add: pc_fds_def pc_blank_def)
  next
    case 2
    have c: "perf_counter_close (perf_tracked os) (pc\<lparr>fd_instr := fd1, fd_llc := fd2\<rparr>) (w2, F2) = (pc', w', F')"
      and "r = -1" using g 2 by (auto simp: perf_open_group_def o1 o2 Let_def split: prod.splits)
    then show ?thesis using close_tracked_eq [OF c] F1 F2 2 pc
      by (simp add: pc_fds_def pc_blank_def add_mset_commute)
  next
    case 3
    have "r = 0 \<and> F' = F2 \<and> fd_cycles pc' = fd_cycles pc \<and> fd_instr pc' = fd1 \<and> fd_llc pc' = fd2 \<and>
        hw_available pc' = 1"
      using g 3 pc by (auto simp: perf_open_group_def o1 o2 Let_def split: prod.splits)
    then show ?thesis using F1 F2 3 pc by (simp add: pc_fds_def pc_open_ok_def add_mset_commute)
  qed
qed

lemma open_tracked:
  assumes "perf_counter_open (perf_tracked os) pid cpu (w, F) = (r, pc', w', F')"
  shows "F' = F + mset (pc_fds pc') \<and>
    (r = 0 \<and> pc_open_ok pc' \<or> r = -1 \<and> pc_fds pc' = [])"
proof -
  let ?pc = "pc_blank\<lparr>pc_pid := pid, pc_cpu_id := cpu, hw_available := 1\<rparr>"
  obtain fd e w1 F1 where o1: "open_counter (perf_tracked os) PERF_TYPE_HARDWARE
      PERF_COUNT_HW_CPU_CYCLES pid cpu (-1) True (w, F) = (fd, e, w1, F1)"
    by (metis prod_cases4)
  have F1: "F1 = (if 0 \<le> fd then add_mset fd F else F)" by (rule open_counter_tracked [OF o1])
  show ?thesis
  proof (cases "0 \<le> fd")
    case True
    then show ?thesis
      using assms F1 group_tracked [of os "?pc\<lparr>fd_cycles := fd\<rparr>" w1 F r pc' w' F']
      by (auto simp: perf_counter_open_def o1 Let_def pc_blank_def)
  next
    case False
    then show ?thesis
      using assms F1 fallback_tracked [of os "?pc\<lparr>fd_cycles := fd\<rparr>" w1 F r pc' w' F']
      by (auto simp: perf_counter_open_def o1 Let_def pc_blank_def pc_fds_def split: if_splits)
  qed
qed

subsection \<open>Properties\<close>

text \<open>
  C24. No descriptor leaks and none is lost: whatever the kernel answers, after opening the
  counters of a process the newly open descriptors are exactly those in the structure; on
  failure there are none, and on success the structure is a full group or the lone
  software clock.
\<close>

theorem perf_open_descriptors:
  assumes "perf_counter_open (perf_tracked os) pid cpu (w, F) = (r, pc, w', F')"
  shows "F' = F + mset (pc_fds pc) \<and> (r = 0 \<and> pc_open_ok pc \<or> r = -1 \<and> pc_fds pc = [])"
  using assms by (rule open_tracked)

text \<open>A kernel that grants descriptors 3, 4, 5, ... and refuses the third of a group.\<close>

definition perf_example :: "int perf_os" where
  "perf_example = \<lparr>po_open = (\<lambda>a p c g w. if w = 5 then ((-1, 22), w) else ((w, 0), w + 1)),
     po_ioctl = (\<lambda>fd r g w. w), po_ioctl_id = (\<lambda>fd w. (Some (word_of_int fd), w)),
     po_read_u64 = (\<lambda>fd w. (Some 0, w)), po_read_group = (\<lambda>fd w. (None, w)), po_close = (\<lambda>fd w. w)\<rparr>"

theorem perf_open_descriptors_witness:
  "\<exists>pc w'. perf_counter_open (perf_tracked perf_example) 42 (-1) (3, {#}) = (-1, pc, w', {#}) \<and>
     {#} = {#} + mset (pc_fds pc)"
proof -
  let ?o = "perf_counter_open (perf_tracked perf_example) 42 (-1) (3, {#})"
  have o: "?o = (-1, pc_blank, 5, {#})"
    by (simp add: perf_counter_open_def perf_open_group_def open_counter_def perf_tracked_def
        perf_example_def perf_counter_close_def Let_def pc_blank_def)
  from perf_open_descriptors [OF o] o show ?thesis by blast
qed

text \<open>
  C33. Closing releases exactly the descriptors the structure holds and blanks it, so closing
  a second time (as \<open>add_pid\<close> does after a failed open) closes nothing.
\<close>

theorem perf_close_releases:
  "\<exists>w'. perf_counter_close (perf_tracked os) pc (w, F + mset (pc_fds pc)) = (pc_blank, w', F) \<and>
     perf_counter_close (perf_tracked os) pc_blank (w', F) = (pc_blank, w', F)"
  using close_tracked [of os pc w "F + mset (pc_fds pc)"] by (auto simp: close_blank)

text \<open>
  C25. A group read returns the three counters in their own fields in whatever order the
  kernel lists the events, as long as the event ids differ.
\<close>

theorem perf_group_read:
  assumes "hw_available pc \<noteq> 0" and "po_read_group os (fd_cycles pc) w = (Some rf, w')"
    and "rf_nr rf = 3" and "mset (rf_values rf) = mset (group_of pc c)"
    and "distinct [id_cycles pc, id_instr pc, id_llc pc]"
  shows "perf_counter_read os pc w = (0, c, w')"
proof -
  have "length (rf_values rf) = 3" using arg_cong [OF assms(4), of size] by (simp add: group_of_def)
  then show ?thesis
    using assms store_values_perm [OF assms(4,5)] by (simp add: perf_counter_read_def)
qed

definition group_pc :: perf_counter_t where
  "group_pc = pc_blank\<lparr>hw_available := 1, fd_cycles := 3, id_cycles := 7, id_instr := 8, id_llc := 9\<rparr>"

definition group_os :: "'w perf_os" where
  "group_os = \<lparr>po_open = (\<lambda>a p c g w. ((-1, 1), w)), po_ioctl = (\<lambda>fd r g w. w),
     po_ioctl_id = (\<lambda>fd w. (None, w)), po_read_u64 = (\<lambda>fd w. (None, w)),
     po_read_group = (\<lambda>fd w. (Some \<lparr>rf_nr = 3, rf_values = [(11, 9), (100, 7), (50, 8)]\<rparr>, w)),
     po_close = (\<lambda>fd w. w)\<rparr>"

theorem perf_group_read_witness:
  "perf_counter_read group_os group_pc () =
     (0, \<lparr>rc_cycles = 100, rc_instructions = 50, rc_llc_misses = 11\<rparr>, ())"
  by (rule perf_group_read [where rf = "\<lparr>rf_nr = 3, rf_values = [(11, 9), (100, 7), (50, 8)]\<rparr>"])
    (simp_all add: group_pc_def group_os_def group_of_def)

end
