(* ===== verification/Proc_Io.thy ===== *)
theory Proc_Io
  imports C_Lib
begin

text \<open>
  Reading \<^verbatim>\<open>/proc/PID/io\<close> and \<^verbatim>\<open>/proc/PID/comm\<close> (\<^verbatim>\<open>src/schedmon.c\<close>). The kernel side is a
  record of system calls over an abstract world; the buffer handling and the line parser
  are the code's. A printer of the kernel's seven-line format gives the round trip and
  shows that the 512-byte buffer never truncates it.
\<close>

subsection \<open>System calls\<close>

text \<open>
  \<open>pr_read fd n\<close> is \<open>None\<close> on error and the bytes read otherwise (at most \<open>n\<close>; empty at end
  of file). \<open>pr_fopen path\<close> is \<open>fopen(path, "r")\<close>: the descriptor behind the stream and the
  contents it will deliver; \<open>pr_opendir\<close> is \<open>opendir("/proc")\<close>: its descriptor and the names a
  \<open>readdir\<close> loop over it delivers. Each is \<open>None\<close> if opening fails, and each is released by its own
  call. \<open>pr_gone pid\<close> is \<open>kill(pid, 0) == -1 && errno == ESRCH\<close>.
\<close>

record 'w proc_os =
  pr_open :: "string \<Rightarrow> 'w \<Rightarrow> int \<times> 'w"
  pr_lseek :: "int \<Rightarrow> 'w \<Rightarrow> int \<times> 'w"
  pr_read :: "int \<Rightarrow> nat \<Rightarrow> 'w \<Rightarrow> string option \<times> 'w"
  pr_close :: "int \<Rightarrow> 'w \<Rightarrow> 'w"
  pr_fopen :: "string \<Rightarrow> 'w \<Rightarrow> (int \<times> string) option \<times> 'w"
  pr_fclose :: "int \<Rightarrow> 'w \<Rightarrow> 'w"
  pr_opendir :: "'w \<Rightarrow> (int \<times> string list) option \<times> 'w"
  pr_closedir :: "int \<Rightarrow> 'w \<Rightarrow> 'w"
  pr_gone :: "int \<Rightarrow> 'w \<Rightarrow> bool \<times> 'w"

definition proc_path :: "int \<Rightarrow> string \<Rightarrow> string" where
  "proc_path pid leaf = ''/proc/'' @ dec_int pid @ ''/'' @ leaf"

subsection \<open>The parser\<close>

record io_acc =
  io_rchar :: u64
  io_wchar :: u64
  io_read_bytes :: u64
  io_write_bytes :: u64
  io_cancelled :: u64

definition io_zero :: io_acc where
  "io_zero = \<lparr>io_rchar = 0, io_wchar = 0, io_read_bytes = 0, io_write_bytes = 0, io_cancelled = 0\<rparr>"

definition io_line :: "string \<Rightarrow> io_acc \<Rightarrow> io_acc" where
  "io_line p a =
    (if starts_with ''rchar:'' p then a\<lparr>io_rchar := fst (strtoull (drop 6 p))\<rparr>
     else if starts_with ''wchar:'' p then a\<lparr>io_wchar := fst (strtoull (drop 6 p))\<rparr>
     else if starts_with ''read_bytes:'' p then a\<lparr>io_read_bytes := fst (strtoull (drop 11 p))\<rparr>
     else if starts_with ''write_bytes:'' p then a\<lparr>io_write_bytes := fst (strtoull (drop 12 p))\<rparr>
     else if starts_with ''cancelled_write_bytes:'' p
       then a\<lparr>io_cancelled := fst (strtoull (drop 22 p))\<rparr>
     else a)"

function parse_io :: "string \<Rightarrow> io_acc \<Rightarrow> io_acc" where
  "parse_io p a = (if p = [] then a else parse_io (next_line p) (io_line p a))"
  by pat_completeness auto
termination
  by (relation "measure (length \<circ> fst)") (auto simp: next_line_shorter)

declare parse_io.simps [simp del]

abbreviation PROC_IO_READ_FAIL :: u64 where "PROC_IO_READ_FAIL \<equiv> - 1"

text \<open>Physical disk bytes: reads plus writes, less cancelled writes, never below zero.\<close>

definition io_total :: "io_acc \<Rightarrow> u64" where
  "io_total a = (let total = io_read_bytes a + io_write_bytes a
                 in if io_cancelled a \<le> total then total - io_cancelled a else 0)"

text \<open>The out-parameter is passed in and returned; it changes on success only.\<close>

definition read_proc_io_fd :: "'w proc_os \<Rightarrow> int \<Rightarrow> u64 \<Rightarrow> 'w \<Rightarrow> u64 \<times> u64 \<times> 'w" where
  "read_proc_io_fd os fd out w =
    (if fd < 0 then (PROC_IO_READ_FAIL, out, w) else
     let (pos, w1) = pr_lseek os fd w in
     if pos < 0 then (PROC_IO_READ_FAIL, out, w1) else
     let (r, w2) = pr_read os fd 511 w1 in
     case r of None \<Rightarrow> (PROC_IO_READ_FAIL, out, w2)
     | Some bytes \<Rightarrow>
         if bytes = [] then (PROC_IO_READ_FAIL, out, w2) else
         let a = parse_io (c_str bytes) io_zero
         in (io_total a, io_rchar a + io_wchar a, w2))"

subsection \<open>Opening and the process name\<close>

text \<open>The two global counters of successful and failed opens.\<close>

record io_fd_stats =
  io_fd_fail_count :: int
  io_fd_ok_count :: int

definition open_proc_io_fd :: "'w proc_os \<Rightarrow> int \<Rightarrow> io_fd_stats \<Rightarrow> 'w \<Rightarrow> int \<times> io_fd_stats \<times> 'w" where
  "open_proc_io_fd os pid st w =
    (let (fd, w1) = pr_open os (proc_path pid ''io'') w
     in (fd, if fd < 0 then st\<lparr>io_fd_fail_count := io_fd_fail_count st + 1\<rparr>
             else st\<lparr>io_fd_ok_count := io_fd_ok_count st + 1\<rparr>, w1))"

text \<open>The contents the buffer has afterwards, as a C string; \<open>len\<close> is its size.\<close>

definition read_proc_comm :: "'w proc_os \<Rightarrow> int \<Rightarrow> nat \<Rightarrow> 'w \<Rightarrow> string \<times> 'w" where
  "read_proc_comm os pid len w =
    (let (fd, w1) = pr_open os (proc_path pid ''comm'') w in
     if fd < 0 then ([], w1) else
     let (r, w2) = pr_read os fd (len - 1) w1; w3 = pr_close os fd w2 in
     case r of None \<Rightarrow> ([], w3)
     | Some bytes \<Rightarrow> (if bytes = [] then []
                      else if last bytes = NL then c_str (butlast bytes) else c_str bytes, w3))"

subsection \<open>The kernel's format and the round trip\<close>

record io_file =
  f_rchar :: nat
  f_wchar :: nat
  f_syscr :: nat
  f_syscw :: nat
  f_read_bytes :: nat
  f_write_bytes :: nat
  f_cancelled :: nat

definition io_render :: "io_file \<Rightarrow> string" where
  "io_render f = ''rchar: '' @ dec (f_rchar f) @ NL # ''wchar: '' @ dec (f_wchar f) @ NL #
     ''syscr: '' @ dec (f_syscr f) @ NL # ''syscw: '' @ dec (f_syscw f) @ NL #
     ''read_bytes: '' @ dec (f_read_bytes f) @ NL # ''write_bytes: '' @ dec (f_write_bytes f) @ NL #
     ''cancelled_write_bytes: '' @ dec (f_cancelled f) @ [NL]"

definition io_file_ok :: "io_file \<Rightarrow> bool" where
  "io_file_ok f \<longleftrightarrow> f_rchar f < 2 ^ 64 \<and> f_wchar f < 2 ^ 64 \<and> f_syscr f < 2 ^ 64 \<and> f_syscw f < 2 ^ 64
     \<and> f_read_bytes f < 2 ^ 64 \<and> f_write_bytes f < 2 ^ 64 \<and> f_cancelled f < 2 ^ 64"

text \<open>One line \<open>label: n\<close> of the file.\<close>

lemma parse_io_line:
  assumes "NL \<notin> set lab"
  shows "parse_io (lab @ dec n @ NL # r) a = parse_io r (io_line (lab @ dec n @ NL # r) a)"
proof -
  have "next_line (lab @ dec n @ NL # r) = r"
    using next_line_append [of "lab @ dec n" r] assms NL_notin_dec by simp
  then show ?thesis by (simp add: parse_io.simps [of "lab @ dec n @ NL # r"])
qed

lemma strtoull_line: "n < 2 ^ 64 \<Longrightarrow> fst (strtoull (CHR '' '' # dec n @ NL # r)) = of_nat n"
proof -
  assume "n < 2 ^ 64"
  then have "strtoull ('' '' @ dec n @ NL # r) = (of_nat n, NL # r)"
    by (rule strtoull_dec) (simp_all add: isdigit_def isspace_def)
  then show ?thesis by simp
qed

lemma parse_io_render:
  assumes "io_file_ok f"
  shows "parse_io (io_render f) io_zero =
    \<lparr>io_rchar = of_nat (f_rchar f), io_wchar = of_nat (f_wchar f),
     io_read_bytes = of_nat (f_read_bytes f), io_write_bytes = of_nat (f_write_bytes f),
     io_cancelled = of_nat (f_cancelled f)\<rparr>"
proof -
  have e: "parse_io [] a = a" for a by (simp add: parse_io.simps)
  show ?thesis unfolding io_render_def
    apply (subst parse_io_line, simp)+
    apply (simp add: e io_line_def starts_with_def io_zero_def)
    using assms by (simp add: strtoull_line io_file_ok_def)
qed

lemma length_io_render: "io_file_ok f \<Longrightarrow> length (io_render f) \<le> 223"
proof -
  assume ok: "io_file_ok f"
  have p: "(2::nat) ^ 64 < 10 ^ 20" by simp
  have l: "length (dec n) \<le> 20" if "n < 2 ^ 64" for n
    using that p by (intro length_dec_le) simp_all
  have "length (io_render f) = 83 + length (dec (f_rchar f)) + length (dec (f_wchar f)) +
      length (dec (f_syscr f)) + length (dec (f_syscw f)) + length (dec (f_read_bytes f)) +
      length (dec (f_write_bytes f)) + length (dec (f_cancelled f))"
    by (simp add: io_render_def)
  with ok show ?thesis
    using l [of "f_rchar f"] l [of "f_wchar f"] l [of "f_syscr f"] l [of "f_syscw f"]
      l [of "f_read_bytes f"] l [of "f_write_bytes f"] l [of "f_cancelled f"]
    by (simp add: io_file_ok_def)
qed

lemma NUL_notin_dec: "NUL \<notin> set (dec n)"
  using dec_isdigit [of NUL n] by (auto simp: isdigit_def)

lemma c_str_io_render: "c_str (io_render f) = io_render f"
proof -
  have "NUL \<notin> set (io_render f)" by (simp add: io_render_def NUL_notin_dec)
  then show ?thesis by (auto simp: c_str_def takeWhile_eq_all_conv)
qed

subsection \<open>Properties\<close>

text \<open>
  C26. Reading back what the kernel prints: for any seven 64-bit counters the daemon obtains
  the physical bytes (reads plus writes less cancelled writes, never below zero) and the
  system-call bytes, exactly, modulo \<open>2 ^ 64\<close>; the text fits the 511 bytes it asks for.
\<close>

theorem proc_io_round_trip:
  assumes "io_file_ok f" and "0 \<le> fd"
    and "pr_lseek os fd w = (pos, w1)" and "0 \<le> pos" and "pr_read os fd 511 w1 = (Some (io_render f), w2)"
  shows "length (io_render f) \<le> 511 \<and> read_proc_io_fd os fd out w =
    (let total = of_nat (f_read_bytes f) + of_nat (f_write_bytes f)
     in if of_nat (f_cancelled f) \<le> total then total - of_nat (f_cancelled f) else 0,
     of_nat (f_rchar f) + of_nat (f_wchar f), w2)"
proof -
  have "io_render f \<noteq> []" by (simp add: io_render_def)
  then show ?thesis
    using assms length_io_render [OF assms(1)]
    by (simp add: read_proc_io_fd_def c_str_io_render parse_io_render io_total_def Let_def)
qed

definition io_example :: io_file where
  "io_example = \<lparr>f_rchar = 5000, f_wchar = 300, f_syscr = 12, f_syscw = 4, f_read_bytes = 4096,
     f_write_bytes = 8192, f_cancelled = 1024\<rparr>"

definition io_os_example :: "unit proc_os" where
  "io_os_example = \<lparr>pr_open = (\<lambda>p w. (3, w)), pr_lseek = (\<lambda>fd w. (0, w)),
     pr_read = (\<lambda>fd n w. (Some (io_render io_example), w)), pr_close = (\<lambda>fd w. w),
     pr_fopen = (\<lambda>p w. (None, w)), pr_fclose = (\<lambda>fd w. w), pr_opendir = (\<lambda>w. (None, w)),
     pr_closedir = (\<lambda>fd w. w), pr_gone = (\<lambda>p w. (False, w))\<rparr>"

theorem proc_io_round_trip_witness:
  "read_proc_io_fd io_os_example 3 0 () = (11264, 5300, ())"
  using proc_io_round_trip [of io_example 3 io_os_example "()" 0 "()" "()" 0]
  by (simp add: io_os_example_def io_example_def io_file_ok_def Let_def)

end
