(* ===== verification/Proc_Scanner.thy ===== *)
theory Proc_Scanner
  imports Proc_Io "HOL-Library.Multiset"
begin

text \<open>
  The process table scanner of \<^verbatim>\<open>src/proc_scanner.c\<close>: parsing \<^verbatim>\<open>/proc/PID/stat\<close> and
  \<^verbatim>\<open>/proc/PID/status\<close>, the table of tracked processes with its tick deltas, and the ranking.

  The table is the used prefix \<open>entries[0 .. n_entries - 1]\<close> of the C array. A stat line
  without a field after its last \<open>)\<close>, or with its last \<open>)\<close> before its first \<open>(\<close>, makes the C
  code access memory it must not: the parser returns \<open>Stat_UB\<close> and a scan that meets it
  returns \<open>None\<close>.
\<close>

abbreviation PROC_MAX_TRACKED :: nat where "PROC_MAX_TRACKED \<equiv> 1024"

record ProcEntry =
  pe_pid :: int
  pe_comm :: string
  pe_uid :: int
  utime :: u64
  stime :: u64
  total_ticks :: u64
  prev_ticks :: u64
  delta_ticks :: u64
  pe_active :: int

record ProcScanner =
  ps_entries :: "ProcEntry list"
  scan_count :: int

definition proc_scanner_init :: ProcScanner where
  "proc_scanner_init = \<lparr>ps_entries = [], scan_count = 0\<rparr>"

subsection \<open>Parsing\<close>

primrec skip_fields :: "nat \<Rightarrow> string \<Rightarrow> string" where
  "skip_fields 0 p = p"
| "skip_fields (Suc n) p =
     skip_fields n (dropWhile (\<lambda>c. c = CHR '' '') (dropWhile (\<lambda>c. c \<noteq> CHR '' '') p))"

text \<open>\<open>Stat_Ok comm utime stime\<close>; \<open>comm\<close> is the copied name (empty when it is not fetched).\<close>

datatype stat_result = Stat_UB | Stat_Error | Stat_Ok string u64 u64

definition parse_stat :: "bool \<Rightarrow> string \<Rightarrow> stat_result" where
  "parse_stat fetch_comm line =
    (case (strchr line (CHR ''(''), strrchr line (CHR '')'')) of
       (Some s, Some e) \<Rightarrow>
         if fetch_comm \<and> e < s then Stat_UB
         else if length line < e + 2 then Stat_UB
         else
           (let comm_len = min 15 (e - s - 1);
                comm = (if fetch_comm then take comm_len (drop (s + 1) line) else []);
                rest = skip_fields 11 (drop (e + 2) line);
                (ut, nxt) = strtoull rest;
                (st, _) = strtoull nxt
            in Stat_Ok comm ut st)
     | _ \<Rightarrow> Stat_Error)"

definition read_proc_stat :: "'w proc_os \<Rightarrow> int \<Rightarrow> bool \<Rightarrow> 'w \<Rightarrow> stat_result \<times> 'w" where
  "read_proc_stat os pid fetch_comm w =
    (let (r, w1) = pr_fopen os (proc_path pid ''stat'') w in
     case r of None \<Rightarrow> (Stat_Error, w1)
     | Some (fd, content) \<Rightarrow> (case fgets 512 content of None \<Rightarrow> (Stat_Error, pr_fclose os fd w1)
         | Some (line, _) \<Rightarrow> (let w2 = pr_fclose os fd w1 in (parse_stat fetch_comm (c_str line), w2))))"

text \<open>
  The \<open>fgets\<close> loop over the status file, in pieces of at most 127 characters; \<open>None\<close> when it
  ends without a \<open>Uid:\<close> line.
\<close>

function status_uid :: "string \<Rightarrow> int option" where
  "status_uid s =
    (case fgets 128 s of None \<Rightarrow> None
     | Some (line, rest) \<Rightarrow>
         if starts_with ''Uid:'' line then Some (atoi (dropWhile isspace (drop 4 (c_str line))))
         else status_uid rest)"
  by pat_completeness auto
termination
  by (relation "measure length") (auto dest: fgets_pieces(2))

declare status_uid.simps [simp del]

definition read_proc_uid :: "'w proc_os \<Rightarrow> int \<Rightarrow> 'w \<Rightarrow> int \<times> 'w" where
  "read_proc_uid os pid w =
    (let (r, w1) = pr_fopen os (proc_path pid ''status'') w
     in case r of None \<Rightarrow> (-1, w1)
        | Some (fd, s) \<Rightarrow> (case status_uid s of Some uid \<Rightarrow> (uid, pr_fclose os fd w1)
            | None \<Rightarrow> (-1, pr_fclose os fd w1)))"

subsection \<open>The table\<close>

text \<open>The index of the first entry for the pid.\<close>

fun find_entry :: "ProcEntry list \<Rightarrow> int \<Rightarrow> nat option" where
  "find_entry [] pid = None"
| "find_entry (e # es) pid = (if pe_pid e = pid then Some 0 else map_option Suc (find_entry es pid))"

definition blank_entry :: "int \<Rightarrow> ProcEntry" where
  "blank_entry pid = \<lparr>pe_pid = pid, pe_comm = [], pe_uid = -1, utime = 0, stime = 0,
     total_ticks = 0, prev_ticks = 0, delta_ticks = 0, pe_active = 0\<rparr>"

text \<open>The index, whether it is new, and the table; \<open>None\<close> when the table is full.\<close>

definition find_or_alloc :: "ProcScanner \<Rightarrow> int \<Rightarrow> (nat \<times> bool \<times> ProcScanner) option" where
  "find_or_alloc ps pid =
    (case find_entry (ps_entries ps) pid of
       Some i \<Rightarrow> Some (i, False, ps)
     | None \<Rightarrow> if PROC_MAX_TRACKED \<le> length (ps_entries ps) then None
               else Some (length (ps_entries ps), True,
                          ps\<lparr>ps_entries := ps_entries ps @ [blank_entry pid]\<rparr>))"

text \<open>What one successful stat read does to an entry.\<close>

definition update_entry :: "bool \<Rightarrow> string \<Rightarrow> u64 \<Rightarrow> u64 \<Rightarrow> ProcEntry \<Rightarrow> ProcEntry" where
  "update_entry is_new comm ut st e =
    (let total = ut + st;
         e1 = (if is_new then e\<lparr>pe_comm := comm, prev_ticks := total\<rparr>
               else e\<lparr>prev_ticks := total_ticks e\<rparr>)
     in e1\<lparr>utime := ut, stime := st, total_ticks := total,
           delta_ticks := (if total > prev_ticks e1 then total - prev_ticks e1 else 0),
           pe_active := 1\<rparr>)"

text \<open>The loop body, the same in both scan functions.\<close>

definition scan_one :: "'w proc_os \<Rightarrow> int \<Rightarrow> ProcScanner \<Rightarrow> 'w \<Rightarrow> (ProcScanner \<times> 'w) option" where
  "scan_one os pid ps w =
    (if pid \<le> 1 then Some (ps, w) else
     case find_or_alloc ps pid of
       None \<Rightarrow> Some (ps, w)
     | Some (i, is_new, ps1) \<Rightarrow>
         (case read_proc_stat os pid is_new w of
            (Stat_UB, w1) \<Rightarrow> None
          | (Stat_Error, w1) \<Rightarrow> Some (ps1, w1)
          | (Stat_Ok comm ut st, w1) \<Rightarrow>
              (let e = update_entry is_new comm ut st (ps_entries ps1 ! i);
                   (e', w2) = (if pe_uid e = -1
                               then (let (u, w2) = read_proc_uid os pid w1 in (e\<lparr>pe_uid := u\<rparr>, w2))
                               else (e, w1))
               in Some (ps1\<lparr>ps_entries := (ps_entries ps1)[i := e']\<rparr>, w2))))"

fun scan_pids_loop :: "'w proc_os \<Rightarrow> int list \<Rightarrow> ProcScanner \<Rightarrow> 'w \<Rightarrow> (ProcScanner \<times> 'w) option" where
  "scan_pids_loop os [] ps w = Some (ps, w)"
| "scan_pids_loop os (pid # pids) ps w =
    (case scan_one os pid ps w of None \<Rightarrow> None | Some (ps', w') \<Rightarrow> scan_pids_loop os pids ps' w')"

definition clear_active :: "ProcScanner \<Rightarrow> ProcScanner" where
  "clear_active ps = ps\<lparr>ps_entries := map (\<lambda>e. e\<lparr>pe_active := 0\<rparr>) (ps_entries ps)\<rparr>"

text \<open>The compaction that ends a scan.\<close>

definition compact :: "ProcScanner \<Rightarrow> ProcScanner" where
  "compact ps = ps\<lparr>ps_entries := filter (\<lambda>e. pe_active e \<noteq> 0) (ps_entries ps),
                   scan_count := scan_count ps + 1\<rparr>"

definition proc_scanner_scan_pids ::
  "'w proc_os \<Rightarrow> u32 list \<Rightarrow> ProcScanner \<Rightarrow> 'w \<Rightarrow> (ProcScanner \<times> 'w) option" where
  "proc_scanner_scan_pids os pids ps w =
    (case scan_pids_loop os (map int_of_u32 pids) (clear_active ps) w of
       None \<Rightarrow> None | Some (ps', w') \<Rightarrow> Some (compact ps', w'))"

text \<open>The directory entries whose name starts with a digit, as pids.\<close>

definition dir_pids :: "string list \<Rightarrow> int list" where
  "dir_pids names = map atoi (filter (\<lambda>n. n \<noteq> [] \<and> isdigit (hd n)) names)"

definition proc_scanner_scan :: "'w proc_os \<Rightarrow> ProcScanner \<Rightarrow> 'w \<Rightarrow> (ProcScanner \<times> 'w) option" where
  "proc_scanner_scan os ps w =
    (let ps0 = clear_active ps; (d, w1) = pr_opendir os w in
     case d of None \<Rightarrow> Some (ps0, w1)
     | Some (dir, names) \<Rightarrow>
         (case scan_pids_loop os (dir_pids names) ps0 w1 of
            None \<Rightarrow> None | Some (ps', w') \<Rightarrow> (let w'' = pr_closedir os dir w' in Some (compact ps', w''))))"

subsection \<open>Ranking\<close>

definition cmp_delta_desc :: "ProcEntry \<Rightarrow> ProcEntry \<Rightarrow> int" where
  "cmp_delta_desc a b = (if delta_ticks b > delta_ticks a then 1
                         else if delta_ticks b < delta_ticks a then -1 else 0)"

text \<open>
  The C library's \<open>qsort\<close> is a parameter: it permutes, and it orders by the comparison
  function; the order of ties is its own choice.
\<close>

locale c_qsort =
  fixes qs :: "(ProcEntry \<Rightarrow> ProcEntry \<Rightarrow> int) \<Rightarrow> ProcEntry list \<Rightarrow> ProcEntry list"
  assumes qs_perm: "mset (qs cmp xs) = mset xs"
    and qs_sorted: "(\<And>a b. cmp a b \<le> 0 \<or> cmp b a \<le> 0) \<Longrightarrow>
      (\<And>a b c. cmp a b \<le> 0 \<Longrightarrow> cmp b c \<le> 0 \<Longrightarrow> cmp a c \<le> 0) \<Longrightarrow>
      sorted_wrt (\<lambda>a b. cmp a b \<le> 0) (qs cmp xs)"

definition eligible :: "int \<Rightarrow> ProcEntry \<Rightarrow> bool" where
  "eligible min_uid e \<longleftrightarrow> pe_active e \<noteq> 0 \<and> \<not> (pe_uid e \<ge> 0 \<and> pe_uid e < min_uid)"

definition proc_scanner_top_n ::
  "((ProcEntry \<Rightarrow> ProcEntry \<Rightarrow> int) \<Rightarrow> ProcEntry list \<Rightarrow> ProcEntry list) \<Rightarrow> ProcScanner \<Rightarrow> int \<Rightarrow> int \<Rightarrow> int list" where
  "proc_scanner_top_n qs ps n min_uid =
    (if ps_entries ps = [] then []
     else map pe_pid (take (nat n) (qs cmp_delta_desc (filter (eligible min_uid) (ps_entries ps)))))"

lemma cmp_delta_iff: "cmp_delta_desc a b \<le> 0 \<longleftrightarrow> delta_ticks b \<le> delta_ticks a"
  by (auto simp: cmp_delta_desc_def)

context c_qsort
begin

definition ranked :: "ProcScanner \<Rightarrow> int \<Rightarrow> ProcEntry list" where
  "ranked ps min_uid = qs cmp_delta_desc (filter (eligible min_uid) (ps_entries ps))"

lemma ranked_sorted: "sorted_wrt (\<lambda>a b. delta_ticks b \<le> delta_ticks a) (ranked ps min_uid)"
  using qs_sorted [of cmp_delta_desc] unfolding ranked_def by (simp add: cmp_delta_iff) fastforce

lemma ranked_mset: "mset (ranked ps min_uid) = filter_mset (eligible min_uid) (mset (ps_entries ps))"
  by (simp add: ranked_def qs_perm)

lemma set_ranked: "set (ranked ps min_uid) = {e \<in> set (ps_entries ps). eligible min_uid e}"
  using arg_cong [OF ranked_mset, of set_mset] by simp

lemma top_n_ranked: "proc_scanner_top_n qs ps n min_uid = map pe_pid (take (nat n) (ranked ps min_uid))"
proof (cases "ps_entries ps = []")
  case True
  then have "ranked ps min_uid = []" using ranked_mset [of ps min_uid] by simp
  then show ?thesis using True by (simp add: proc_scanner_top_n_def)
qed (simp add: proc_scanner_top_n_def ranked_def)

lemma length_ranked: "length (ranked ps min_uid) = length (filter (eligible min_uid) (ps_entries ps))"
  by (metis mset_filter ranked_mset size_mset)

text \<open>Everything that made the cut consumed at least as much as everything that did not.\<close>

lemma cut_maximal:
  assumes "e \<in> set (take k (ranked ps min_uid))" "f \<in> set (drop k (ranked ps min_uid))"
  shows "delta_ticks f \<le> delta_ticks e"
  using ranked_sorted [of ps min_uid] assms
  by (metis append_take_drop_id sorted_wrt_append)

lemma distinct_top_n:
  assumes "distinct (map pe_pid (ps_entries ps))"
  shows "distinct (proc_scanner_top_n qs ps n min_uid)"
proof -
  have "mset (map pe_pid (ranked ps min_uid)) = mset (map pe_pid (filter (eligible min_uid) (ps_entries ps)))"
    by (simp add: ranked_mset)
  moreover have "distinct (map pe_pid (filter (eligible min_uid) (ps_entries ps)))"
    using assms by (rule distinct_map_filter)
  ultimately have "distinct (map pe_pid (ranked ps min_uid))" by (metis mset_eq_imp_distinct_iff)
  then show ?thesis by (simp add: top_n_ranked flip: take_map)
qed

end

text \<open>A reference implementation: insertion sort, stable.\<close>

fun ins_by :: "(ProcEntry \<Rightarrow> ProcEntry \<Rightarrow> int) \<Rightarrow> ProcEntry \<Rightarrow> ProcEntry list \<Rightarrow> ProcEntry list" where
  "ins_by cmp x [] = [x]"
| "ins_by cmp x (y # ys) = (if cmp x y \<le> 0 then x # y # ys else y # ins_by cmp x ys)"

definition qsort_ref :: "(ProcEntry \<Rightarrow> ProcEntry \<Rightarrow> int) \<Rightarrow> ProcEntry list \<Rightarrow> ProcEntry list" where
  "qsort_ref cmp xs = foldr (ins_by cmp) xs []"

lemma mset_ins_by: "mset (ins_by cmp x ys) = add_mset x (mset ys)"
  by (induction ys) auto

lemma set_ins_by: "set (ins_by cmp x ys) = insert x (set ys)"
  using arg_cong [OF mset_ins_by, of set_mset] by simp

lemma sorted_ins_by:
  assumes total: "\<And>a b. cmp a b \<le> 0 \<or> cmp b a \<le> (0::int)"
    and trans: "\<And>a b c. cmp a b \<le> 0 \<Longrightarrow> cmp b c \<le> 0 \<Longrightarrow> cmp a c \<le> 0"
    and s: "sorted_wrt (\<lambda>a b. cmp a b \<le> 0) ys"
  shows "sorted_wrt (\<lambda>a b. cmp a b \<le> 0) (ins_by cmp x ys)"
  using s
proof (induction ys)
  case (Cons y ys)
  show ?case
  proof (cases "cmp x y \<le> 0")
    case True
    then show ?thesis using Cons.prems by (auto intro: trans)
  next
    case False
    then have "cmp y x \<le> 0" using total [of x y] by simp
    then show ?thesis using False Cons by (auto simp: set_ins_by)
  qed
qed simp

interpretation qref: c_qsort qsort_ref
proof
  show "mset (qsort_ref cmp xs) = mset xs" for cmp xs
    unfolding qsort_ref_def by (induction xs) (simp_all add: mset_ins_by)
  fix cmp :: "ProcEntry \<Rightarrow> ProcEntry \<Rightarrow> int" and xs
  assume "\<And>a b. cmp a b \<le> 0 \<or> cmp b a \<le> 0"
    and "\<And>a b c. cmp a b \<le> 0 \<Longrightarrow> cmp b c \<le> 0 \<Longrightarrow> cmp a c \<le> 0"
  note c = this
  show "sorted_wrt (\<lambda>a b. cmp a b \<le> 0) (qsort_ref cmp xs)"
    unfolding qsort_ref_def by (induction xs) (simp_all add: sorted_ins_by c)
qed

subsection \<open>The table's invariant\<close>

definition ps_ok :: "ProcScanner \<Rightarrow> bool" where
  "ps_ok ps \<longleftrightarrow> distinct (map pe_pid (ps_entries ps)) \<and> length (ps_entries ps) \<le> PROC_MAX_TRACKED \<and>
     (\<forall>e \<in> set (ps_entries ps). 1 < pe_pid e)"

lemma ps_ok_init: "ps_ok proc_scanner_init"
  by (simp add: ps_ok_def proc_scanner_init_def)

lemma find_entry_Some:
  "find_entry es pid = Some i \<Longrightarrow> i < length es \<and> pe_pid (es ! i) = pid"
  by (induction es arbitrary: i) (auto split: if_splits)

lemma find_entry_None: "find_entry es pid = None \<longleftrightarrow> pid \<notin> pe_pid ` set es"
  by (induction es) auto

lemma find_or_alloc_props:
  assumes "ps_ok ps" "1 < pid" "find_or_alloc ps pid = Some (i, is_new, ps1)"
  shows "ps_ok ps1 \<and> i < length (ps_entries ps1) \<and> pe_pid (ps_entries ps1 ! i) = pid"
  using assms
  by (auto simp: find_or_alloc_def ps_ok_def find_entry_None blank_entry_def
      dest!: find_entry_Some split: option.splits if_splits)

lemma update_entry_pid [simp]: "pe_pid (update_entry n c u s e) = pe_pid e"
  "pe_active (update_entry n c u s e) = 1"
  by (simp_all add: update_entry_def Let_def)

lemma ps_ok_write:
  assumes "ps_ok ps" "i < length (ps_entries ps)" "pe_pid e = pe_pid (ps_entries ps ! i)"
  shows "ps_ok (ps\<lparr>ps_entries := (ps_entries ps)[i := e]\<rparr>)"
proof -
  have "map pe_pid ((ps_entries ps)[i := e]) = map pe_pid (ps_entries ps)"
    using assms by (simp add: map_update list_update_same_conv)
  moreover have "\<forall>f \<in> set ((ps_entries ps)[i := e]). 1 < pe_pid f"
    using assms nth_mem [OF assms(2)] set_update_subset_insert [of "ps_entries ps" i e]
    by (fastforce simp: ps_ok_def)
  ultimately show ?thesis using assms(1) by (simp add: ps_ok_def)
qed

lemma scan_one_ok [keeps]:
  assumes "ps_ok ps" "scan_one os pid ps w = Some (ps', w')"
  shows "ps_ok ps'"
proof (cases "pid \<le> 1 \<or> find_or_alloc ps pid = None")
  case True
  then show ?thesis using assms by (auto simp: scan_one_def split: if_splits)
next
  case False
  then obtain i n ps1 where f: "find_or_alloc ps pid = Some (i, n, ps1)" and p: "1 < pid" by auto
  have ok1: "ps_ok ps1" "i < length (ps_entries ps1)" using find_or_alloc_props [OF assms(1) p f] by auto
  show ?thesis using assms(2) f p ok1
    by (auto simp: scan_one_def Let_def intro!: ps_ok_write split: stat_result.splits prod.splits if_splits)
qed

lemma scan_loop_ok [keeps]:
  "ps_ok ps \<Longrightarrow> scan_pids_loop os pids ps w = Some (ps', w') \<Longrightarrow> ps_ok ps'"
  by (induction pids arbitrary: ps w) (auto split: option.splits dest: scan_one_ok)

lemma clear_active_ok [keeps]: "ps_ok ps \<Longrightarrow> ps_ok (clear_active ps)"
  by (auto simp: ps_ok_def clear_active_def comp_def)

lemma compact_ok [keeps]: "ps_ok ps \<Longrightarrow> ps_ok (compact ps)"
  by (auto simp: ps_ok_def compact_def distinct_map_filter intro: le_trans [OF length_filter_le])

lemma scan_pids_ok [keeps]:
  assumes "ps_ok ps" "proc_scanner_scan_pids os pids ps w = Some (ps', w')"
  shows "ps_ok ps'"
  using assms compact_ok [OF scan_loop_ok [OF clear_active_ok [OF assms(1)]]]
  by (auto simp: proc_scanner_scan_pids_def split: option.splits)

lemma scan_ok [keeps]:
  assumes "ps_ok ps" "proc_scanner_scan os ps w = Some (ps', w')"
  shows "ps_ok ps'"
  using assms compact_ok [OF scan_loop_ok [OF clear_active_ok [OF assms(1)]]] clear_active_ok [OF assms(1)]
  by (auto simp: proc_scanner_scan_def Let_def split: option.splits prod.splits)

subsection \<open>The entries of a scan\<close>

text \<open>The readings of stat lines a scan makes: the pid and the result, in order.\<close>

fun scan_reads :: "'w proc_os \<Rightarrow> int list \<Rightarrow> ProcScanner \<Rightarrow> 'w \<Rightarrow> (int \<times> stat_result) list" where
  "scan_reads os [] ps w = []"
| "scan_reads os (pid # pids) ps w =
    (if pid \<le> 1 then [] else
     case find_or_alloc ps pid of None \<Rightarrow> []
     | Some (i, is_new, ps1) \<Rightarrow> [(pid, fst (read_proc_stat os pid is_new w))]) @
    (case scan_one os pid ps w of None \<Rightarrow> [] | Some (ps', w') \<Rightarrow> scan_reads os pids ps' w')"

text \<open>
  The active entries are those of the successful readings \<open>R\<close>, each with the times of one of them.
\<close>

definition as_read :: "(int \<times> stat_result) set \<Rightarrow> ProcScanner \<Rightarrow> bool" where
  "as_read R ps \<longleftrightarrow>
     (\<forall>e \<in> set (ps_entries ps). pe_active e \<noteq> 0 \<longrightarrow> total_ticks e = utime e + stime e \<and>
        (\<exists>c. (pe_pid e, Stat_Ok c (utime e) (stime e)) \<in> R)) \<and>
     (\<forall>p c ut st. (p, Stat_Ok c ut st) \<in> R \<longrightarrow> (\<exists>i < length (ps_entries ps).
        pe_pid (ps_entries ps ! i) = p \<and> pe_active (ps_entries ps ! i) \<noteq> 0))"

lemma as_read_alloc:
  assumes "as_read R ps" "find_or_alloc ps p = Some (i, n, ps1)"
  shows "as_read R ps1"
proof (cases "ps1 = ps")
  case False
  then have ps1: "ps1 = ps\<lparr>ps_entries := ps_entries ps @ [blank_entry p]\<rparr>"
    using assms(2) by (auto simp: find_or_alloc_def split: option.splits if_splits)
  show ?thesis unfolding as_read_def
  proof (intro conjI ballI allI impI)
    fix e assume "e \<in> set (ps_entries ps1)" "pe_active e \<noteq> 0"
    then show "total_ticks e = utime e + stime e" "\<exists>c. (pe_pid e, Stat_Ok c (utime e) (stime e)) \<in> R"
      using assms(1) by (auto simp: as_read_def ps1 blank_entry_def)
  next
    fix q c ut st assume "(q, Stat_Ok c ut st) \<in> R"
    then obtain j where "j < length (ps_entries ps)" "pe_pid (ps_entries ps ! j) = q" "pe_active (ps_entries ps ! j) \<noteq> 0"
      using assms(1) unfolding as_read_def by blast
    then show "\<exists>i < length (ps_entries ps1). pe_pid (ps_entries ps1 ! i) = q \<and> pe_active (ps_entries ps1 ! i) \<noteq> 0"
      by (intro exI [of _ j]) (simp add: ps1 nth_append)
  qed
qed (use assms(1) in simp)

lemma as_read_write:
  assumes "as_read R ps" "i < length (ps_entries ps)" "pe_pid (ps_entries ps ! i) = p"
    "pe_pid e = p" "pe_active e \<noteq> 0" "total_ticks e = utime e + stime e"
  shows "as_read (insert (p, Stat_Ok c (utime e) (stime e)) R) (ps\<lparr>ps_entries := (ps_entries ps)[i := e]\<rparr>)"
  unfolding as_read_def
proof (intro conjI ballI allI impI)
  let ?es = "(ps_entries ps)[i := e]" and ?R = "insert (p, Stat_Ok c (utime e) (stime e)) R"
  fix f assume f: "f \<in> set (ps_entries (ps\<lparr>ps_entries := ?es\<rparr>))" "pe_active f \<noteq> 0"
  then have "f = e \<or> f \<in> set (ps_entries ps)" using set_update_subset_insert [of "ps_entries ps" i e] by auto
  then show "total_ticks f = utime f + stime f" "\<exists>c. (pe_pid f, Stat_Ok c (utime f) (stime f)) \<in> ?R"
    using assms(1,4,6) f(2) by (auto simp: as_read_def)
next
  let ?es = "(ps_entries ps)[i := e]" and ?R = "insert (p, Stat_Ok c (utime e) (stime e)) R"
  fix q c' ut st assume q: "(q, Stat_Ok c' ut st) \<in> ?R"
  show "\<exists>k < length (ps_entries (ps\<lparr>ps_entries := ?es\<rparr>)). pe_pid (ps_entries (ps\<lparr>ps_entries := ?es\<rparr>) ! k) = q \<and>
      pe_active (ps_entries (ps\<lparr>ps_entries := ?es\<rparr>) ! k) \<noteq> 0"
  proof (cases "q = p")
    case True
    then show ?thesis using assms(2,4,5) by (intro exI [of _ i]) simp
  next
    case False
    then obtain j where "j < length (ps_entries ps)" "pe_pid (ps_entries ps ! j) = q" "pe_active (ps_entries ps ! j) \<noteq> 0"
      using assms(1) q unfolding as_read_def by blast
    moreover from this False assms(3) have "i \<noteq> j" by auto
    ultimately show ?thesis by (intro exI [of _ j]) simp
  qed
qed

lemma as_read_error: "as_read R ps \<Longrightarrow> as_read (insert (p, Stat_Error) R) ps"
  by (auto simp: as_read_def)

lemma scan_one_as_read:
  assumes ok: "ps_ok ps" and r: "as_read R ps" and run: "scan_one os p ps w = Some (ps', w')"
  shows "as_read (R \<union> set (if p \<le> 1 then [] else case find_or_alloc ps p of None \<Rightarrow> []
     | Some (i, n, ps1) \<Rightarrow> [(p, fst (read_proc_stat os p n w))])) ps'"
proof (cases "p \<le> 1 \<or> find_or_alloc ps p = None")
  case True
  then show ?thesis using r run by (auto simp: scan_one_def split: if_splits)
next
  case False
  then obtain i n ps1 where f: "find_or_alloc ps p = Some (i, n, ps1)" and p: "1 < p" by auto
  have ok1: "i < length (ps_entries ps1)" "pe_pid (ps_entries ps1 ! i) = p"
    using find_or_alloc_props [OF ok p f] by auto
  have r1: "as_read R ps1" by (rule as_read_alloc [OF r f])
  obtain x w1 where x: "read_proc_stat os p n w = (x, w1)" by (metis prod.exhaust)
  have "as_read (insert (p, x) R) ps'"
  proof (cases x)
    case Stat_Error
    then have "ps' = ps1" using run p f x by (simp add: scan_one_def)
    then show ?thesis using as_read_error [OF r1] Stat_Error by simp
  next
    case (Stat_Ok c ut st)
    let ?u = "update_entry n c ut st (ps_entries ps1 ! i)"
    obtain e where ps': "ps' = ps1\<lparr>ps_entries := (ps_entries ps1)[i := e]\<rparr>" and e: "e = ?u \<or> (\<exists>v. e = ?u\<lparr>pe_uid := v\<rparr>)"
      using run p f x Stat_Ok by (auto simp: scan_one_def Let_def split: if_splits prod.splits)
    have "pe_pid e = p \<and> pe_active e \<noteq> 0 \<and> utime e = ut \<and> stime e = st \<and> total_ticks e = ut + st"
      using e ok1(2) by (auto simp: update_entry_def Let_def)
    then show ?thesis using as_read_write [OF r1 ok1, of e c] by (simp add: ps' Stat_Ok)
  qed (use run p f x in \<open>simp add: scan_one_def\<close>)
  then show ?thesis using p f by (simp add: x)
qed

lemma scan_loop_as_read:
  "ps_ok ps \<Longrightarrow> as_read R ps \<Longrightarrow> scan_pids_loop os pids ps w = Some (ps', w') \<Longrightarrow>
   as_read (R \<union> set (scan_reads os pids ps w)) ps'"
proof (induction pids arbitrary: ps R w)
  case (Cons p pids)
  then obtain ps1 w1 where one: "scan_one os p ps w = Some (ps1, w1)"
    and rest: "scan_pids_loop os pids ps1 w1 = Some (ps', w')" by (auto split: option.splits)
  from Cons.IH [OF scan_one_ok [OF Cons.prems(1) one] scan_one_as_read [OF Cons.prems(1,2) one] rest]
  show ?case by (simp add: one Un_assoc)
qed simp

lemma compact_as_read:
  assumes "as_read R ps"
  shows "pe_pid ` set (ps_entries (compact ps)) = {p. \<exists>c ut st. (p, Stat_Ok c ut st) \<in> R}"
proof -
  have "p \<in> pe_pid ` set (ps_entries (compact ps))" if "(p, Stat_Ok c ut st) \<in> R" for p c ut st
  proof -
    from that assms obtain i where "i < length (ps_entries ps)" "pe_pid (ps_entries ps ! i) = p"
      "pe_active (ps_entries ps ! i) \<noteq> 0" unfolding as_read_def by blast
    then show ?thesis by (auto simp: compact_def intro!: image_eqI [of _ _ "ps_entries ps ! i"])
  qed
  moreover have "\<exists>c ut st. (pe_pid e, Stat_Ok c ut st) \<in> R" if "e \<in> set (ps_entries (compact ps))" for e
    using that assms by (auto simp: compact_def as_read_def) blast
  ultimately show ?thesis by blast
qed


subsection \<open>What a scan does to one process\<close>

definition entry_of :: "ProcScanner \<Rightarrow> int \<Rightarrow> ProcEntry option" where
  "entry_of ps p = find (\<lambda>e. pe_pid e = p) (ps_entries ps)"

lemma find_nth: "find (\<lambda>e. pe_pid e = p) es = map_option ((!) es) (find_entry es p)"
  by (induction es) (auto simp: option.map_comp comp_def)

lemma find_update:
  assumes "distinct (map pe_pid es)" "i < length es" "pe_pid (es ! i) = p" "pe_pid e = p"
  shows "find (\<lambda>e. pe_pid e = q) (es[i := e]) = (if q = p then Some e else find (\<lambda>e. pe_pid e = q) es)"
  using assms
proof (induction es arbitrary: i)
  case (Cons a es)
  show ?case
  proof (cases i)
    case (Suc j)
    with Cons.prems have "pe_pid a \<noteq> p" using nth_mem [of j es] by fastforce
    with Suc Cons.IH [of j] Cons.prems show ?thesis by (cases "q = p") auto
  qed (use Cons.prems in simp)
qed simp

lemma find_append:
  "find P (xs @ ys) = (case find P xs of None \<Rightarrow> find P ys | Some x \<Rightarrow> Some x)"
  by (induction xs) auto

lemma entry_of_write:
  assumes "ps_ok ps" "i < length (ps_entries ps)" "pe_pid (ps_entries ps ! i) = p" "pe_pid e = p"
  shows "entry_of (ps\<lparr>ps_entries := (ps_entries ps)[i := e]\<rparr>) q = (if q = p then Some e else entry_of ps q)"
  using find_update [of "ps_entries ps" i p e q] assms by (simp add: entry_of_def ps_ok_def)

lemma find_or_alloc_entry:
  assumes "find_or_alloc ps p = Some (i, is_new, ps1)"
  shows "is_new = (entry_of ps p = None)"
    and "entry_of ps1 q = (if q = p then Some (ps_entries ps1 ! i) else entry_of ps q)"
    and "ps_entries ps1 ! i = (case entry_of ps p of None \<Rightarrow> blank_entry p | Some e \<Rightarrow> e)"
    and "length (ps_entries ps1) \<le> Suc (length (ps_entries ps))"
proof -
  let ?es = "ps_entries ps"
  have "(is_new = (entry_of ps p = None)) \<and>
    entry_of ps1 q = (if q = p then Some (ps_entries ps1 ! i) else entry_of ps q) \<and>
    ps_entries ps1 ! i = (case entry_of ps p of None \<Rightarrow> blank_entry p | Some e \<Rightarrow> e) \<and>
    length (ps_entries ps1) \<le> Suc (length (ps_entries ps))"
  proof (cases "find_entry ?es p")
    case None
    then have e: "find (\<lambda>e. pe_pid e = p) ?es = None" by (simp add: find_nth)
    from None assms have "i = length ?es" "is_new" "ps_entries ps1 = ?es @ [blank_entry p]"
      by (auto simp: find_or_alloc_def split: if_splits)
    with e show ?thesis by (auto simp: entry_of_def find_append blank_entry_def split: option.splits)
  next
    case (Some j)
    then have e: "find (\<lambda>e. pe_pid e = p) ?es = Some (?es ! j)" by (simp add: find_nth)
    from Some assms have "i = j" "\<not> is_new" "ps1 = ps" by (auto simp: find_or_alloc_def)
    with e show ?thesis by (simp add: entry_of_def)
  qed
  then show "is_new = (entry_of ps p = None)"
    "entry_of ps1 q = (if q = p then Some (ps_entries ps1 ! i) else entry_of ps q)"
    "ps_entries ps1 ! i = (case entry_of ps p of None \<Rightarrow> blank_entry p | Some e \<Rightarrow> e)"
    "length (ps_entries ps1) \<le> Suc (length (ps_entries ps))" by simp_all
qed

text \<open>The result of reading the stat line when the file system is the function \<open>files\<close>.\<close>

definition stat_of :: "(string \<Rightarrow> string option) \<Rightarrow> bool \<Rightarrow> int \<Rightarrow> stat_result" where
  "stat_of files fetch p = (case files (proc_path p ''stat'') of None \<Rightarrow> Stat_Error
     | Some content \<Rightarrow> (case fgets 512 content of None \<Rightarrow> Stat_Error
         | Some (line, _) \<Rightarrow> parse_stat fetch (c_str line)))"

definition uid_of :: "(string \<Rightarrow> string option) \<Rightarrow> int \<Rightarrow> int" where
  "uid_of files p = (case files (proc_path p ''status'') of None \<Rightarrow> -1
     | Some s \<Rightarrow> (case status_uid s of Some uid \<Rightarrow> uid | None \<Rightarrow> -1))"

text \<open>What a scan makes of the entry of a listed process.\<close>

definition rescanned :: "(string \<Rightarrow> string option) \<Rightarrow> int \<Rightarrow> ProcEntry option \<Rightarrow> ProcEntry" where
  "rescanned files p old =
    (let e0 = (case old of None \<Rightarrow> blank_entry p | Some e \<Rightarrow> e)
     in case stat_of files (old = None) p of
          Stat_Ok comm ut st \<Rightarrow>
            (let e = update_entry (old = None) comm ut st e0
             in if pe_uid e = -1 then e\<lparr>pe_uid := uid_of files p\<rparr> else e)
        | _ \<Rightarrow> e0)"


text \<open>A file system that does not change while it is read, and is as before once a stream is closed.\<close>

definition reads_files :: "'w proc_os \<Rightarrow> (string \<Rightarrow> string option) \<Rightarrow> bool" where
  "reads_files os files \<longleftrightarrow> (\<forall>path w. case pr_fopen os path w of
     (None, w') \<Rightarrow> files path = None \<and> w' = w
   | (Some (fd, s), w') \<Rightarrow> files path = Some s \<and> pr_fclose os fd w' = w)"

lemma read_pure:
  assumes "reads_files os files"
  shows "read_proc_stat os p b w = (stat_of files b p, w)" and "read_proc_uid os p w = (uid_of files p, w)"
proof -
  have f: "case pr_fopen os path w of (None, w') \<Rightarrow> files path = None \<and> w' = w
     | (Some (fd, s), w') \<Rightarrow> files path = Some s \<and> pr_fclose os fd w' = w" for path w
    by (rule assms [unfolded reads_files_def, rule_format])
  show "read_proc_stat os p b w = (stat_of files b p, w)"
    using f [of "proc_path p ''stat''" w]
    by (auto simp: read_proc_stat_def stat_of_def Let_def split: option.splits prod.splits)
  show "read_proc_uid os p w = (uid_of files p, w)"
    using f [of "proc_path p ''status''" w]
    by (auto simp: read_proc_uid_def uid_of_def split: option.splits prod.splits)
qed

lemma rescanned_pid: "(\<And>e. old = Some e \<Longrightarrow> pe_pid e = p) \<Longrightarrow> pe_pid (rescanned files p old) = p"
  by (auto simp: rescanned_def Let_def blank_entry_def split: stat_result.splits option.splits)

lemma scan_one_entry:
  assumes fs: "reads_files os files" and ok: "ps_ok ps" and room: "length (ps_entries ps) < PROC_MAX_TRACKED"
    and p: "1 < p" and run: "scan_one os p ps w = Some (ps', w')"
  shows "entry_of ps' q = (if q = p then Some (rescanned files p (entry_of ps p)) else entry_of ps q)"
    and "length (ps_entries ps') \<le> Suc (length (ps_entries ps))" and "w' = w"
proof -
  from room obtain i n ps1 where f: "find_or_alloc ps p = Some (i, n, ps1)"
    by (cases "find_entry (ps_entries ps) p") (auto simp: find_or_alloc_def)
  note fe = find_or_alloc_entry [OF f]
  have ok1: "ps_ok ps1" "i < length (ps_entries ps1)" "pe_pid (ps_entries ps1 ! i) = p"
    using find_or_alloc_props [OF ok p f] by auto
  let ?e = "ps_entries ps1 ! i"
  have "entry_of ps' q = (if q = p then Some (rescanned files p (entry_of ps p)) else entry_of ps q) \<and>
    length (ps_entries ps') \<le> Suc (length (ps_entries ps)) \<and> w' = w"
  proof (cases "stat_of files n p")
    case Stat_Error
    then have "ps' = ps1" "w' = w" using run p f by (simp_all add: scan_one_def read_pure [OF fs])
    with Stat_Error fe show ?thesis by (simp add: rescanned_def)
  next
    case (Stat_Ok c u s)
    let ?u = "update_entry n c u s ?e"
    let ?r = "if pe_uid ?u = -1 then ?u\<lparr>pe_uid := uid_of files p\<rparr> else ?u"
    have "ps' = ps1\<lparr>ps_entries := (ps_entries ps1)[i := ?r]\<rparr>" and "w' = w"
      using run p f Stat_Ok by (simp_all add: scan_one_def read_pure [OF fs] Let_def split: if_splits)
    moreover have "?r = rescanned files p (entry_of ps p)"
      using Stat_Ok fe(1,3) by (simp add: rescanned_def Let_def)
    moreover have "pe_pid ?r = p" using ok1(3) by simp
    ultimately show ?thesis using entry_of_write [OF ok1, of ?r q] fe(2,4) by simp
  qed (use run p f in \<open>simp add: scan_one_def read_pure [OF fs]\<close>)
  then show "entry_of ps' q = (if q = p then Some (rescanned files p (entry_of ps p)) else entry_of ps q)"
    "length (ps_entries ps') \<le> Suc (length (ps_entries ps))" "w' = w" by simp_all
qed

lemma scan_loop_entry:
  assumes fs: "reads_files os files"
  shows "ps_ok ps \<Longrightarrow> distinct pids \<Longrightarrow> length (ps_entries ps) + length pids \<le> PROC_MAX_TRACKED \<Longrightarrow>
    scan_pids_loop os pids ps w = Some (ps', w') \<Longrightarrow>
    entry_of ps' q = (if q \<in> set pids \<and> 1 < q then Some (rescanned files q (entry_of ps q)) else entry_of ps q)"
proof (induction pids arbitrary: ps w)
  case (Cons p pids)
  then obtain ps1 w1 where one: "scan_one os p ps w = Some (ps1, w1)"
    and rest: "scan_pids_loop os pids ps1 w1 = Some (ps', w')"
    by (auto split: option.splits)
  have ok1: "ps_ok ps1" by (rule scan_one_ok [OF Cons.prems(1) one])
  have room: "length (ps_entries ps) < PROC_MAX_TRACKED" using Cons.prems(3) by simp
  have "entry_of ps1 q = (if q = p \<and> 1 < p then Some (rescanned files p (entry_of ps p)) else entry_of ps q) \<and>
    length (ps_entries ps1) \<le> Suc (length (ps_entries ps))"
    using scan_one_entry [OF fs Cons.prems(1) room _ one] one by (cases "1 < p") (auto simp: scan_one_def)
  then show ?case using Cons.IH [OF ok1 _ _ rest] Cons.prems(2,3) by auto
qed simp

text \<open>A scan goes wrong only on a malformed stat line.\<close>

lemma scan_loop_returns:
  assumes fs: "reads_files os files"
  shows "\<forall>p \<in> set pids. \<forall>b. stat_of files b p \<noteq> Stat_UB \<Longrightarrow>
    \<exists>ps'. scan_pids_loop os pids ps w = Some (ps', w)"
proof (induction pids arbitrary: ps)
  case (Cons p pids)
  have "\<exists>ps1. scan_one os p ps w = Some (ps1, w)"
    using Cons.prems
    by (auto simp: scan_one_def read_pure [OF fs] Let_def split: option.splits stat_result.splits)
  with Cons show ?case by fastforce
qed simp

lemma entry_of_clear: "entry_of (clear_active ps) q = map_option (\<lambda>e. e\<lparr>pe_active := 0\<rparr>) (entry_of ps q)"
proof -
  have "find (\<lambda>e. pe_pid e = q) (map (\<lambda>e. e\<lparr>pe_active := 0\<rparr>) es) =
    map_option (\<lambda>e. e\<lparr>pe_active := 0\<rparr>) (find (\<lambda>e. pe_pid e = q) es)" for es
    by (induction es) auto
  then show ?thesis by (simp add: entry_of_def clear_active_def)
qed

lemma entry_of_compact:
  assumes "ps_ok ps"
  shows "entry_of (compact ps) q =
    (case entry_of ps q of None \<Rightarrow> None | Some e \<Rightarrow> if pe_active e \<noteq> 0 then Some e else None)"
proof -
  have none: "q \<notin> pe_pid ` set es \<Longrightarrow> find (\<lambda>e. pe_pid e = q) es = None" for es q
    by (auto simp: find_None_iff)
  have "distinct (map pe_pid es) \<Longrightarrow> find (\<lambda>e. pe_pid e = q) (filter (\<lambda>e. pe_active e \<noteq> 0) es) =
    (case find (\<lambda>e. pe_pid e = q) es of None \<Rightarrow> None | Some e \<Rightarrow> if pe_active e \<noteq> 0 then Some e else None)" for es
    by (induction es) (auto simp: none)
  from this [of "ps_entries ps"] assms show ?thesis unfolding entry_of_def compact_def ps_ok_def by simp
qed


subsection \<open>The kernel's stat line\<close>

text \<open>
  \<open>pid (comm) f\<^sub>1 .. f\<^sub>1\<^sub>1 utime stime ..\<close>: the process name may itself hold spaces and
  parentheses.
\<close>

definition stat_head :: "nat \<Rightarrow> string \<Rightarrow> string list \<Rightarrow> nat \<Rightarrow> nat \<Rightarrow> string" where
  "stat_head pid comm fs ut st =
    dec pid @ '' ('' @ comm @ '') '' @ concat (map (\<lambda>f. f @ '' '') fs) @ dec ut @ '' '' @ dec st @ '' ''"

definition plain :: "string \<Rightarrow> bool" where
  "plain f \<longleftrightarrow> f \<noteq> [] \<and> set f \<inter> set '' )'' = {} \<and> NL \<notin> set f \<and> NUL \<notin> set f"

lemma strchr_first: "c \<notin> set l \<Longrightarrow> strchr (l @ c # r) c = Some (length l)"
proof -
  assume "c \<notin> set l"
  then have "takeWhile (\<lambda>x. x \<noteq> c) (l @ c # r) = l" by (induction l) auto
  then show ?thesis by (simp add: strchr_def)
qed

lemma strrchr_last: "c \<notin> set r \<Longrightarrow> strrchr (l @ c # r) c = Some (length l)"
  using strchr_first [of c "rev r" "rev l"] by (simp add: strrchr_def)

lemma dec_chars: "\<not> isdigit c \<Longrightarrow> c \<notin> set (dec n)"
  using dec_isdigit by blast

lemma marks_not_digits: "\<not> isdigit (CHR '' '')" "\<not> isdigit (CHR ''('')" "\<not> isdigit (CHR '')'')"
    "\<not> isdigit NL" "\<not> isdigit NUL"
  by (simp_all add: isdigit_def)

lemma skip_plain:
  assumes "\<forall>f \<in> set fs. plain f" "t \<noteq> []" "hd t \<noteq> CHR '' ''"
  shows "skip_fields (length fs) (concat (map (\<lambda>f. f @ '' '') fs) @ t) = t"
  using assms(1)
proof (induction fs)
  case (Cons f fs)
  let ?u = "concat (map (\<lambda>f. f @ '' '') fs) @ t"
  have "dropWhile (\<lambda>c. c \<noteq> CHR '' '') (f @ '' '' @ ?u) = '' '' @ ?u"
    using Cons.prems by (subst dropWhile_append2) (auto simp: plain_def)
  moreover have "?u \<noteq> [] \<and> hd ?u \<noteq> CHR '' ''"
    using Cons.prems assms(2,3) by (cases fs) (auto simp: plain_def hd_append dest: hd_in_set)
  then have "dropWhile (\<lambda>c. c = CHR '' '') ?u = ?u" by (cases ?u) auto
  ultimately show ?case using Cons by simp
qed simp

lemma parse_stat_head:
  assumes fs: "length fs = 11" "\<forall>f \<in> set fs. plain f" and n: "ut < 2 ^ 64" "st < 2 ^ 64"
    and t: "CHR '')'' \<notin> set t"
  shows "parse_stat b (stat_head pid comm fs ut st @ t) =
    Stat_Ok (if b then take 15 comm else []) (of_nat ut) (of_nat st)"
proof -
  let ?tail = "concat (map (\<lambda>f. f @ '' '') fs) @ dec ut @ '' '' @ dec st @ '' '' @ t"
  let ?line = "stat_head pid comm fs ut st @ t"
  have sp: "CHR '' '' \<notin> set (dec ut)" "CHR '')'' \<notin> set (dec ut)" "CHR '')'' \<notin> set (dec st)"
    "CHR ''('' \<notin> set (dec pid)" using dec_chars marks_not_digits by blast+
  have "strchr ((dec pid @ '' '') @ CHR ''('' # (comm @ '') '' @ ?tail)) (CHR ''('') = Some (Suc (length (dec pid)))"
    using sp by (subst strchr_first) auto
  then have s: "strchr ?line (CHR ''('') = Some (Suc (length (dec pid)))" by (simp add: stat_head_def)
  have "CHR '')'' \<notin> set (CHR '' '' # ?tail)" using fs(2) t sp by (auto simp: plain_def)
  from strrchr_last [OF this, of "dec pid @ '' ('' @ comm"]
  have e: "strrchr ?line (CHR '')'') = Some (length (dec pid) + 2 + length comm)" by (simp add: stat_head_def)
  have skip: "skip_fields 11 ?tail = dec ut @ '' '' @ dec st @ '' '' @ t"
    using skip_plain [OF fs(2), of "dec ut @ '' '' @ dec st @ '' '' @ t"] fs(1) dec_nonempty [of ut] sp(1)
    by (metis append_is_Nil_conv hd_append2 list.set_sel(1))
  have u: "strtoull (dec ut @ '' '' @ dec st @ '' '' @ t) = (of_nat ut, '' '' @ dec st @ '' '' @ t)"
    using strtoull_dec [OF n(1), of "'' '' @ dec st @ '' '' @ t" "[]"] marks_not_digits by simp
  have v: "strtoull ('' '' @ dec st @ '' '' @ t) = (of_nat st, '' '' @ t)"
    using strtoull_dec [OF n(2), of "'' '' @ t" "'' ''"] marks_not_digits by (simp add: isspace_def)
  have "?line = (dec pid @ '' ('' @ comm @ '') '') @ ?tail" by (simp add: stat_head_def)
  then have d: "drop (length (dec pid) + 2 + length comm + 2) ?line = ?tail"
  proof -
    have "length (dec pid @ '' ('' @ comm @ '') '') = length (dec pid) + 2 + length comm + 2" by simp
    with \<open>?line = _\<close> show ?thesis by (metis append_eq_conv_conj)
  qed
  have c: "take (min 15 (length comm)) (drop (Suc (Suc (length (dec pid)))) ?line) = take 15 comm"
    by (cases "15 \<le> length comm") (simp_all add: stat_head_def)
  have l: "\<not> length ?line < length (dec pid) + 2 + length comm + 2" by (simp add: stat_head_def)
  obtain L k where L: "L = ?line" and k: "k = length (dec pid)" by blast
  have "parse_stat b L = Stat_Ok (if b then take 15 comm else []) (of_nat ut) (of_nat st)"
    using s e c l d unfolding L [symmetric] k [symmetric] parse_stat_def
    by (simp del: drop_append add: skip [simplified] u [simplified] v [simplified])
  then show ?thesis by (simp only: L)
qed

text \<open>The first 511 bytes of such a line keep everything the parser looks at.\<close>

lemma read_stat_line:
  assumes "length fs = 11" and "\<forall>f \<in> set fs. plain f" and "ut < 2 ^ 64" and "st < 2 ^ 64"
    and "NL \<notin> set comm" and "NUL \<notin> set comm" and "CHR '')'' \<notin> set t" and "NUL \<notin> set t"
    and "length (stat_head pid comm fs ut st) \<le> 511"
    and "pr_fopen os (proc_path p ''stat'') w = (Some (fd, stat_head pid comm fs ut st @ t), w')"
  shows "read_proc_stat os p b w =
    (Stat_Ok (if b then take 15 comm else []) (of_nat ut) (of_nat st), pr_fclose os fd w')"
proof -
  let ?h = "stat_head pid comm fs ut st"
  have dec: "NL \<notin> set (dec n)" "NUL \<notin> set (dec n)" for n using dec_chars marks_not_digits by blast+
  have h: "NL \<notin> set ?h" "NUL \<notin> set ?h" using assms(2,5,6) dec by (auto simp: stat_head_def plain_def)
  obtain t1 t2 where f: "fgets 512 (?h @ t) = Some (?h @ t1, t2)" and t1: "set t1 \<subseteq> set t"
    using fgets_prefix [OF h(1), of 512 t] assms(9) by (force simp: stat_head_def)
  have "NUL \<notin> set (?h @ t1)" using h(2) t1 assms(8) by auto
  then have "c_str (?h @ t1) = ?h @ t1" unfolding c_str_def takeWhile_eq_all_conv by blast
  moreover have "CHR '')'' \<notin> set t1" using t1 assms(7) by auto
  ultimately show ?thesis
    using parse_stat_head [OF assms(1-4)] by (simp add: read_proc_stat_def assms(10) f)
qed

text \<open>
  The documented format of \<^verbatim>\<open>/proc/PID/stat\<close>. A system that serves it never sends the parser
  outside its buffer, and every scan returns, whatever else it reads and however the files
  change from call to call.
\<close>

definition kernel_stat :: "string \<Rightarrow> bool" where
  "kernel_stat s \<longleftrightarrow> (\<exists>pid comm fs ut st t. s = stat_head pid comm fs ut st @ t \<and> length fs = 11 \<and>
     (\<forall>f \<in> set fs. plain f) \<and> ut < 2 ^ 64 \<and> st < 2 ^ 64 \<and> NL \<notin> set comm \<and> NUL \<notin> set comm \<and>
     CHR '')'' \<notin> set t \<and> NUL \<notin> set t \<and> length (stat_head pid comm fs ut st) \<le> 511)"

lemma kernel_statI:
  "length fs = 11 \<Longrightarrow> \<forall>f \<in> set fs. plain f \<Longrightarrow> ut < 2 ^ 64 \<Longrightarrow> st < 2 ^ 64 \<Longrightarrow> NL \<notin> set comm \<Longrightarrow> NUL \<notin> set comm \<Longrightarrow>
   CHR '')'' \<notin> set t \<Longrightarrow> NUL \<notin> set t \<Longrightarrow> length (stat_head pid comm fs ut st) \<le> 511 \<Longrightarrow>
   kernel_stat (stat_head pid comm fs ut st @ t)"
  unfolding kernel_stat_def by blast

definition serves_stat :: "'w proc_os \<Rightarrow> bool" where
  "serves_stat os \<longleftrightarrow> (\<forall>p w fd s w'. pr_fopen os (proc_path p ''stat'') w = (Some (fd, s), w') \<longrightarrow> kernel_stat s)"

lemma serves_stat_defined:
  assumes "serves_stat os" shows "fst (read_proc_stat os p b w) \<noteq> Stat_UB"
proof -
  obtain r w' where f: "pr_fopen os (proc_path p ''stat'') w = (r, w')" by (metis prod.exhaust)
  show ?thesis
  proof (cases r)
    case None
    then show ?thesis by (simp add: read_proc_stat_def f)
  next
    case (Some a)
    then obtain fd s where a: "r = Some (fd, s)" by (cases a) simp
    then have "kernel_stat s" using assms f unfolding serves_stat_def by blast
    then obtain pid comm fs ut st t where k: "s = stat_head pid comm fs ut st @ t" "length fs = 11"
      "\<forall>f \<in> set fs. plain f" "ut < 2 ^ 64" "st < 2 ^ 64" "NL \<notin> set comm" "NUL \<notin> set comm"
      "CHR '')'' \<notin> set t" "NUL \<notin> set t" "length (stat_head pid comm fs ut st) \<le> 511"
      unfolding kernel_stat_def by blast
    from read_stat_line [OF k(2-10) f [unfolded a k(1)]] show ?thesis by simp
  qed
qed

lemma serves_stat_scans:
  assumes "serves_stat os" shows "\<exists>r. scan_pids_loop os pids ps w = Some r"
proof (induction pids arbitrary: ps w)
  case (Cons pid pids)
  have "\<exists>r. scan_one os pid ps w = Some r"
    using serves_stat_defined [OF assms, of pid _ w]
    by (auto simp: scan_one_def Let_def split: option.split prod.split stat_result.split) (metis fst_conv)
  with Cons.IH show ?case by (auto split: option.split)
qed simp

lemma rescanned_active:
  assumes "\<And>e. old = Some e \<Longrightarrow> pe_active e = 0"
  shows "pe_active (rescanned files p old) \<noteq> 0 \<longleftrightarrow> (\<exists>c u s. stat_of files (old = None) p = Stat_Ok c u s)"
  using assms by (auto simp: rescanned_def Let_def blank_entry_def split: stat_result.splits option.splits)

lemma rescanned_ticks:
  assumes "stat_of files (old = None) p = Stat_Ok c u s"
  shows "total_ticks (rescanned files p old) = u + s"
    and "delta_ticks (rescanned files p old) = (case old of None \<Rightarrow> 0
      | Some e0 \<Rightarrow> if u + s > total_ticks e0 then u + s - total_ticks e0 else 0)"
  using assms by (auto simp: rescanned_def Let_def update_entry_def split: option.splits)

subsection \<open>Properties\<close>

text \<open>
  C38. A scan keeps the table well formed (distinct pids above 1, at most 1024 of them) for any
  kernel, any directory listing and any file contents. When the directory can be read, the
  processes left in the table are exactly those whose stat line was read successfully in this
  very scan, each with the times of such a reading; nothing stays from an earlier scan. When it
  cannot be read no entry stays active and the ranking is empty.
\<close>

theorem scan_table_ok:
  assumes "ps_ok ps" and "proc_scanner_scan os ps w = Some (ps', w')"
  shows "ps_ok ps' \<and>
    (case pr_opendir os w of
       (None, _) \<Rightarrow> map pe_pid (ps_entries ps') = map pe_pid (ps_entries ps) \<and> proc_scanner_top_n qsort_ref ps' n u = []
     | (Some (dir, names), w1) \<Rightarrow>
         pe_pid ` set (ps_entries ps') =
           {p. \<exists>c ut st. (p, Stat_Ok c ut st) \<in> set (scan_reads os (dir_pids names) (clear_active ps) w1)} \<and>
         (\<forall>e \<in> set (ps_entries ps'). total_ticks e = utime e + stime e \<and>
           (\<exists>c. (pe_pid e, Stat_Ok c (utime e) (stime e)) \<in> set (scan_reads os (dir_pids names) (clear_active ps) w1))))"
proof (cases "pr_opendir os w")
  case (Pair d w1)
  have c: "ps_ok (clear_active ps)" by (rule clear_active_ok [OF assms(1)])
  show ?thesis
  proof (cases d)
    case None
    with Pair assms(2) have "ps' = clear_active ps" by (simp add: proc_scanner_scan_def)
    moreover have "filter (eligible u) (ps_entries (clear_active ps)) = []"
      by (auto simp: clear_active_def eligible_def filter_empty_conv)
    ultimately show ?thesis using c None Pair
      by (simp add: proc_scanner_top_n_def qsort_ref_def) (simp add: clear_active_def)
  next
    case (Some a)
    then obtain dir names where a: "d = Some (dir, names)" by (cases a) simp
    with Pair assms(2) obtain ps2 w2 where l: "scan_pids_loop os (dir_pids names) (clear_active ps) w1 = Some (ps2, w2)"
      and ps': "ps' = compact ps2" by (auto simp: proc_scanner_scan_def Let_def split: option.splits)
    have "as_read {} (clear_active ps)" by (auto simp: as_read_def clear_active_def)
    from scan_loop_as_read [OF c this l] have "as_read (set (scan_reads os (dir_pids names) (clear_active ps) w1)) ps2"
      by simp
    then show ?thesis using compact_ok [OF scan_loop_ok [OF c l]] a Pair
      by (simp add: ps' compact_as_read) (simp add: compact_def as_read_def)
  qed
qed

definition one_proc :: "string \<Rightarrow> string option" where
  "one_proc path = (if path = ''/proc/77/stat''
     then Some (stat_head 77 ''my (odd) job'' (replicate 11 ''1'') 40 2 @ ''0 0'')
     else if path = ''/proc/77/status'' then Some ''Name: x@Uid: 1000'' else None)"

definition one_os :: "'w proc_os" where
  "one_os = \<lparr>pr_open = \<lambda>p w. (-1, w), pr_lseek = \<lambda>fd w. (-1, w), pr_read = \<lambda>fd n w. (None, w),
     pr_close = \<lambda>fd w. w, pr_fopen = \<lambda>p w. (map_option (Pair 5) (one_proc p), w), pr_fclose = \<lambda>fd w. w,
     pr_opendir = \<lambda>w. (None, w), pr_closedir = \<lambda>fd w. w, pr_gone = \<lambda>p w. (False, w)\<rparr>"

lemma one_serves_stat: "serves_stat one_os"
  unfolding serves_stat_def
proof (intro allI impI)
  fix p w fd s w'
  assume f: "pr_fopen one_os (proc_path p ''stat'') w = (Some (fd, s), w')"
  have "proc_path p ''stat'' \<noteq> ''/proc/77/status''"
  proof
    assume "proc_path p ''stat'' = ''/proc/77/status''"
    from arg_cong [OF this, of last] show False by (simp add: proc_path_def)
  qed
  then have s: "s = stat_head 77 ''my (odd) job'' (replicate 11 ''1'') 40 2 @ ''0 0''"
    using f by (simp add: one_os_def one_proc_def split: if_splits)
  have l: "length (stat_head 77 ''my (odd) job'' (replicate 11 ''1'') 40 2) \<le> 511" by code_simp
  have p: "\<forall>f \<in> set (replicate 11 ''1''). plain f" by (simp add: plain_def)
  show "kernel_stat s" unfolding s by (rule kernel_statI [OF _ p _ _ _ _ _ _ l]) simp_all
qed

text \<open>A directory that lists process 77 and another one, of which only 77 has a stat line.\<close>

definition two_os :: "'w proc_os" where
  "two_os = one_os\<lparr>pr_opendir := \<lambda>w. (Some (6, [''self'', ''77'', ''90'']), w)\<rparr>"

lemma path77: "proc_path 77 ''stat'' = ''/proc/77/stat''"
  by code_simp

lemma one_proc_stat: "stat_of one_proc b 77 = Stat_Ok (if b then ''my (odd) job'' else []) 40 2"
proof -
  let ?s = "stat_head 77 ''my (odd) job'' (replicate 11 ''1'') 40 2 @ ''0 0''"
  have "fgets 512 ?s = Some (?s, [])" by code_simp
  moreover have "c_str ?s = ?s" by code_simp
  ultimately show ?thesis
    using parse_stat_head [of "replicate 11 ''1''" 40 2 "''0 0''" b 77 "''my (odd) job''"]
    by (simp add: stat_of_def path77 one_proc_def plain_def)
qed

lemma one_reads_files: "reads_files one_os one_proc" "reads_files two_os one_proc"
  by (simp_all add: reads_files_def one_os_def two_os_def split: option.split)

definition stale_table :: ProcScanner where
  "stale_table = proc_scanner_init\<lparr>ps_entries := [(blank_entry 60)\<lparr>pe_active := 1\<rparr>, (blank_entry 90)\<lparr>pe_active := 1\<rparr>]\<rparr>"

theorem scan_table_ok_witness:
  "\<exists>ps' w'. proc_scanner_scan two_os stale_table () = Some (ps', w') \<and> pe_pid ` set (ps_entries ps') = {77}"
proof -
  have d: "dir_pids [''self'', ''77'', ''90''] = [77, 90]" by code_simp
  have e: "stat_of one_proc b 90 = Stat_Error" for b
    by (simp add: stat_of_def one_proc_def) code_simp
  have ok: "ps_ok stale_table" by (simp add: ps_ok_def stale_table_def proc_scanner_init_def blank_entry_def)
  have "\<forall>p \<in> set [77, 90]. \<forall>b. stat_of one_proc b p \<noteq> Stat_UB" by (simp add: one_proc_stat e)
  from scan_loop_returns [OF one_reads_files(2) this, of "clear_active stale_table" "()"] obtain ps2
    where l: "scan_pids_loop two_os [77, 90] (clear_active stale_table) () = Some (ps2, ())" ..
  then have run: "proc_scanner_scan two_os stale_table () = Some (compact ps2, ())"
    using d by (simp add: proc_scanner_scan_def two_os_def one_os_def)
  have "set (scan_reads two_os [77, 90] (clear_active stale_table) ()) = {(77, Stat_Ok ''my (odd) job'' 40 2), (90, Stat_Error)}"
    using l by (auto simp: scan_one_def read_pure [OF one_reads_files(2)] one_proc_stat e Let_def find_or_alloc_def
      clear_active_def stale_table_def proc_scanner_init_def blank_entry_def split: if_splits)
  then show ?thesis using scan_table_ok [OF ok run] run d by (auto simp: two_os_def)
qed

text \<open>
  C27. The stat line is read back exactly: for any process name, with spaces and parentheses in
  it too, and any eleven plain fields before the two times, the parser returns the two times
  and the first fifteen characters of the name, whatever follows (the line may be cut by the
  512-byte buffer anywhere behind the second time).
\<close>

theorem stat_line_round_trip:
  assumes "length fs = 11" and "\<forall>f \<in> set fs. plain f" and "ut < 2 ^ 64" and "st < 2 ^ 64"
    and "NL \<notin> set comm" and "NUL \<notin> set comm" and "CHR '')'' \<notin> set t" and "NUL \<notin> set t"
    and "length (stat_head pid comm fs ut st) \<le> 511"
    and "pr_fopen os (proc_path p ''stat'') w = (Some (fd, stat_head pid comm fs ut st @ t), w')"
  shows "read_proc_stat os p b w =
    (Stat_Ok (if b then take 15 comm else []) (of_nat ut) (of_nat st), pr_fclose os fd w')"
  using assms by (rule read_stat_line)

theorem stat_line_round_trip_witness:
  "read_proc_stat one_os 77 True () = (Stat_Ok ''my (odd) job'' 40 2, ())"
proof -
  have "proc_path 77 ''stat'' = ''/proc/77/stat''" by code_simp
  then have f: "pr_fopen one_os (proc_path 77 ''stat'') () =
      (Some (5, stat_head 77 ''my (odd) job'' (replicate 11 ''1'') 40 2 @ ''0 0''), ())"
    by (simp add: one_os_def one_proc_def)
  have l: "length (stat_head 77 ''my (odd) job'' (replicate 11 ''1'') 40 2) \<le> 511" by code_simp
  have p: "\<forall>f \<in> set (replicate 11 ''1''). plain f" by (simp add: plain_def)
  from stat_line_round_trip [OF _ p _ _ _ _ _ _ l f, of True] show ?thesis by (simp add: one_os_def)
qed

text \<open>
  C19. What a scan of a list of distinct pids measures: a process whose stat line is readable
  is tracked with the new total and with the ticks it consumed since it was last tracked (0
  for a process that is new or whose total went back); a pid that is not listed, or whose
  stat line cannot be read, is dropped, so it is new when it comes back.
\<close>

theorem scan_measures_cpu:
  assumes "ps_ok ps" and "reads_files os files" and "distinct (map int_of_u32 pids)"
    and "length (ps_entries ps) + length pids \<le> PROC_MAX_TRACKED"
    and "proc_scanner_scan_pids os pids ps w = Some (ps', w')"
    and "listed = (p \<in> int_of_u32 ` set pids \<and> 1 < p)"
  shows "case (if listed then stat_of files (entry_of ps p = None) p else Stat_Error) of
      Stat_Ok comm ut st \<Rightarrow> (\<exists>e. entry_of ps' p = Some e \<and> total_ticks e = ut + st \<and>
        delta_ticks e = (case entry_of ps p of None \<Rightarrow> 0
          | Some e0 \<Rightarrow> if ut + st > total_ticks e0 then ut + st - total_ticks e0 else 0))
    | _ \<Rightarrow> entry_of ps' p = None"
proof -
  from assms(5) obtain ps2 where run: "scan_pids_loop os (map int_of_u32 pids) (clear_active ps) w = Some (ps2, w')"
    and ps': "ps' = compact ps2" by (auto simp: proc_scanner_scan_pids_def split: option.splits)
  have ok: "ps_ok (clear_active ps)" by (rule clear_active_ok [OF assms(1)])
  have "length (ps_entries (clear_active ps)) + length (map int_of_u32 pids) \<le> PROC_MAX_TRACKED"
    using assms(4) by (simp add: clear_active_def)
  note e = scan_loop_entry [OF assms(2) ok assms(3) this run, of p]
  note c = entry_of_compact [OF scan_loop_ok [OF ok run], of p]
  let ?old = "map_option (\<lambda>e. e\<lparr>pe_active := 0\<rparr>) (entry_of ps p)"
  have "entry_of ps2 p = (if listed then Some (rescanned files p ?old) else ?old)"
    using e assms(6) by (simp add: entry_of_clear image_iff)
  then show ?thesis
    using c rescanned_active [where old = ?old and files = files and p = p]
      rescanned_ticks [where old = ?old and files = files and p = p]
    by (auto simp: ps' split: stat_result.splits option.splits)
qed

definition tracked77 :: ProcScanner where
  "tracked77 = proc_scanner_init\<lparr>ps_entries := [(blank_entry 77)\<lparr>total_ticks := 30, pe_active := 1\<rparr>]\<rparr>"

theorem scan_measures_cpu_witness:
  "\<exists>ps'. proc_scanner_scan_pids one_os [77] tracked77 () = Some (ps', ()) \<and>
     (\<exists>e. entry_of ps' 77 = Some e \<and> delta_ticks e = 12)"
proof -
  have ok: "ps_ok tracked77" by (simp add: ps_ok_def tracked77_def proc_scanner_init_def blank_entry_def)
  note fs = one_reads_files(1)
  have i: "int_of_u32 77 = 77" by (simp add: int_of_u32_def)
  have "\<forall>p \<in> set (map int_of_u32 [77]). \<forall>b. stat_of one_proc b p \<noteq> Stat_UB" by (simp add: i one_proc_stat)
  from scan_loop_returns [OF fs this, of "clear_active tracked77" "()"] obtain ps2
    where "scan_pids_loop one_os (map int_of_u32 [77]) (clear_active tracked77) () = Some (ps2, ())" ..
  then have run: "proc_scanner_scan_pids one_os [77] tracked77 () = Some (compact ps2, ())"
    unfolding proc_scanner_scan_pids_def by (simp only: option.case prod.case)
  have "entry_of tracked77 77 = Some ((blank_entry 77)\<lparr>total_ticks := 30, pe_active := 1\<rparr>)"
    by (simp add: entry_of_def tracked77_def blank_entry_def)
  with scan_measures_cpu [OF ok fs _ _ run refl, of 77] run show ?thesis
    by (auto simp: i one_proc_stat tracked77_def)
qed

text \<open>
  C20. The ranking returns the busiest processes: distinct pids, \<open>n\<close> of them or all that
  qualify, only of active processes that are not known to belong to a system user, and no
  qualifying process left out consumed more than one that is in. It holds for any \<open>qsort\<close>
  that sorts, whatever it does with ties.
\<close>

theorem top_n_busiest:
  assumes "c_qsort qs" and "ps_ok ps" and "r = proc_scanner_top_n qs ps n min_uid"
    and "E = {e \<in> set (ps_entries ps). eligible min_uid e}"
  shows "distinct r \<and> set r \<subseteq> pe_pid ` E \<and> length r = min (nat n) (card E) \<and>
    (\<forall>e \<in> E. \<forall>f \<in> E. pe_pid e \<in> set r \<and> pe_pid f \<notin> set r \<longrightarrow> delta_ticks f \<le> delta_ticks e)"
proof -
  let ?R = "c_qsort.ranked qs ps min_uid"
  let ?k = "nat n"
  have r: "r = map pe_pid (take ?k ?R)" using c_qsort.top_n_ranked [OF assms(1)] assms(3) by simp
  have E: "set ?R = E" using c_qsort.set_ranked [OF assms(1)] assms(4) by simp
  have inj: "inj_on pe_pid E" using assms(2,4) by (auto simp: ps_ok_def distinct_map inj_on_def)
  have d: "distinct r"
    using c_qsort.distinct_top_n [OF assms(1)] assms(2,3) by (simp add: ps_ok_def)
  have "length ?R = card E"
    using c_qsort.length_ranked [OF assms(1), of ps min_uid] assms(2,4)
    by (simp add: ps_ok_def distinct_map distinct_card [symmetric])
  moreover have "delta_ticks f \<le> delta_ticks e" if "e \<in> E" "f \<in> E" "pe_pid e \<in> set r" "pe_pid f \<notin> set r" for e f
  proof (rule c_qsort.cut_maximal [OF assms(1)])
    have sub: "set (take ?k ?R) \<subseteq> E" using E set_take_subset by fast
    from that(3) obtain e' where "e' \<in> set (take ?k ?R)" "pe_pid e' = pe_pid e" by (auto simp: r)
    with inj that(1) sub show "e \<in> set (take ?k ?R)" by (metis inj_onD subsetD)
    have "f \<notin> set (take ?k ?R)" using that(4) by (auto simp: r)
    moreover have "f \<in> set (take ?k ?R @ drop ?k ?R)" using that(2) E by simp
    ultimately show "f \<in> set (drop ?k ?R)" by (simp only: set_append) blast
  qed
  moreover have "set r \<subseteq> pe_pid ` E" using E set_take_subset [of ?k ?R] by (auto simp: r)
  moreover have "length r = min ?k (length ?R)" by (simp add: r min.commute)
  ultimately show ?thesis using d by metis
qed

definition three_procs :: ProcScanner where
  "three_procs = \<lparr>ps_entries =
     [(blank_entry 10)\<lparr>delta_ticks := 5, pe_active := 1\<rparr>,
      (blank_entry 20)\<lparr>delta_ticks := 9, pe_active := 1, pe_uid := 1000\<rparr>,
      (blank_entry 30)\<lparr>delta_ticks := 99, pe_active := 1, pe_uid := 0\<rparr>,
      (blank_entry 40)\<lparr>delta_ticks := 7, pe_active := 1\<rparr>], scan_count = 2\<rparr>"

theorem top_n_busiest_witness:
  "proc_scanner_top_n qsort_ref three_procs 2 1000 = [20, 40] \<and>
   length (proc_scanner_top_n qsort_ref three_procs 2 1000) =
     min 2 (card {e \<in> set (ps_entries three_procs). eligible 1000 e})"
proof -
  have "ps_ok three_procs" by (simp add: ps_ok_def three_procs_def blank_entry_def)
  from top_n_busiest [OF qref.c_qsort_axioms this refl refl, of 2 1000]
  have "length (proc_scanner_top_n qsort_ref three_procs 2 1000) =
     min 2 (card {e \<in> set (ps_entries three_procs). eligible 1000 e})" by simp
  moreover have "proc_scanner_top_n qsort_ref three_procs 2 1000 = [20, 40]"
    by (simp add: proc_scanner_top_n_def three_procs_def eligible_def blank_entry_def qsort_ref_def cmp_delta_desc_def)
  ultimately show ?thesis by blast
qed

end
