(* ===== verification/Clock.thy ===== *)
theory Clock
  imports Prelude
begin

text \<open>
  \<open>struct timespec\<close> and the three computations the daemon makes with it: the nanosecond
  stamp, elapsed time, and the absolute deadline of a tick. Timespecs are ordered
  lexicographically; on normalised ones this is the order of the instants they denote.
\<close>

datatype timespec = Timespec (tv_sec: int) (tv_nsec: int)

instantiation timespec :: linorder
begin

definition less_eq_timespec :: "timespec \<Rightarrow> timespec \<Rightarrow> bool" where
  "less_eq_timespec a b \<longleftrightarrow> tv_sec a < tv_sec b \<or> (tv_sec a = tv_sec b \<and> tv_nsec a \<le> tv_nsec b)"

definition less_timespec :: "timespec \<Rightarrow> timespec \<Rightarrow> bool" where
  "less_timespec a b \<longleftrightarrow> tv_sec a < tv_sec b \<or> (tv_sec a = tv_sec b \<and> tv_nsec a < tv_nsec b)"

instance
  by standard (auto simp: less_eq_timespec_def less_timespec_def timespec.expand)

end

abbreviation NSEC :: int where "NSEC \<equiv> 1000000000"

definition ts_ok :: "timespec \<Rightarrow> bool" where
  "ts_ok t \<longleftrightarrow> 0 \<le> tv_sec t \<and> 0 \<le> tv_nsec t \<and> tv_nsec t < NSEC"

definition ts_ns :: "timespec \<Rightarrow> int" where
  "ts_ns t = tv_sec t * NSEC + tv_nsec t"

text \<open>\<open>(uint64_t)tv_sec * 1000000000ULL + (uint64_t)tv_nsec\<close>\<close>

definition now_ns_of :: "timespec \<Rightarrow> u64" where
  "now_ns_of t = word_of_int (tv_sec t) * 1000000000 + word_of_int (tv_nsec t)"

text \<open>\<open>(int64_t)(a.tv_sec - b.tv_sec) * 1000000000LL + (a.tv_nsec - b.tv_nsec)\<close>\<close>

definition elapsed_ns :: "timespec \<Rightarrow> timespec \<Rightarrow> int" where
  "elapsed_ns a b = (tv_sec a - tv_sec b) * NSEC + (tv_nsec a - tv_nsec b)"

text \<open>The absolute time a tick that started at \<open>t\<close> sleeps until.\<close>

definition tick_deadline :: "timespec \<Rightarrow> int \<Rightarrow> timespec" where
  "tick_deadline t interval_ms =
    (let interval_ns = interval_ms * 1000000;
         sec = tv_sec t + interval_ns sdiv NSEC;
         nsec = tv_nsec t + interval_ns smod NSEC
     in if NSEC \<le> nsec then Timespec (sec + 1) (nsec - NSEC) else Timespec sec nsec)"

lemma elapsed_ns_eq: "elapsed_ns a b = ts_ns a - ts_ns b"
  by (simp add: elapsed_ns_def ts_ns_def algebra_simps)

lemma ts_less_iff: "ts_ok a \<Longrightarrow> ts_ok b \<Longrightarrow> a < b \<longleftrightarrow> ts_ns a < ts_ns b"
  by (auto simp: ts_ok_def ts_ns_def less_timespec_def)

lemma now_ns_of_eq: "now_ns_of t = word_of_int (ts_ns t)"
  by (simp add: now_ns_of_def ts_ns_def)

lemma sdiv_nonneg: "0 \<le> a \<Longrightarrow> 0 < b \<Longrightarrow> a sdiv b = a div b" for a b :: int
  by (cases "a = 0") (simp_all add: signed_divide_int_def)

lemma tick_deadline_exact:
  assumes "ts_ok t" "0 \<le> ms"
  shows "ts_ok (tick_deadline t ms)" and "ts_ns (tick_deadline t ms) = ts_ns t + ms * 1000000"
proof -
  let ?i = "ms * 1000000"
  have i: "0 \<le> ?i" using assms(2) by simp
  have q: "?i sdiv NSEC = ?i div NSEC" and r: "?i smod NSEC = ?i mod NSEC"
    using i by (simp_all only: sdiv_nonneg smod_nonneg)
  have m: "0 \<le> ?i mod NSEC" "?i mod NSEC < NSEC" and d: "0 \<le> ?i div NSEC" using i by simp_all
  have e: "?i div NSEC * NSEC + ?i mod NSEC = ?i" by (rule div_mult_mod_eq)
  show "ts_ok (tick_deadline t ms)"
    using assms(1) m d unfolding tick_deadline_def Let_def q r ts_ok_def by auto
  show "ts_ns (tick_deadline t ms) = ts_ns t + ?i"
    using e unfolding tick_deadline_def Let_def q r ts_ns_def by (auto simp: algebra_simps)
qed

subsection \<open>Properties\<close>

text \<open>
  C39. The deadline of a tick is a normalised time exactly \<open>interval_ms\<close> milliseconds after its
  start (so the period does not drift with the work done in the tick), and strictly later
  than the start in the order of times.
\<close>

theorem tick_deadline_correct:
  assumes "ts_ok t" and "0 < ms"
  shows "ts_ok (tick_deadline t ms) \<and> ts_ns (tick_deadline t ms) = ts_ns t + ms * 1000000 \<and>
    t < tick_deadline t ms"
  using tick_deadline_exact [OF assms(1), of ms] assms by (simp add: ts_less_iff)

theorem tick_deadline_correct_witness:
  "tick_deadline (Timespec 7 980000000) 50 = Timespec 8 30000000 \<and>
   Timespec 7 980000000 < tick_deadline (Timespec 7 980000000) 50"
  using tick_deadline_correct [of "Timespec 7 980000000" 50]
  by (simp add: ts_ok_def) (simp add: tick_deadline_def signed_divide_int_def signed_modulo_int_def)

end
