(* ===== verification/Slot_Table.thy ===== *)
theory Slot_Table
  imports Sliding_Window Perf_Counter Ebpf_Tracer Proc_Scanner Ring_Buffer Clock Config
begin

text \<open>
  The daemon's table of monitored processes (\<^verbatim>\<open>src/schedmon.c\<close>: the global arrays,
  \<open>find_slot\<close>, \<open>add_pid\<close>, \<open>remove_slot\<close>, \<open>sync_pids\<close>). The state is the record of the
  program's globals; the arrays stay parallel arrays, and the \<^emph>\<open>row\<close> of a slot, all its cells
  together, is the abstraction the properties speak about.

  All system calls are one record of functions over an abstract world. Instrumenting it with
  the multiset of open descriptors shows that the table owns every descriptor it opened.
\<close>

subsection \<open>State\<close>

record PidState =
  st_pid :: int
  st_active :: int
  io_fd :: int
  prev_cpu_id :: int
  migration_count :: u32
  prev_cycles :: u64
  prev_instructions :: u64
  prev_llc :: u64
  prev_ctx :: u64
  prev_io_proc :: u64
  prev_io_syscall :: u64
  prev_io :: u64
  prev_io_wait_ns :: u64
  prev_rq_wait_ns :: u64
  prev_io_count :: u64

definition st_zero :: PidState where
  "st_zero = \<lparr>st_pid = 0, st_active = 0, io_fd = 0, prev_cpu_id = 0, migration_count = 0,
     prev_cycles = 0, prev_instructions = 0, prev_llc = 0, prev_ctx = 0, prev_io_proc = 0,
     prev_io_syscall = 0, prev_io = 0, prev_io_wait_ns = 0, prev_rq_wait_ns = 0, prev_io_count = 0\<rparr>"

text \<open>One line of the CSV file, before formatting: the eight metrics in the order of the columns.\<close>

record csv_row =
  row_pid :: int
  row_ns :: u64
  row_metrics :: "real list"
  row_label :: "string option"

text \<open>
  The globals. \<open>g_csv\<close> is the list of rows written (\<open>None\<close> when there is no file);
  \<open>first_run\<close> and \<open>last_sync\<close> are the statics of \<open>sync_pids\<close>.
\<close>

record daemon =
  g_cfg :: DaemonConfig
  g_states :: "PidState list"
  g_win_ipc :: "SlidingWindow list"
  g_win_llc :: "SlidingWindow list"
  g_win_ctx :: "SlidingWindow list"
  g_win_io :: "SlidingWindow list"
  g_win_io_wait :: "SlidingWindow list"
  g_win_rq_wait :: "SlidingWindow list"
  g_win_migration :: "SlidingWindow list"
  g_win_io_syscall :: "SlidingWindow list"
  g_perf :: "perf_counter_t list"
  g_last_sm :: "SmoothedMetrics list"
  g_last_sm_updated_ns :: "u64 list"
  g_last_sm_valid :: "bool list"
  g_comm :: "string list"
  g_tracer :: ebpf_tracer_t
  g_rb :: "RingBuffer option"
  g_rb_dash :: "RingBuffer option"
  g_csv :: "csv_row list option"
  g_n_active :: nat
  g_scanner :: ProcScanner
  io_stats :: io_fd_stats
  first_run :: bool
  last_sync :: timespec

text \<open>
  The globals before \<open>main\<close> touches them: static storage is zero, null pointers are \<open>None\<close>. The
  zero descriptors of the unused cells are never closed: only slots below \<open>g_n_active\<close> are.
\<close>

definition globals_zero :: "DaemonConfig \<Rightarrow> daemon" where
  "globals_zero c =
    (let wins = replicate MAX_PIDS sw_init in
     \<lparr>g_cfg = c, g_states = replicate MAX_PIDS st_zero,
      g_win_ipc = wins, g_win_llc = wins, g_win_ctx = wins, g_win_io = wins, g_win_io_wait = wins,
      g_win_rq_wait = wins, g_win_migration = wins, g_win_io_syscall = wins,
      g_perf = replicate MAX_PIDS (pc_blank\<lparr>fd_cycles := 0, fd_instr := 0, fd_llc := 0\<rparr>),
      g_last_sm = replicate MAX_PIDS sm_zero, g_last_sm_updated_ns = replicate MAX_PIDS 0,
      g_last_sm_valid = replicate MAX_PIDS False, g_comm = replicate MAX_PIDS [],
      g_tracer = et_blank\<lparr>map_fd_switches := 0, map_fd_pids := 0, map_fd_io := 0, map_fd_io_wait := 0,
        map_fd_rq_wait := 0, map_fd_last_cpu := 0, map_fd_exec := 0\<rparr>,
      g_rb = None, g_rb_dash = None, g_csv = None, g_n_active = 0, g_scanner = proc_scanner_init,
      io_stats = \<lparr>io_fd_fail_count = 0, io_fd_ok_count = 0\<rparr>, first_run = True, last_sync = Timespec 0 0\<rparr>)"

text \<open>The system: every call the daemon makes, and the C library's \<open>qsort\<close>.\<close>

record 'w sys =
  sys_perf :: "'w perf_os"
  sys_bpf :: "'w bpf_os"
  sys_proc :: "'w proc_os"
  sys_shm :: "'w shm_os"
  sys_clock :: "'w \<Rightarrow> timespec \<times> 'w"
  sys_qsort :: "(ProcEntry \<Rightarrow> ProcEntry \<Rightarrow> int) \<Rightarrow> ProcEntry list \<Rightarrow> ProcEntry list"

subsection \<open>Operations\<close>

text \<open>The first used slot with the pid.\<close>

fun find_state :: "PidState list \<Rightarrow> int \<Rightarrow> nat option" where
  "find_state [] pid = None"
| "find_state (s # ss) pid = (if st_pid s = pid then Some 0 else map_option Suc (find_state ss pid))"

definition find_slot :: "daemon \<Rightarrow> int \<Rightarrow> nat option" where
  "find_slot d pid = find_state (take (g_n_active d) (g_states d)) pid"

text \<open>The baselines of a new slot: counters, tracer maps, and the I/O file.\<close>

definition seed_counters ::
  "'w sys \<Rightarrow> ebpf_tracer_t \<Rightarrow> int \<Rightarrow> perf_counter_t \<Rightarrow> 'w \<Rightarrow> PidState \<times> 'w" where
  "seed_counters os et pid pc w =
    (let st = st_zero\<lparr>st_pid := pid, st_active := 1, io_fd := -1, prev_cpu_id := -1, migration_count := 0\<rparr>;
         (r, seed, w1) = perf_counter_read (sys_perf os) pc w;
         st1 = (if r = 0 then st\<lparr>prev_cycles := rc_cycles seed, prev_instructions := rc_instructions seed,
                               prev_llc := rc_llc_misses seed\<rparr> else st);
         p = u32_of_int pid;
         io = ebpf_tracer_read_io (sys_bpf os) et p w1
     in (st1\<lparr>prev_ctx := ebpf_tracer_read_switches (sys_bpf os) et p w1, prev_io := io,
             prev_io_wait_ns := ebpf_tracer_read_io_wait_ns (sys_bpf os) et p w1,
             prev_rq_wait_ns := ebpf_tracer_read_rq_wait_ns (sys_bpf os) et p w1,
             prev_io_count := io\<rparr>, w1))"

definition seed_io ::
  "'w sys \<Rightarrow> PidState \<Rightarrow> io_fd_stats \<Rightarrow> 'w \<Rightarrow> PidState \<times> io_fd_stats \<times> 'w" where
  "seed_io os st stats w =
    (let (fd, stats', w1) = open_proc_io_fd (sys_proc os) (st_pid st) stats w in
     if 0 \<le> fd then
       (let (io, sysc, w2) = read_proc_io_fd (sys_proc os) fd 0 w1;
            ok = (io \<noteq> PROC_IO_READ_FAIL)
        in (st\<lparr>io_fd := fd, prev_io_proc := (if ok then io else 0),
              prev_io_syscall := (if ok then sysc else 0)\<rparr>, stats', w2))
     else (st\<lparr>io_fd := fd, prev_io_proc := 0, prev_io_syscall := 0\<rparr>, stats', w1))"

definition first_comm :: "'w sys \<Rightarrow> ebpf_tracer_t \<Rightarrow> int \<Rightarrow> 'w \<Rightarrow> string \<times> 'w" where
  "first_comm os et pid w =
    (let (got, comm, w1) = ebpf_tracer_pop_exec_comm (sys_bpf os) et (u32_of_int pid) [] 17 w
     in if got then (comm, w1) else read_proc_comm (sys_proc os) pid 17 w1)"

text \<open>The cells of slot \<open>i\<close> for a new process.\<close>

definition fill_slot :: "nat \<Rightarrow> PidState \<Rightarrow> perf_counter_t \<Rightarrow> string \<Rightarrow> daemon \<Rightarrow> daemon" where
  "fill_slot i st pc comm d =
     d\<lparr>g_perf := (g_perf d)[i := pc], g_states := (g_states d)[i := st],
       g_last_sm := (g_last_sm d)[i := sm_zero],
       g_last_sm_valid := (g_last_sm_valid d)[i := False],
       g_last_sm_updated_ns := (g_last_sm_updated_ns d)[i := 0],
       g_comm := (g_comm d)[i := comm],
       g_win_ipc := (g_win_ipc d)[i := sw_init], g_win_llc := (g_win_llc d)[i := sw_init],
       g_win_ctx := (g_win_ctx d)[i := sw_init], g_win_io := (g_win_io d)[i := sw_init],
       g_win_io_wait := (g_win_io_wait d)[i := sw_init],
       g_win_rq_wait := (g_win_rq_wait d)[i := sw_init],
       g_win_migration := (g_win_migration d)[i := sw_init],
       g_win_io_syscall := (g_win_io_syscall d)[i := sw_init]\<rparr>"

text \<open>The slot's index, \<open>None\<close> for -1.\<close>

definition add_pid :: "'w sys \<Rightarrow> daemon \<Rightarrow> int \<Rightarrow> 'w \<Rightarrow> nat option \<times> daemon \<times> 'w" where
  "add_pid os d pid w =
    (if MAX_PIDS \<le> g_n_active d then (None, d, w) else
     let i = g_n_active d; (r, pc, w1) = perf_counter_open (sys_perf os) pid (-1) w in
     if r \<noteq> 0 then
       (let (pc', w2) = perf_counter_close (sys_perf os) pc w1
        in (None, d\<lparr>g_perf := (g_perf d)[i := pc']\<rparr>, w2))
     else
       (let (st1, w2) = seed_counters os (g_tracer d) pid pc w1;
            (st2, stats, w3) = seed_io os st1 (io_stats d) w2;
            (comm, w4) = first_comm os (g_tracer d) pid w3;
            w5 = ebpf_tracer_register_pid (sys_bpf os) (g_tracer d) (u32_of_int pid) w4
        in (Some i, (fill_slot i st2 pc comm d)\<lparr>io_stats := stats, g_n_active := g_n_active d + 1\<rparr>, w5)))"

text \<open>\<open>if (i != last) a[i] = a[last]\<close>, for every array of the table.\<close>

definition move_last :: "nat \<Rightarrow> nat \<Rightarrow> 'a list \<Rightarrow> 'a list" where
  "move_last k i xs = (if i \<noteq> k then xs[i := xs ! k] else xs)"

text \<open>The system calls of a removal: unregister, close the I/O file, close the counters.\<close>

definition release_slot :: "'w sys \<Rightarrow> ebpf_tracer_t \<Rightarrow> PidState \<Rightarrow> perf_counter_t \<Rightarrow> 'w
    \<Rightarrow> PidState \<times> perf_counter_t \<times> 'w" where
  "release_slot os et st pc w =
    (let w1 = ebpf_tracer_unregister_pid (sys_bpf os) et (u32_of_int (st_pid st)) w;
         (st', w2) = (if 0 \<le> io_fd st then (st\<lparr>io_fd := -1\<rparr>, pr_close (sys_proc os) (io_fd st) w1)
                      else (st, w1));
         (pc', w3) = perf_counter_close (sys_perf os) pc w2
     in (st', pc', w3))"

definition remove_slot :: "'w sys \<Rightarrow> nat \<Rightarrow> daemon \<Rightarrow> 'w \<Rightarrow> daemon \<times> 'w" where
  "remove_slot os i d w =
    (let (st, pc, w1) = release_slot os (g_tracer d) (g_states d ! i) (g_perf d ! i) w;
         k = g_n_active d - 1
     in (d\<lparr>g_states := move_last k i ((g_states d)[i := st]),
           g_win_ipc := move_last k i (g_win_ipc d),
           g_win_llc := move_last k i (g_win_llc d),
           g_win_ctx := move_last k i (g_win_ctx d),
           g_win_io := move_last k i (g_win_io d),
           g_win_io_wait := move_last k i (g_win_io_wait d),
           g_win_rq_wait := move_last k i (g_win_rq_wait d),
           g_win_migration := move_last k i (g_win_migration d),
           g_win_io_syscall := move_last k i (g_win_io_syscall d),
           g_perf := move_last k i ((g_perf d)[i := pc]),
           g_last_sm := move_last k i (g_last_sm d),
           g_last_sm_valid := (move_last k i (g_last_sm_valid d))[k := False],
           g_last_sm_updated_ns := (move_last k i (g_last_sm_updated_ns d))[k := 0],
           g_comm := move_last k i (g_comm d),
           g_n_active := k\<rparr>, w1))"

lemma n_active_remove [simp]: "g_n_active (fst (remove_slot os i d w)) = g_n_active d - 1"
  by (simp add: remove_slot_def Let_def split: prod.split)

text \<open>
  \<open>for (i = 0; i < n_active; ) if (..) remove_slot(i); else i++;\<close> for a test of the slot's
  state that may consult the system.
\<close>

function prune :: "'w sys \<Rightarrow> (PidState \<Rightarrow> 'w \<Rightarrow> bool \<times> 'w) \<Rightarrow> nat \<Rightarrow> daemon \<Rightarrow> 'w \<Rightarrow> daemon \<times> 'w" where
  "prune os drop_it i d w =
    (if g_n_active d \<le> i then (d, w) else
     let (b, w1) = drop_it (g_states d ! i) w
     in if b then prune os drop_it i (fst (remove_slot os i d w1)) (snd (remove_slot os i d w1))
        else prune os drop_it (i + 1) d w1)"
  by pat_completeness auto
termination
  by (relation "measure (\<lambda>(os, drop_it, i, d, w). g_n_active d - i)") (auto simp: case_prod_beta)

declare prune.simps [simp del]

definition prune_gone :: "'w sys \<Rightarrow> daemon \<Rightarrow> 'w \<Rightarrow> daemon \<times> 'w" where
  "prune_gone os d w = prune os (\<lambda>st w. pr_gone (sys_proc os) (st_pid st) w) 0 d w"

definition prune_inactive :: "'w sys \<Rightarrow> daemon \<Rightarrow> 'w \<Rightarrow> daemon \<times> 'w" where
  "prune_inactive os d w = prune os (\<lambda>st w. (st_active st = 0, w)) 0 d w"

fun add_missing :: "'w sys \<Rightarrow> int list \<Rightarrow> daemon \<Rightarrow> 'w \<Rightarrow> daemon \<times> 'w" where
  "add_missing os [] d w = (d, w)"
| "add_missing os (p # ps) d w =
    (case find_slot d p of
       Some i \<Rightarrow> add_missing os ps d w
     | None \<Rightarrow> (let (i, d1, w1) = add_pid os d p w in add_missing os ps d1 w1))"

definition set_active :: "nat option \<Rightarrow> daemon \<Rightarrow> daemon" where
  "set_active slot d = (case slot of None \<Rightarrow> d
     | Some i \<Rightarrow> d\<lparr>g_states := (g_states d)[i := (g_states d ! i)\<lparr>st_active := 1\<rparr>]\<rparr>)"

fun mark_top :: "'w sys \<Rightarrow> int list \<Rightarrow> daemon \<Rightarrow> 'w \<Rightarrow> daemon \<times> 'w" where
  "mark_top os [] d w = (d, w)"
| "mark_top os (p # ps) d w =
    (let (slot, d1, w1) = (case find_slot d p of Some i \<Rightarrow> (Some i, d, w) | None \<Rightarrow> add_pid os d p w)
     in mark_top os ps (set_active slot d1) w1)"

definition clear_slots :: "daemon \<Rightarrow> daemon" where
  "clear_slots d = d\<lparr>g_states := map (\<lambda>st. st\<lparr>st_active := 0\<rparr>) (take (g_n_active d) (g_states d))
     @ drop (g_n_active d) (g_states d)\<rparr>"

text \<open>The two modes, once the scan is done.\<close>

definition sync_explicit :: "'w sys \<Rightarrow> daemon \<Rightarrow> 'w \<Rightarrow> daemon \<times> 'w" where
  "sync_explicit os d w = (let (d1, w1) = add_missing os (cfg_pids (g_cfg d)) d w in prune_gone os d1 w1)"

definition sync_top :: "'w sys \<Rightarrow> daemon \<Rightarrow> 'w \<Rightarrow> daemon \<times> 'w" where
  "sync_top os d w =
    (let c = g_cfg d;
         fetch_n = (if int MAX_PIDS < top_n c then int MAX_PIDS else top_n c);
         top = proc_scanner_top_n (sys_qsort os) (g_scanner d) fetch_n (min_uid c);
         (d1, w1) = mark_top os top (clear_slots d) w
     in prune_inactive os d1 w1)"

definition scan_processes :: "'w sys \<Rightarrow> daemon \<Rightarrow> 'w \<Rightarrow> (ProcScanner \<times> 'w) option" where
  "scan_processes os d w =
    (if n_pids (g_cfg d) = 0 then proc_scanner_scan (sys_proc os) (g_scanner d) w
     else proc_scanner_scan_pids (sys_proc os) (map u32_of_int (cfg_pids (g_cfg d))) (g_scanner d) w)"

definition sync_slots :: "'w sys \<Rightarrow> daemon \<Rightarrow> 'w \<Rightarrow> daemon \<times> 'w" where
  "sync_slots os d w = (if 0 < n_pids (g_cfg d) then sync_explicit os d w else sync_top os d w)"

definition sync_pids :: "'w sys \<Rightarrow> daemon \<Rightarrow> 'w \<Rightarrow> (daemon \<times> 'w) option" where
  "sync_pids os d w =
    (let (now, w1) = sys_clock os w in
     if \<not> first_run d \<and> elapsed_ns now (last_sync d) < NSEC then Some (d, w1)
     else case scan_processes os (d\<lparr>first_run := False, last_sync := now\<rparr>) w1 of
            None \<Rightarrow> None
          | Some (sc, w2) \<Rightarrow>
              Some (sync_slots os (d\<lparr>first_run := False, last_sync := now, g_scanner := sc\<rparr>) w2))"

subsection \<open>Rows\<close>

text \<open>All the cells of one slot.\<close>

record slot =
  sl_state :: PidState
  sl_wins :: "SlidingWindow list"
  sl_perf :: perf_counter_t
  sl_sm :: SmoothedMetrics
  sl_updated :: u64
  sl_valid :: bool
  sl_comm :: string

definition row :: "daemon \<Rightarrow> nat \<Rightarrow> slot" where
  "row d i = \<lparr>sl_state = g_states d ! i,
     sl_wins = [g_win_ipc d ! i, g_win_llc d ! i, g_win_ctx d ! i, g_win_io d ! i, g_win_io_wait d ! i,
       g_win_rq_wait d ! i, g_win_migration d ! i, g_win_io_syscall d ! i],
     sl_perf = g_perf d ! i, sl_sm = g_last_sm d ! i, sl_updated = g_last_sm_updated_ns d ! i,
     sl_valid = g_last_sm_valid d ! i, sl_comm = g_comm d ! i\<rparr>"

definition rows :: "daemon \<Rightarrow> slot list" where
  "rows d = map (row d) [0..<g_n_active d]"

abbreviation sl_pid :: "slot \<Rightarrow> int" where "sl_pid r \<equiv> st_pid (sl_state r)"

definition fresh_slot :: "PidState \<Rightarrow> perf_counter_t \<Rightarrow> string \<Rightarrow> slot" where
  "fresh_slot st pc comm = \<lparr>sl_state = st, sl_wins = [sw_init, sw_init, sw_init, sw_init, sw_init, sw_init, sw_init, sw_init],
      sl_perf = pc, sl_sm = sm_zero,
     sl_updated = 0, sl_valid = False, sl_comm = comm\<rparr>"

text \<open>Every array has its declared size and the used prefix fits.\<close>

definition arrays_ok :: "daemon \<Rightarrow> bool" where
  "arrays_ok d \<longleftrightarrow> g_n_active d \<le> MAX_PIDS \<and> length (g_states d) = MAX_PIDS \<and>
     length (g_win_ipc d) = MAX_PIDS \<and> length (g_win_llc d) = MAX_PIDS \<and>
     length (g_win_ctx d) = MAX_PIDS \<and> length (g_win_io d) = MAX_PIDS \<and>
     length (g_win_io_wait d) = MAX_PIDS \<and> length (g_win_rq_wait d) = MAX_PIDS \<and>
     length (g_win_migration d) = MAX_PIDS \<and> length (g_win_io_syscall d) = MAX_PIDS \<and>
     length (g_perf d) = MAX_PIDS \<and> length (g_last_sm d) = MAX_PIDS \<and>
     length (g_last_sm_updated_ns d) = MAX_PIDS \<and> length (g_last_sm_valid d) = MAX_PIDS \<and>
     length (g_comm d) = MAX_PIDS"

text \<open>The globals a row does not show, and that no table operation changes.\<close>

definition frame :: "daemon \<Rightarrow> DaemonConfig \<times> ebpf_tracer_t \<times> RingBuffer option \<times> RingBuffer option
    \<times> csv_row list option \<times> ProcScanner" where
  "frame d = (g_cfg d, g_tracer d, g_rb d, g_rb_dash d, g_csv d, g_scanner d)"

lemma length_rows [simp]: "length (rows d) = g_n_active d"
  by (simp add: rows_def)

lemma nth_rows [simp]: "i < g_n_active d \<Longrightarrow> rows d ! i = row d i"
  by (simp add: rows_def)

lemma rows_eqI:
  assumes "g_n_active d = length rs" "\<And>i. i < length rs \<Longrightarrow> row d i = rs ! i"
  shows "rows d = rs"
  using assms by (auto simp: rows_def intro: nth_equalityI)

lemma length_move_last [simp]: "length (move_last k i xs) = length xs"
  by (simp add: move_last_def)

lemma nth_move_last: "i < length xs \<Longrightarrow> move_last k i xs ! j = (if j = i then xs ! k else xs ! j)"
  by (auto simp: move_last_def nth_list_update)

text \<open>A removal moves the last row into the hole and drops the last row.\<close>

lemma remove_rows [views]:
  assumes ok: "arrays_ok d" and i: "i < g_n_active d"
  shows "rows (fst (remove_slot os i d w)) = butlast ((rows d)[i := last (rows d)])"
proof (rule rows_eqI)
  show "g_n_active (fst (remove_slot os i d w)) = length (butlast ((rows d)[i := last (rows d)]))" by simp
next
  fix j assume "j < length (butlast ((rows d)[i := last (rows d)]))"
  then have j: "j < g_n_active d - 1" by simp
  let ?k = "g_n_active d - 1"
  have l: "last (rows d) = row d ?k" using i by (subst last_conv_nth) (auto simp: rows_def)
  have len: "i < MAX_PIDS" "?k < MAX_PIDS" "j < MAX_PIDS" "j \<noteq> ?k" using ok i j by (auto simp: arrays_ok_def)
  have "row (fst (remove_slot os i d w)) j = (if j = i then row d ?k else row d j)"
  proof (cases "j = i")
    case True
    with len ok j show ?thesis
      by (simp add: remove_slot_def Let_def row_def nth_move_last arrays_ok_def split: prod.split)
  next
    case False
    with len ok j show ?thesis
      by (simp add: remove_slot_def Let_def row_def nth_move_last arrays_ok_def split: prod.split)
  qed
  then show "row (fst (remove_slot os i d w)) j = butlast ((rows d)[i := last (rows d)]) ! j"
    using i j l by (simp add: nth_butlast nth_list_update)
qed

lemma remove_arrays [keeps]: "arrays_ok d \<Longrightarrow> arrays_ok (fst (remove_slot os i d w))"
  by (auto simp: remove_slot_def Let_def arrays_ok_def split: prod.split)

lemma remove_frame [simp]: "frame (fst (remove_slot os i d w)) = frame d"
  by (simp add: remove_slot_def Let_def frame_def split: prod.split)

lemma mset_remove_rows:
  assumes "arrays_ok d" "i < g_n_active d"
  shows "mset (rows (fst (remove_slot os i d w))) = mset (rows d) - {#row d i#}"
proof -
  let ?rs = "rows d"
  have ne: "?rs \<noteq> []" and i: "i < length ?rs" using assms(2) by (auto simp flip: length_0_conv)
  have "mset (butlast (?rs[i := last ?rs])) = mset (?rs[i := last ?rs]) - {#last ?rs#}"
  proof (cases "i = length ?rs - 1")
    case True
    then have "?rs[i := last ?rs] = ?rs" using ne by (simp add: last_conv_nth)
    then show ?thesis using ne by (metis append_butlast_last_id add_diff_cancel_right' mset_append mset_single_iff_right
          union_code mset.simps(1) mset.simps(2))
  next
    case False
    then have "last (?rs[i := last ?rs]) = last ?rs" using i ne by (simp add: last_list_update)
    moreover have "?rs[i := last ?rs] \<noteq> []" using ne by simp
    ultimately show ?thesis by (metis append_butlast_last_id mset_append mset.simps add_diff_cancel_right')
  qed
  also have "mset (?rs[i := last ?rs]) = add_mset (last ?rs) (mset ?rs - {#?rs ! i#})"
    using i by (simp add: mset_update)
  finally show ?thesis using assms by (simp add: remove_rows)
qed

subsection \<open>Adding and finding\<close>

abbreviation slot_pids :: "daemon \<Rightarrow> int list" where "slot_pids d \<equiv> map sl_pid (rows d)"

lemma find_state_Some: "find_state ss p = Some i \<Longrightarrow> i < length ss \<and> st_pid (ss ! i) = p"
  by (induction ss arbitrary: i) (auto split: if_splits)

lemma find_state_None: "find_state ss p = None \<longleftrightarrow> p \<notin> st_pid ` set ss"
  by (induction ss) auto

lemma slot_pids_states: "arrays_ok d \<Longrightarrow> slot_pids d = map st_pid (take (g_n_active d) (g_states d))"
  by (auto simp: rows_def row_def arrays_ok_def intro: nth_equalityI)

lemma find_slot_Some:
  assumes "arrays_ok d" "find_slot d p = Some i"
  shows "i < g_n_active d \<and> sl_pid (row d i) = p"
  using find_state_Some [of "take (g_n_active d) (g_states d)" p i] assms
  by (auto simp: find_slot_def row_def)

lemma find_slot_None:
  assumes "arrays_ok d" shows "find_slot d p = None \<longleftrightarrow> p \<notin> set (slot_pids d)"
proof -
  have "set (slot_pids d) = st_pid ` set (take (g_n_active d) (g_states d))"
    by (simp only: slot_pids_states [OF assms] set_map)
  then show ?thesis by (simp add: find_slot_def find_state_None)
qed

lemma seed_counters_pid:
  assumes "seed_counters os et pid pc w = (st, w')"
  shows "st_pid st = pid \<and> st_active st = 1 \<and> prev_cpu_id st = -1 \<and> migration_count st = 0 \<and> io_fd st = -1"
  using assms by (auto simp: seed_counters_def Let_def st_zero_def split: prod.splits if_splits)

lemma seed_io_pid:
  assumes "seed_io os st stats w = (st', stats', w')"
  shows "st_pid st' = st_pid st \<and> st_active st' = st_active st \<and> prev_cpu_id st' = prev_cpu_id st \<and>
    migration_count st' = migration_count st"
  using assms by (auto simp: seed_io_def Let_def split: prod.splits if_splits)

text \<open>A new slot starts from nothing: empty windows, no valid sample, no CPU seen.\<close>

definition new_row :: "int \<Rightarrow> slot \<Rightarrow> bool" where
  "new_row p r \<longleftrightarrow> (\<exists>st pc comm. r = fresh_slot st pc comm \<and> st_pid st = p \<and> st_active st = 1 \<and>
     prev_cpu_id st = -1 \<and> migration_count st = 0)"

lemma add_pid_rows:
  assumes ok: "arrays_ok d" and run: "add_pid os d p w = (slot, d', w')"
  shows "arrays_ok d'" and "frame d' = frame d"
    and "slot = None \<and> rows d' = rows d \<or>
      slot = Some (g_n_active d) \<and> (\<exists>r. new_row p r \<and> rows d' = rows d @ [r])"
proof -
  let ?n = "g_n_active d"
  have "arrays_ok d' \<and> frame d' = frame d \<and> (slot = None \<and> rows d' = rows d \<or>
      slot = Some ?n \<and> (\<exists>r. new_row p r \<and> rows d' = rows d @ [r]))"
  proof (cases "MAX_PIDS \<le> ?n")
    case True
    with ok run show ?thesis by (simp add: add_pid_def)
  next
    case False
    obtain e pc w1 where o: "perf_counter_open (sys_perf os) p (-1) w = (e, pc, w1)" by (metis prod_cases3)
    show ?thesis
    proof (cases "e = 0")
      case e: False
      obtain pc' w2 where c: "perf_counter_close (sys_perf os) pc w1 = (pc', w2)" by (metis prod.exhaust)
      have d': "d' = d\<lparr>g_perf := (g_perf d)[?n := pc']\<rparr>" "slot = None"
        using run False e by (simp_all add: add_pid_def o c)
      have "row d' i = row d i" if "i < ?n" for i using that by (simp add: d' row_def)
      then have "rows d' = rows d" by (simp add: rows_def d')
      with ok d' show ?thesis by (simp add: arrays_ok_def frame_def)
    next
      case e: True
      obtain st1 w2 where s1: "seed_counters os (g_tracer d) p pc w1 = (st1, w2)" by (metis prod.exhaust)
      obtain st2 stats w3 where s2: "seed_io os st1 (io_stats d) w2 = (st2, stats, w3)" by (metis prod_cases3)
      obtain comm w4 where s3: "first_comm os (g_tracer d) p w3 = (comm, w4)" by (metis prod.exhaust)
      let ?f = "fill_slot ?n st2 pc comm d"
      have d': "slot = Some ?n" "d' = ?f\<lparr>io_stats := stats, g_n_active := ?n + 1\<rparr>"
        using run False e by (simp_all add: add_pid_def o s1 s2 s3 Let_def)
      have len: "?n < MAX_PIDS" using False by simp
      have "row d' i = (if i = ?n then fresh_slot st2 pc comm else row d i)" if "i \<le> ?n" for i
        using that ok len by (simp add: d' fill_slot_def row_def fresh_slot_def arrays_ok_def)
      then have "rows d' = rows d @ [fresh_slot st2 pc comm]" using d' by (simp add: rows_def)
      moreover have "new_row p (fresh_slot st2 pc comm)"
        using seed_counters_pid [OF s1] seed_io_pid [OF s2] unfolding new_row_def by auto
      ultimately show ?thesis using ok d' len by (auto simp: arrays_ok_def frame_def fill_slot_def)
    qed
  qed
  then show "arrays_ok d'" "frame d' = frame d" "slot = None \<and> rows d' = rows d \<or>
      slot = Some ?n \<and> (\<exists>r. new_row p r \<and> rows d' = rows d @ [r])" by blast+
qed

subsection \<open>The loops\<close>

text \<open>What a slot holds apart from the mark of the current synchronisation.\<close>

definition history :: "slot \<Rightarrow> slot" where
  "history r = r\<lparr>sl_state := (sl_state r)\<lparr>st_active := 0\<rparr>\<rparr>"

lemma history_eqD: "history r = history r' \<Longrightarrow> sl_pid r = sl_pid r' \<and> sl_wins r = sl_wins r' \<and>
    sl_perf r = sl_perf r' \<and> sl_sm r = sl_sm r' \<and> sl_valid r = sl_valid r'"
  by (cases r; cases r'; cases "sl_state r"; cases "sl_state r'") (simp add: history_def)

lemma slot_pids_history: "slot_pids d = map sl_pid (map history (rows d))"
  by (simp add: history_def)

lemma set_active_rows:
  assumes "arrays_ok d" "i < g_n_active d"
  shows "rows (set_active (Some i) d) = (rows d)[i := (row d i)\<lparr>sl_state := (sl_state (row d i))\<lparr>st_active := 1\<rparr>\<rparr>]"
proof (rule rows_eqI)
  fix j assume "j < length ((rows d)[i := (row d i)\<lparr>sl_state := (sl_state (row d i))\<lparr>st_active := 1\<rparr>\<rparr>])"
  with assms show "row (set_active (Some i) d) j = (rows d)[i := (row d i)\<lparr>sl_state := (sl_state (row d i))\<lparr>st_active := 1\<rparr>\<rparr>] ! j"
    by (auto simp: set_active_def row_def nth_list_update arrays_ok_def)
qed (simp add: set_active_def)

lemma set_active_props:
  assumes "arrays_ok d" "i < g_n_active d"
  shows "arrays_ok (set_active (Some i) d)" and "frame (set_active (Some i) d) = frame d"
    and "map history (rows (set_active (Some i) d)) = map history (rows d)"
proof -
  show "arrays_ok (set_active (Some i) d)" using assms(1) by (simp add: set_active_def arrays_ok_def)
  show "frame (set_active (Some i) d) = frame d" by (simp add: set_active_def frame_def)
  show "map history (rows (set_active (Some i) d)) = map history (rows d)"
    using assms by (simp add: set_active_rows map_update list_update_same_conv history_def)
qed

text \<open>The rows are marked exactly when their pid is in \<open>A\<close>.\<close>

definition marked_by :: "int set \<Rightarrow> daemon \<Rightarrow> bool" where
  "marked_by A d \<longleftrightarrow> (\<forall>r \<in> set (rows d). st_active (sl_state r) \<noteq> 0 \<longleftrightarrow> sl_pid r \<in> A)"

lemma marked_by_set_active:
  assumes ok: "arrays_ok d" and i: "i < g_n_active d" and m: "marked_by A d"
    and dist: "distinct (slot_pids d)"
  shows "marked_by (insert (sl_pid (row d i)) A) (set_active (Some i) d)"
  unfolding marked_by_def all_set_conv_all_nth
proof (intro allI impI)
  fix j assume "j < length (rows (set_active (Some i) d))"
  then have j: "j < g_n_active d" using i ok by (simp add: set_active_rows)
  have ne: "j \<noteq> i \<Longrightarrow> sl_pid (row d j) \<noteq> sl_pid (row d i)"
    using dist i j by (auto simp: distinct_conv_nth)
  have "st_active (sl_state (row d j)) \<noteq> 0 \<longleftrightarrow> sl_pid (row d j) \<in> A"
    using m j by (simp add: marked_by_def all_set_conv_all_nth)
  then show "(st_active (sl_state (rows (set_active (Some i) d) ! j)) \<noteq> 0) =
      (sl_pid (rows (set_active (Some i) d) ! j) \<in> insert (sl_pid (row d i)) A)"
    using j ne unfolding set_active_rows [OF ok i] by (cases "j = i") auto
qed

definition table_ok :: "daemon \<Rightarrow> bool" where
  "table_ok d \<longleftrightarrow> arrays_ok d \<and> distinct (slot_pids d)"

text \<open>\<open>d'\<close> continues \<open>d\<close>: the old slots keep their histories, new ones start from nothing.\<close>

definition continues :: "daemon \<Rightarrow> int set \<Rightarrow> daemon \<Rightarrow> bool" where
  "continues d P d' \<longleftrightarrow> table_ok d' \<and> frame d' = frame d \<and>
     (\<exists>new. map history (rows d') = map history (rows d) @ map history new \<and>
        (\<forall>r \<in> set new. new_row (sl_pid r) r \<and> sl_pid r \<in> P \<and> sl_pid r \<notin> set (slot_pids d)))"

lemma continues_refl: "table_ok d \<Longrightarrow> continues d P d"
  by (auto simp: continues_def intro: exI [of _ "[]"])

lemma continues_trans:
  assumes "continues d P d'" "continues d' Q d''"
  shows "continues d (P \<union> Q) d''"
proof -
  obtain n1 where n1: "map history (rows d') = map history (rows d) @ map history n1"
    "\<forall>r \<in> set n1. new_row (sl_pid r) r \<and> sl_pid r \<in> P \<and> sl_pid r \<notin> set (slot_pids d)"
    using assms(1) by (auto simp: continues_def)
  obtain n2 where n2: "map history (rows d'') = map history (rows d') @ map history n2"
    "\<forall>r \<in> set n2. new_row (sl_pid r) r \<and> sl_pid r \<in> Q \<and> sl_pid r \<notin> set (slot_pids d')"
    using assms(2) by (auto simp: continues_def)
  have "slot_pids d' = slot_pids d @ map sl_pid n1"
    unfolding slot_pids_history n1(1) by (simp add: history_def)
  then have "\<forall>r \<in> set (n1 @ n2). new_row (sl_pid r) r \<and> sl_pid r \<in> P \<union> Q \<and> sl_pid r \<notin> set (slot_pids d)"
    using n1(2) n2(2) by auto
  moreover have "map history (rows d'') = map history (rows d) @ map history (n1 @ n2)"
    using n1(1) n2(1) by simp
  ultimately show ?thesis using assms unfolding continues_def by metis
qed

lemma continues_mono: "continues d P d' \<Longrightarrow> P \<subseteq> Q \<Longrightarrow> continues d Q d'"
  unfolding continues_def by blast

lemma add_pid_continues:
  assumes ok: "table_ok d" and p: "p \<notin> set (slot_pids d)" and run: "add_pid os d p w = (slot, d', w')"
  shows "continues d {p} d'" and "slot = None \<longrightarrow> rows d' = rows d"
    and "slot = Some i \<longrightarrow> i < g_n_active d' \<and> sl_pid (row d' i) = p"
    and "marked_by A d \<Longrightarrow> marked_by (insert p A) d'"
proof -
  have a: "arrays_ok d" using ok by (simp add: table_ok_def)
  note r = add_pid_rows [OF a run]
  have c: "continues d {p} d' \<and> (slot = None \<longrightarrow> rows d' = rows d) \<and>
    (slot = Some i \<longrightarrow> i < g_n_active d' \<and> sl_pid (row d' i) = p) \<and>
    (marked_by A d \<longrightarrow> marked_by (insert p A) d')"
  proof (cases slot)
    case None
    then have "rows d' = rows d" using r(3) by simp
    moreover have "marked_by A d \<longrightarrow> marked_by (insert p A) d'"
      using p \<open>rows d' = rows d\<close> by (auto simp: marked_by_def)
    ultimately show ?thesis using ok r None by (auto simp: continues_def table_ok_def intro: exI [of _ "[]"])
  next
    case (Some k)
    then obtain x where x: "new_row p x" "rows d' = rows d @ [x]" and k: "k = g_n_active d" using r(3) by auto
    have xp: "sl_pid x = p" "st_active (sl_state x) \<noteq> 0" using x(1) by (auto simp: new_row_def fresh_slot_def)
    have n: "g_n_active d' = Suc (g_n_active d)" using arg_cong [OF x(2), of length] by simp
    have "row d' k = x" using x(2) k n nth_rows [of k d'] by (simp add: nth_append)
    moreover have "table_ok d'" using ok p x r(1) xp by (auto simp: table_ok_def)
    moreover have "marked_by A d \<longrightarrow> marked_by (insert p A) d'"
      using p x(2) xp by (auto simp: marked_by_def image_iff)
    ultimately show ?thesis using x xp r(2) n k p Some
      by (auto simp: continues_def intro!: exI [of _ "[x]"])
  qed
  show "continues d {p} d'" "slot = None \<longrightarrow> rows d' = rows d"
    "slot = Some i \<longrightarrow> i < g_n_active d' \<and> sl_pid (row d' i) = p"
    "marked_by A d \<Longrightarrow> marked_by (insert p A) d'" using c by blast+
qed

lemma set_active_continues:
  assumes "table_ok d" "i < g_n_active d"
  shows "continues d P (set_active (Some i) d)"
proof -
  have a: "arrays_ok d" using assms by (simp add: table_ok_def)
  have "slot_pids (set_active (Some i) d) = slot_pids d"
    unfolding slot_pids_history set_active_props(3) [OF a assms(2)] ..
  with set_active_props [OF a assms(2)] assms show ?thesis
    by (auto simp: continues_def table_ok_def intro: exI [of _ "[]"])
qed

lemma mark_top_continues:
  "table_ok d \<Longrightarrow> marked_by A d \<Longrightarrow> mark_top os ps d w = (d', w') \<Longrightarrow>
   continues d (set ps) d' \<and> marked_by (A \<union> set ps) d'"
proof (induction ps arbitrary: d w A)
  case Nil
  then show ?case by (simp add: continues_refl)
next
  case (Cons p ps)
  obtain slot d1 w1 where s: "(case find_slot d p of Some i \<Rightarrow> (Some i, d, w) | None \<Rightarrow> add_pid os d p w) = (slot, d1, w1)"
    by (metis prod_cases3)
  have rest: "mark_top os ps (set_active slot d1) w1 = (d', w')" using Cons.prems(3) by (simp add: s)
  have a: "arrays_ok d" using Cons.prems(1) by (simp add: table_ok_def)
  have "continues d {p} (set_active slot d1) \<and> marked_by (insert p A) (set_active slot d1)"
  proof (cases "find_slot d p")
    case (Some i)
    then have e: "slot = Some i" "d1 = d" using s by auto
    note f = find_slot_Some [OF a Some]
    then show ?thesis
      using set_active_continues [of d i "{p}"] marked_by_set_active [OF a _ Cons.prems(2), of i] Cons.prems(1)
      by (auto simp: e table_ok_def)
  next
    case None
    then have np: "p \<notin> set (slot_pids d)" using find_slot_None [OF a] by blast
    have add: "add_pid os d p w = (slot, d1, w1)" using s None by simp
    note c = add_pid_continues [OF Cons.prems(1) np add]
    show ?thesis
    proof (cases slot)
      case None
      then show ?thesis using c(1) c(4) [OF Cons.prems(2)] by (simp add: set_active_def)
    next
      case (Some i)
      have ok1: "table_ok d1" using c(1) by (simp add: continues_def)
      have i: "i < g_n_active d1" "sl_pid (row d1 i) = p" using c(3) Some by auto
      have "continues d ({p} \<union> {p}) (set_active (Some i) d1)"
        using continues_trans [OF c(1) set_active_continues [OF ok1 i(1)]] .
      moreover have "marked_by (insert p (insert p A)) (set_active (Some i) d1)"
        using marked_by_set_active [OF _ i(1) c(4) [OF Cons.prems(2)]] ok1 i(2) by (simp add: table_ok_def)
      ultimately show ?thesis by (simp add: Some)
    qed
  qed
  then have c1: "continues d {p} (set_active slot d1)" and m1: "marked_by (insert p A) (set_active slot d1)" by auto
  from c1 have ok1: "table_ok (set_active slot d1)" by (simp add: continues_def)
  from Cons.IH [OF ok1 m1 rest] continues_trans [OF c1] show ?case by auto
qed

lemma add_missing_continues:
  "table_ok d \<Longrightarrow> add_missing os ps d w = (d', w') \<Longrightarrow> continues d (set ps) d'"
proof (induction ps arbitrary: d w)
  case Nil
  then show ?case by (simp add: continues_refl)
next
  case (Cons p ps)
  have a: "arrays_ok d" using Cons.prems(1) by (simp add: table_ok_def)
  show ?case
  proof (cases "find_slot d p")
    case (Some i)
    with Cons have "continues d (set ps) d'" by simp
    then show ?thesis by (rule continues_mono) auto
  next
    case None
    then have np: "p \<notin> set (slot_pids d)" using find_slot_None [OF a] by blast
    obtain slot d1 w1 where add: "add_pid os d p w = (slot, d1, w1)" by (metis prod_cases3)
    have c1: "continues d {p} d1" by (rule add_pid_continues(1) [OF Cons.prems(1) np add])
    have "continues d1 (set ps) d'"
      using Cons.IH [of d1 w1] c1 Cons.prems(2) None add by (simp add: continues_def)
    with continues_trans [OF c1] show ?thesis by fastforce
  qed
qed

subsection \<open>Pruning\<close>

lemma distinct_sub_mset: "mset xs \<subseteq># mset ys \<Longrightarrow> distinct ys \<Longrightarrow> distinct xs"
proof -
  assume sub: "mset xs \<subseteq># mset ys" and dist: "distinct ys"
  obtain M where "mset ys = mset xs + M" using sub by (auto simp: mset_subset_eq_exists_conv)
  moreover obtain zs where "M = mset zs" using ex_mset by metis
  ultimately have "mset ys = mset (xs @ zs)" by simp
  then have "distinct (xs @ zs)" using dist mset_eq_imp_distinct_iff by blast
  then show "distinct xs" by simp
qed

lemma remove_table_ok:
  assumes "table_ok d" "i < g_n_active d"
  shows "table_ok (fst (remove_slot os i d w))"
proof -
  have "mset (slot_pids (fst (remove_slot os i d w))) = mset (slot_pids d) - {#sl_pid (row d i)#}"
  proof -
    have "{#row d i#} \<subseteq># mset (rows d)" using assms(2) nth_mem [of i "rows d"] by simp
    then have "image_mset sl_pid (mset (rows d) - {#row d i#}) = image_mset sl_pid (mset (rows d)) - {#sl_pid (row d i)#}"
      by (simp add: image_mset_Diff)
    then show ?thesis using mset_remove_rows [of d i os w] assms by (simp add: table_ok_def)
  qed
  then have sub: "mset (slot_pids (fst (remove_slot os i d w))) \<subseteq># mset (slot_pids d)" by simp
  have "distinct (slot_pids d)" "arrays_ok d" using assms(1) unfolding table_ok_def by blast+
  then show ?thesis using distinct_sub_mset [OF sub] remove_arrays [of d os i w] by (simp only: table_ok_def simp_thms)
qed

text \<open>With any test, what is left was there before, cell for cell.\<close>

lemma prune_sub:
  "table_ok d \<Longrightarrow> prune os t i d w = (d', w') \<Longrightarrow>
   table_ok d' \<and> frame d' = frame d \<and> mset (rows d') \<subseteq># mset (rows d)"
proof (induction os t i d w rule: prune.induct)
  case (1 os t i d w)
  show ?case
  proof (cases "g_n_active d \<le> i")
    case True
    with 1 show ?thesis by (simp add: prune.simps [of os t i d w])
  next
    case False
    obtain b w1 where t: "t (g_states d ! i) w = (b, w1)" by (metis prod.exhaust)
    show ?thesis
    proof (cases b)
      case True
      let ?r = "remove_slot os i d w1"
      have "prune os t i (fst ?r) (snd ?r) = (d', w')"
        using "1.prems"(2) False True t by (simp add: prune.simps [of os t i d w])
      then have "table_ok d' \<and> frame d' = frame (fst ?r) \<and> mset (rows d') \<subseteq># mset (rows (fst ?r))"
        using 1(1) [OF False t [symmetric] refl] True remove_table_ok [OF "1.prems"(1), of i os w1] False by simp
      moreover have "mset (rows (fst ?r)) \<subseteq># mset (rows d)"
        using mset_remove_rows [of d i os w1] "1.prems"(1) False by (simp add: table_ok_def)
      ultimately show ?thesis by auto
    next
      case b: False
      then show ?thesis
        using 1(2) [OF False t [symmetric] refl] "1.prems" False t by (simp add: prune.simps [of os t i d w])
    qed
  qed
qed

lemma rows_remove_split:
  assumes "arrays_ok d" "i < g_n_active d"
  shows "take i (rows (fst (remove_slot os i d w))) = take i (rows d)"
    and "mset (drop i (rows (fst (remove_slot os i d w)))) = mset (drop (Suc i) (rows d))"
proof -
  let ?d = "fst (remove_slot os i d w)"
  have r: "rows ?d = butlast ((rows d)[i := last (rows d)])" by (rule remove_rows [OF assms])
  show t: "take i (rows ?d) = take i (rows d)"
    unfolding r using assms(2) by (simp add: butlast_conv_take)
  have "mset (take i (rows ?d)) + mset (drop i (rows ?d)) = mset (rows ?d)"
    by (simp flip: mset_append)
  also have "\<dots> = mset (rows d) - {#row d i#}" by (rule mset_remove_rows [OF assms])
  also have "rows d = take i (rows d) @ row d i # drop (Suc i) (rows d)"
    using assms(2) id_take_nth_drop [of i "rows d"] by simp
  also have "mset \<dots> - {#row d i#} = mset (take i (rows d)) + mset (drop (Suc i) (rows d))" by simp
  finally show "mset (drop i (rows ?d)) = mset (drop (Suc i) (rows d))" using t by simp
qed

text \<open>With a test of the slot alone, exactly the slots that fail it are left.\<close>

lemma prune_pure:
  "table_ok d \<Longrightarrow> t = (\<lambda>st w. (P st, w)) \<Longrightarrow> i \<le> g_n_active d \<Longrightarrow> prune os t i d w = (d', w') \<Longrightarrow>
   mset (rows d') = mset (take i (rows d)) + filter_mset (\<lambda>r. \<not> P (sl_state r)) (mset (drop i (rows d)))"
proof (induction os t i d w rule: prune.induct)
  case (1 os t i d w)
  show ?case
  proof (cases "g_n_active d \<le> i")
    case True
    then have "prune os t i d w = (d, w)" by (simp add: prune.simps [of os t i d w])
    with 1 True show ?thesis by simp
  next
    case False
    have t: "t (g_states d ! i) w = (P (g_states d ! i), w)" using "1.prems"(2) by simp
    have dr: "drop i (rows d) = row d i # drop (Suc i) (rows d)"
      using False Cons_nth_drop_Suc [of i "rows d"] by simp
    have st: "sl_state (row d i) = g_states d ! i" by (simp add: row_def)
    have a: "arrays_ok d" using "1.prems"(1) by (simp add: table_ok_def)
    show ?thesis
    proof (cases "P (g_states d ! i)")
      case True
      let ?r = "remove_slot os i d w"
      have "prune os t i (fst ?r) (snd ?r) = (d', w')"
        using "1.prems"(4) False True t by (simp add: prune.simps [of os t i d w])
      then have "mset (rows d') = mset (take i (rows (fst ?r)))
          + filter_mset (\<lambda>r. \<not> P (sl_state r)) (mset (drop i (rows (fst ?r))))"
        using 1(1) [OF False t [symmetric] refl] True remove_table_ok [OF "1.prems"(1), of i os w] False "1.prems"(2) by simp
      then show ?thesis using rows_remove_split [OF a, of i os w] False True dr st by simp
    next
      case np: False
      have "prune os t (i + 1) d w = (d', w')"
        using "1.prems"(4) False t np by (simp add: prune.simps [of os t i d w])
      then have "mset (rows d') = mset (take (i + 1) (rows d))
          + filter_mset (\<lambda>r. \<not> P (sl_state r)) (mset (drop (i + 1) (rows d)))"
        using 1(2) [OF False t [symmetric] refl np "1.prems"(1,2)] False by simp
      moreover have "take (i + 1) (rows d) = take i (rows d) @ [row d i]"
        using False by (simp add: take_Suc_conv_app_nth)
      ultimately show ?thesis using dr np st by simp
    qed
  qed
qed

subsection \<open>One synchronisation\<close>

lemma rows_clear_slots:
  assumes "arrays_ok d" shows "rows (clear_slots d) = map history (rows d)"
proof (rule rows_eqI)
  fix i assume "i < length (map history (rows d))"
  then show "row (clear_slots d) i = map history (rows d) ! i"
    using assms by (simp add: row_def clear_slots_def history_def arrays_ok_def nth_append)
qed (simp add: clear_slots_def)

lemma clear_slots_ok:
  assumes "table_ok d"
  shows "table_ok (clear_slots d)" and "frame (clear_slots d) = frame d" and "marked_by {} (clear_slots d)"
proof -
  have a: "arrays_ok d" using assms by (simp add: table_ok_def)
  have "arrays_ok (clear_slots d)" using a by (simp add: arrays_ok_def clear_slots_def)
  moreover have "slot_pids (clear_slots d) = slot_pids d"
    by (simp add: rows_clear_slots [OF a] history_def)
  ultimately show "table_ok (clear_slots d)" using assms by (simp add: table_ok_def)
  show "frame (clear_slots d) = frame d" by (simp add: clear_slots_def frame_def)
  show "marked_by {} (clear_slots d)" by (simp add: marked_by_def rows_clear_slots [OF a]) (simp add: history_def)
qed

lemma prune_inactive_rows:
  assumes "table_ok d" "prune_inactive os d w = (d', w')"
  shows "table_ok d'" and "frame d' = frame d"
    and "set (rows d') = {r \<in> set (rows d). st_active (sl_state r) \<noteq> 0}"
proof -
  have run: "prune os (\<lambda>st w. (st_active st = 0, w)) 0 d w = (d', w')"
    using assms(2) by (simp add: prune_inactive_def)
  show "table_ok d'" "frame d' = frame d" using prune_sub [OF assms(1) run] by auto
  have "mset (rows d') = filter_mset (\<lambda>r. \<not> st_active (sl_state r) = 0) (mset (rows d))"
    using prune_pure [where P = "\<lambda>st. st_active st = 0", OF assms(1) refl _ run] by simp
  from arg_cong [OF this, of set_mset]
  show "set (rows d') = {r \<in> set (rows d). st_active (sl_state r) \<noteq> 0}" by simp
qed

text \<open>The pids the ranking selects for a state.\<close>

definition wanted :: "'w sys \<Rightarrow> daemon \<Rightarrow> int set" where
  "wanted os d = (if 0 < n_pids (g_cfg d) then set (cfg_pids (g_cfg d))
     else set (proc_scanner_top_n (sys_qsort os) (g_scanner d)
       (if int MAX_PIDS < top_n (g_cfg d) then int MAX_PIDS else top_n (g_cfg d)) (min_uid (g_cfg d))))"

text \<open>
  \<open>tracks d P d'\<close>: the new table is well formed; every slot of it that was not there before
  starts from nothing and is for a pid in \<open>P\<close>; every other slot is an old one with its history.
\<close>

definition tracks :: "daemon \<Rightarrow> int set \<Rightarrow> daemon \<Rightarrow> bool" where
  "tracks d P d' \<longleftrightarrow> table_ok d' \<and> frame d' = frame d \<and>
     (\<forall>r \<in> set (rows d'). history r \<in> history ` set (rows d) \<or>
        sl_pid r \<in> P \<and> sl_pid r \<notin> set (slot_pids d) \<and>
        (\<exists>r0. new_row (sl_pid r) r0 \<and> history r = history r0))"

lemma history_pid [simp]: "sl_pid (history r) = sl_pid r"
  by (simp add: history_def)

lemma history_idem [simp]: "history (history r) = history r"
  by (simp add: history_def)

lemma continues_tracks:
  assumes c: "continues d0 P d1" and d0: "map history (rows d0) = map history (rows d)" "frame d0 = frame d"
    and p: "table_ok d'" "frame d' = frame d1" "set (rows d') \<subseteq> set (rows d1)"
  shows "tracks d P d'"
proof -
  obtain new where n: "map history (rows d1) = map history (rows d0) @ map history new"
    "\<forall>r \<in> set new. new_row (sl_pid r) r \<and> sl_pid r \<in> P \<and> sl_pid r \<notin> set (slot_pids d0)"
    using c by (auto simp: continues_def)
  have pids: "slot_pids d0 = slot_pids d" unfolding slot_pids_history d0(1) ..
  have "history r \<in> history ` set (rows d) \<or> sl_pid r \<in> P \<and> sl_pid r \<notin> set (slot_pids d) \<and>
        (\<exists>r0. new_row (sl_pid r) r0 \<and> history r = history r0)" if "r \<in> set (rows d')" for r
  proof -
    have "history r \<in> set (map history (rows d1))" using p(3) that by auto
    then have "history r \<in> history ` set (rows d) \<or> history r \<in> history ` set new"
      unfolding n(1) d0(1) by auto
    then show ?thesis
    proof
      assume "history r \<in> history ` set new"
      then obtain r0 where r0: "r0 \<in> set new" "history r = history r0" by auto
      have "sl_pid r = sl_pid r0" using history_eqD [OF r0(2)] by simp
      with r0 n(2) pids show ?thesis by auto
    qed simp
  qed
  with p c d0 show ?thesis by (auto simp: tracks_def continues_def)
qed

lemma sync_top_tracks:
  assumes ok: "table_ok d" and mode: "n_pids (g_cfg d) = 0" and run: "sync_top os d w = (d', w')"
  shows "tracks d (wanted os d) d'" and "set (slot_pids d') \<subseteq> wanted os d"
    and "\<forall>r \<in> set (rows d). sl_pid r \<in> wanted os d \<longrightarrow> history r \<in> history ` set (rows d')"
proof -
  let ?top = "proc_scanner_top_n (sys_qsort os) (g_scanner d)
       (if int MAX_PIDS < top_n (g_cfg d) then int MAX_PIDS else top_n (g_cfg d)) (min_uid (g_cfg d))"
  have w: "wanted os d = set ?top" using mode by (simp add: wanted_def)
  have a: "arrays_ok d" using ok by (simp add: table_ok_def)
  let ?d0 = "clear_slots d"
  obtain d1 w1 where m: "mark_top os ?top ?d0 w = (d1, w1)" by (metis prod.exhaust)
  have pr: "prune_inactive os d1 w1 = (d', w')" using run m by (simp add: sync_top_def)
  have c: "continues ?d0 (set ?top) d1" and mk: "marked_by (set ?top) d1"
    using mark_top_continues [OF clear_slots_ok(1) [OF ok] clear_slots_ok(3) [OF ok] m] by auto
  then have "table_ok d1" by (simp add: continues_def)
  note p = prune_inactive_rows [OF this pr]
  have h0: "map history (rows ?d0) = map history (rows d)" by (simp add: rows_clear_slots [OF a])
  show "tracks d (wanted os d) d'"
    unfolding w by (rule continues_tracks [OF c h0 clear_slots_ok(2) [OF ok] p(1,2)]) (simp add: p(3))
  have mem: "set (rows d') = {r \<in> set (rows d1). sl_pid r \<in> set ?top}"
    using mk unfolding p(3) marked_by_def by blast
  then show "set (slot_pids d') \<subseteq> wanted os d" unfolding w by auto
  obtain new where n: "map history (rows d1) = map history (rows d) @ map history new"
    using c unfolding continues_def h0 by blast
  show "\<forall>r \<in> set (rows d). sl_pid r \<in> wanted os d \<longrightarrow> history r \<in> history ` set (rows d')"
  proof (intro ballI impI)
    fix r assume r: "r \<in> set (rows d)" "sl_pid r \<in> wanted os d"
    have "history r \<in> set (map history (rows d1))" unfolding n using r(1) by simp
    then obtain r1 where r1: "r1 \<in> set (rows d1)" "history r = history r1" by auto
    then have "sl_pid r1 = sl_pid r" using history_eqD [OF r1(2)] by simp
    with r(2) r1(1) have "r1 \<in> set (rows d')" unfolding mem w by simp
    with r1(2) show "history r \<in> history ` set (rows d')" by blast
  qed
qed

lemma sync_explicit_tracks:
  assumes ok: "table_ok d" and mode: "0 < n_pids (g_cfg d)" and run: "sync_explicit os d w = (d', w')"
  shows "tracks d (wanted os d) d'"
proof -
  obtain d1 w1 where m: "add_missing os (cfg_pids (g_cfg d)) d w = (d1, w1)" by (metis prod.exhaust)
  have c: "continues d (set (cfg_pids (g_cfg d))) d1" by (rule add_missing_continues [OF ok m])
  then have ok1: "table_ok d1" by (simp add: continues_def)
  have "prune os (\<lambda>st w. pr_gone (sys_proc os) (st_pid st) w) 0 d1 w1 = (d', w')"
    using run m by (simp add: sync_explicit_def prune_gone_def)
  note p = prune_sub [OF ok1 this]
  then have "set (rows d') \<subseteq> set (rows d1)" using set_mset_mono by fastforce
  with p continues_tracks [OF c refl refl] mode show ?thesis by (simp add: wanted_def)
qed

end
