(* ===== verification/Sampling.thy ===== *)
theory Sampling
  imports Slot_Table
begin

text \<open>
  One tick of the daemon (\<^verbatim>\<open>src/schedmon.c\<close>, the body of \<open>run_sampling_loop\<close>): the slow path
  that reads every slot's counters, turns the deltas into rates and pushes them through the
  windows, and the fast path that republishes fresh samples. Rates are doubles with their
  rounding; counters are 64-bit words, so a delta taken against a larger baseline wraps as in
  the code. The loop over the slots removes a slot whose counters cannot be read and goes on
  with the one moved into its place.
\<close>

abbreviation STALE_NS :: u64 where "STALE_NS \<equiv> 1000000000"
abbreviation RQ_WAIT_MAX_NS :: u64 where "RQ_WAIT_MAX_NS \<equiv> 10000000000"
abbreviation IO_WAIT_MAX_NS :: u64 where "IO_WAIT_MAX_NS \<equiv> 30000000000"

subsection \<open>Rates\<close>

text \<open>An event count per second.\<close>

definition per_second :: "u64 \<Rightarrow> real \<Rightarrow> real" where
  "per_second n slow_dt = (if 0 < slow_dt then ddiv (dbl_of_u64 n) slow_dt else 0)"

text \<open>\<open>if (d > n * max) d = n * max\<close>, in 64 bits.\<close>

definition clamp_wait :: "u64 \<Rightarrow> u64 \<Rightarrow> u64 \<Rightarrow> u64" where
  "clamp_wait d n mx = (if d > n * mx then n * mx else d)"

text \<open>Milliseconds per event.\<close>

definition avg_wait_ms :: "u64 \<Rightarrow> u64 \<Rightarrow> real" where
  "avg_wait_ms d n = (if 0 < d \<and> 0 < n then ddiv (ddiv (dbl_of_u64 d) (dbl_of_u64 n)) 1000000 else 0)"

text \<open>A counter read back less its baseline, 0 when it went back.\<close>

definition since :: "u64 \<Rightarrow> u64 \<Rightarrow> u64" where
  "since cur prev = (if prev \<le> cur then cur - prev else 0)"

definition slow_interval :: "bool \<Rightarrow> timespec \<Rightarrow> timespec \<Rightarrow> real" where
  "slow_interval first_slow t last_slow =
    (if first_slow then rnd64 (1 / 5)
     else let ns = elapsed_ns t last_slow
          in if 0 < ns then dmul (dbl_of_int ns) (rnd64 (1 / 1000000000)) else rnd64 (1 / 5))"

subsection \<open>Sampling one slot\<close>

text \<open>The two resets store the same six baselines.\<close>

definition reset_baselines :: "u64 \<Rightarrow> u64 \<Rightarrow> u64 \<Rightarrow> raw_counters_t \<Rightarrow> PidState \<Rightarrow> PidState" where
  "reset_baselines ctx io_wait rq_wait hw st =
     st\<lparr>prev_ctx := ctx, prev_io_wait_ns := io_wait, prev_rq_wait_ns := rq_wait,
        prev_cycles := rc_cycles hw, prev_instructions := rc_instructions hw,
        prev_llc := rc_llc_misses hw\<rparr>"

definition went_back :: "u64 \<Rightarrow> u64 \<Rightarrow> u64 \<Rightarrow> raw_counters_t \<Rightarrow> PidState \<Rightarrow> bool" where
  "went_back ctx io_wait rq_wait hw st \<longleftrightarrow>
     (ctx < prev_ctx st \<or> io_wait < prev_io_wait_ns st \<or> rq_wait < prev_rq_wait_ns st) \<or>
     rc_cycles hw < prev_cycles st"

text \<open>
  The I/O file: current byte counts, the state with the descriptor and, after a reopening,
  the new baselines.
\<close>

definition refresh_io ::
  "'w sys \<Rightarrow> PidState \<Rightarrow> io_fd_stats \<Rightarrow> 'w \<Rightarrow> u64 \<times> u64 \<times> PidState \<times> io_fd_stats \<times> 'w" where
  "refresh_io os st stats w =
    (if 0 \<le> io_fd st then
       (let (io, sysc, w1) = read_proc_io_fd (sys_proc os) (io_fd st) 0 w in
        if io = PROC_IO_READ_FAIL then
          (let w2 = pr_close (sys_proc os) (io_fd st) w1;
               (fd, stats', w3) = open_proc_io_fd (sys_proc os) (st_pid st) stats w2;
               (io', sysc', w4) =
                 (if 0 \<le> fd then
                    (let (a, b, w4) = read_proc_io_fd (sys_proc os) fd sysc w3
                     in if a = PROC_IO_READ_FAIL then (0, 0, w4) else (a, b, w4))
                  else (0, 0, w3))
           in (io', sysc', st\<lparr>io_fd := fd, prev_io_proc := io', prev_io_syscall := sysc'\<rparr>, stats', w4))
        else (io, sysc, st, stats, w1))
     else (0, 0, st, stats, w))"

text \<open>The eight rates of one interval, in the order of the slot's metrics.\<close>

record rates =
  r_ipc :: real
  r_llc :: real
  r_ctx :: real
  r_io :: real
  r_io_wait :: real
  r_rq_wait :: real
  r_migration :: real
  r_io_syscall :: real

text \<open>
  Migrations of the interval: the count carried over plus one for a change between two known
  CPUs.
\<close>

definition migrations :: "int \<Rightarrow> PidState \<Rightarrow> u32" where
  "migrations cpu st =
     (if 0 \<le> cpu \<and> 0 \<le> prev_cpu_id st \<and> cpu \<noteq> prev_cpu_id st then migration_count st + 1
      else migration_count st)"

text \<open>
  The rates, from the state \<open>st\<close> before the interval and the current readings: \<open>io\<close> and
  \<open>sysc\<close> from the I/O file (with \<open>pio\<close>, \<open>psysc\<close> the baselines after a possible reopening),
  \<open>n_io\<close> the tracer's request count.
\<close>

definition interval_rates ::
  "real \<Rightarrow> raw_counters_t \<Rightarrow> u64 \<Rightarrow> u64 \<Rightarrow> u64 \<Rightarrow> u64 \<Rightarrow> u64 \<Rightarrow> u64 \<Rightarrow> int \<Rightarrow> PidState \<Rightarrow> rates" where
  "interval_rates dt hw ctx io_wait rq_wait io sysc n_io cpu st =
    (let d_cycles = rc_cycles hw - prev_cycles st;
         d_instr = rc_instructions hw - prev_instructions st;
         d_llc = rc_llc_misses hw - prev_llc st;
         d_ctx = ctx - prev_ctx st;
         d_io = n_io - prev_io_count st
     in \<lparr>r_ipc = (if 0 < d_cycles then ddiv (dbl_of_u64 d_instr) (dbl_of_u64 d_cycles) else 0),
         r_llc = (if 0 < d_cycles \<and> 0 < d_instr then ddiv (dbl_of_u64 d_llc) (dbl_of_u64 d_instr) else 0),
         r_ctx = ddiv (dbl_of_u64 d_ctx) dt,
         r_io = per_second (since io (prev_io_proc st)) dt,
         r_io_wait = avg_wait_ms (clamp_wait (io_wait - prev_io_wait_ns st) d_io IO_WAIT_MAX_NS) d_io,
         r_rq_wait = avg_wait_ms (clamp_wait (rq_wait - prev_rq_wait_ns st) d_ctx RQ_WAIT_MAX_NS) d_ctx,
         r_migration = (if 0 < dt then ddiv (dbl_of_int (uint (migrations cpu st))) dt else 0),
         r_io_syscall = per_second (since sysc (prev_io_syscall st)) dt\<rparr>)"

text \<open>All the baselines move to the current readings.\<close>

definition advance_baselines ::
  "raw_counters_t \<Rightarrow> u64 \<Rightarrow> u64 \<Rightarrow> u64 \<Rightarrow> u64 \<Rightarrow> u64 \<Rightarrow> u64 \<Rightarrow> int \<Rightarrow> PidState \<Rightarrow> PidState" where
  "advance_baselines hw ctx io_wait rq_wait io sysc n_io cpu st =
     st\<lparr>prev_cycles := rc_cycles hw, prev_instructions := rc_instructions hw, prev_llc := rc_llc_misses hw,
        prev_ctx := ctx, prev_io_proc := io, prev_io_syscall := sysc, prev_io := n_io,
        prev_io_wait_ns := io_wait, prev_io_count := n_io, prev_rq_wait_ns := rq_wait,
        prev_cpu_id := cpu, migration_count := 0\<rparr>"

text \<open>One push into each window of a slot.\<close>

definition push_windows :: "nat \<Rightarrow> rates \<Rightarrow> daemon \<Rightarrow> daemon" where
  "push_windows i r d =
     d\<lparr>g_win_io := (g_win_io d)[i := sw_push (g_win_io d ! i) (r_io r)],
       g_win_io_wait := (g_win_io_wait d)[i := sw_push (g_win_io_wait d ! i) (r_io_wait r)],
       g_win_io_syscall := (g_win_io_syscall d)[i := sw_push (g_win_io_syscall d ! i) (r_io_syscall r)],
       g_win_ipc := (g_win_ipc d)[i := sw_push (g_win_ipc d ! i) (r_ipc r)],
       g_win_llc := (g_win_llc d)[i := sw_push (g_win_llc d ! i) (r_llc r)],
       g_win_ctx := (g_win_ctx d)[i := sw_push (g_win_ctx d ! i) (r_ctx r)],
       g_win_rq_wait := (g_win_rq_wait d)[i := sw_push (g_win_rq_wait d ! i) (r_rq_wait r)],
       g_win_migration := (g_win_migration d)[i := sw_push (g_win_migration d ! i) (r_migration r)]\<rparr>"

text \<open>The sample as the windows stand now; the timestamp stays.\<close>

definition smoothed :: "nat \<Rightarrow> int \<Rightarrow> daemon \<Rightarrow> SmoothedMetrics" where
  "smoothed i pid d =
     (g_last_sm d ! i)\<lparr>sm_pid := pid, sm_cpu_id := -1, hw_pmu_available := hw_available (g_perf d ! i),
       smoothed_ipc := sw_mean (g_win_ipc d ! i), smoothed_llc_miss := sw_mean (g_win_llc d ! i),
       smoothed_ctx_freq := sw_mean (g_win_ctx d ! i), smoothed_io_freq := sw_mean (g_win_io d ! i),
       smoothed_io_wait_ms := sw_mean (g_win_io_wait d ! i),
       smoothed_rq_wait_ms := sw_mean (g_win_rq_wait d ! i),
       smoothed_migration_freq := sw_mean (g_win_migration d ! i),
       smoothed_io_syscall_freq := sw_mean (g_win_io_syscall d ! i)\<rparr>"

text \<open>
  Reading one slot, once its hardware counters are there. \<open>False\<close> is the \<open>continue\<close> after a
  reset.
\<close>

definition sample_slot ::
  "'w sys \<Rightarrow> nat \<Rightarrow> real \<Rightarrow> raw_counters_t \<Rightarrow> daemon \<Rightarrow> 'w \<Rightarrow> bool \<times> daemon \<times> 'w" where
  "sample_slot os i dt hw d w =
    (let st = g_states d ! i; pid = st_pid st; p = u32_of_int pid; et = g_tracer d;
         ctx = ebpf_tracer_read_switches (sys_bpf os) et p w;
         io_wait = ebpf_tracer_read_io_wait_ns (sys_bpf os) et p w;
         rq_wait = ebpf_tracer_read_rq_wait_ns (sys_bpf os) et p w
     in if went_back ctx io_wait rq_wait hw st
        then (False, d\<lparr>g_states := (g_states d)[i := reset_baselines ctx io_wait rq_wait hw st]\<rparr>, w)
        else
          (let (io, sysc, st1, stats, w1) = refresh_io os st (io_stats d) w;
               n_io = ebpf_tracer_read_io (sys_bpf os) et p w1;
               cpu = ebpf_tracer_read_last_cpu (sys_bpf os) et p w1;
               r = interval_rates dt hw ctx io_wait rq_wait io sysc n_io cpu st1;
               d1 = push_windows i r
                      (d\<lparr>g_states := (g_states d)[i := advance_baselines hw ctx io_wait rq_wait io sysc n_io cpu st1],
                         io_stats := stats\<rparr>)
           in (True, d1\<lparr>g_last_sm := (g_last_sm d)[i := smoothed i pid d1]\<rparr>, w1)))"

subsection \<open>Publishing\<close>

text \<open>\<open>if (rb) rb_push(rb, m)\<close>; the result of the push is not looked at.\<close>

definition push_to :: "SmoothedMetrics \<Rightarrow> RingBuffer option \<Rightarrow> RingBuffer option option" where
  "push_to m rb = (case rb of None \<Rightarrow> Some None
     | Some q \<Rightarrow> (case rb_push q m of None \<Rightarrow> None | Some (_, q') \<Rightarrow> Some (Some q')))"

definition publish_slot :: "nat \<Rightarrow> u64 \<Rightarrow> daemon \<Rightarrow> daemon option" where
  "publish_slot i now d =
    (if sm_is_active (g_last_sm d ! i) then
       (let m = (g_last_sm d ! i)\<lparr>timestamp_ns := now\<rparr>;
            d1 = d\<lparr>g_last_sm_updated_ns := (g_last_sm_updated_ns d)[i := now],
                   g_last_sm_valid := (g_last_sm_valid d)[i := True],
                   g_last_sm := (g_last_sm d)[i := m]\<rparr>
        in case push_to m (g_rb d) of None \<Rightarrow> None
           | Some rb \<Rightarrow> (case push_to m (g_rb_dash d) of None \<Rightarrow> None
               | Some dash \<Rightarrow> Some (d1\<lparr>g_rb := rb, g_rb_dash := dash\<rparr>)))
     else Some (d\<lparr>g_last_sm_valid := (g_last_sm_valid d)[i := False]\<rparr>))"

text \<open>The CSV row and the refresh of the name, for the slots below the display limit.\<close>

definition show_slot :: "'w sys \<Rightarrow> nat \<Rightarrow> int \<Rightarrow> u64 \<Rightarrow> daemon \<Rightarrow> 'w \<Rightarrow> daemon \<times> 'w" where
  "show_slot os i pid now d w =
    (let r = \<lparr>row_pid = pid, row_ns = now, row_metrics = sm_metrics (g_last_sm d ! i),
              row_label = label (g_cfg d)\<rparr>;
         d1 = d\<lparr>g_csv := map_option (\<lambda>rs. rs @ [r]) (g_csv d)\<rparr>;
         (_, comm, w1) = ebpf_tracer_pop_exec_comm (sys_bpf os) (g_tracer d) (u32_of_int pid) (g_comm d ! i) 17 w
     in (d1\<lparr>g_comm := (g_comm d)[i := comm]\<rparr>, w1))"

subsection \<open>The slow path\<close>

lemma n_active_sample [simp]: "g_n_active (fst (snd (sample_slot os i dt hw d w))) = g_n_active d"
  by (simp add: sample_slot_def Let_def push_windows_def split: prod.split)

lemma n_active_publish: "publish_slot i now d = Some d' \<Longrightarrow> g_n_active d' = g_n_active d"
  by (auto simp: publish_slot_def Let_def split: if_splits option.splits)

lemma n_active_show [simp]: "g_n_active (fst (show_slot os i pid now d w)) = g_n_active d"
  by (simp add: show_slot_def Let_def split: prod.split)

function slow_loop ::
  "'w sys \<Rightarrow> real \<Rightarrow> u64 \<Rightarrow> nat \<Rightarrow> nat \<Rightarrow> nat \<Rightarrow> daemon \<Rightarrow> 'w \<Rightarrow> (daemon \<times> 'w) option" where
  "slow_loop os dt now limit i shown d w =
    (if g_n_active d \<le> i then Some (d, w) else
     let (r, hw, w1) = perf_counter_read (sys_perf os) (g_perf d ! i) w in
     if r \<noteq> 0 then slow_loop os dt now limit i shown (fst (remove_slot os i d w1)) (snd (remove_slot os i d w1))
     else
       let pid = st_pid (g_states d ! i); s = sample_slot os i dt hw d w1 in
       if \<not> fst s then slow_loop os dt now limit (i + 1) shown (fst (snd s)) (snd (snd s))
       else
         case publish_slot i now (fst (snd s)) of None \<Rightarrow> None
         | Some d2 \<Rightarrow>
             (if shown < limit then
                (let v = show_slot os i pid now d2 (snd (snd s))
                 in slow_loop os dt now limit (i + 1) (shown + 1) (fst v) (snd v))
              else slow_loop os dt now limit (i + 1) shown d2 (snd (snd s))))"
  by pat_completeness auto
termination
  by (relation "measure (\<lambda>(os, dt, now, limit, i, shown, d, w). g_n_active d - i)")
    (auto simp: case_prod_beta dest: n_active_publish)

declare slow_loop.simps [simp del]

subsection \<open>The fast path and the tick\<close>

definition fast_slot :: "u64 \<Rightarrow> nat \<Rightarrow> daemon \<Rightarrow> daemon option" where
  "fast_slot now i d =
    (if \<not> g_last_sm_valid d ! i then Some d
     else if now - g_last_sm_updated_ns d ! i > STALE_NS then Some d
     else let m = (g_last_sm d ! i)\<lparr>timestamp_ns := now\<rparr> in
          case push_to m (g_rb d) of None \<Rightarrow> None
          | Some rb \<Rightarrow> Some (d\<lparr>g_last_sm := (g_last_sm d)[i := m], g_rb := rb\<rparr>))"

fun fast_loop :: "u64 \<Rightarrow> nat list \<Rightarrow> daemon \<Rightarrow> daemon option" where
  "fast_loop now [] d = Some d"
| "fast_loop now (i # is) d = (case fast_slot now i d of None \<Rightarrow> None | Some d' \<Rightarrow> fast_loop now is d')"

definition fast_path :: "u64 \<Rightarrow> daemon \<Rightarrow> daemon option" where
  "fast_path now d = fast_loop now [0..<g_n_active d] d"

text \<open>The locals of the loop.\<close>

record loop_state =
  sample_num :: int
  first_slow :: bool
  last_slow :: timespec

definition display_limit :: "daemon \<Rightarrow> nat" where
  "display_limit d = (if 0 < top_n (g_cfg d) then nat (top_n (g_cfg d)) else g_n_active d)"

definition slow_path :: "'w sys \<Rightarrow> real \<Rightarrow> u64 \<Rightarrow> daemon \<Rightarrow> 'w \<Rightarrow> (daemon \<times> 'w) option" where
  "slow_path os dt now d w =
    (case sync_pids os d w of None \<Rightarrow> None
     | Some (d1, w1) \<Rightarrow> slow_loop os dt now (display_limit d1) 0 0 d1 w1)"

text \<open>
  One iteration, up to the sleep: the new locals, the deadline to sleep until, the state.
\<close>

definition tick :: "'w sys \<Rightarrow> loop_state \<Rightarrow> daemon \<Rightarrow> 'w \<Rightarrow> (loop_state \<times> timespec \<times> daemon \<times> 'w) option" where
  "tick os ls d w =
    (let (t, w1) = sys_clock os w;
         now = now_ns_of t;
         slow = (sample_num ls smod 4 = 0);
         ls1 = (if slow then ls\<lparr>first_slow := False, last_slow := t\<rparr> else ls)
     in case (if slow then slow_path os (slow_interval (first_slow ls) t (last_slow ls)) now d w1
              else Some (d, w1)) of
          None \<Rightarrow> None
        | Some (d1, w2) \<Rightarrow>
            (case fast_path now d1 of None \<Rightarrow> None
             | Some d2 \<Rightarrow> Some (ls1\<lparr>sample_num := (sample_num ls + 1) smod 4\<rparr>,
                              tick_deadline t (interval_ms (g_cfg d2)), d2, w2)))"

subsection \<open>Bounds on the waits\<close>

lemma unat_clamp: "unat (clamp_wait d n mx) \<le> unat n * unat mx"
proof -
  have "unat (n * mx) \<le> unat n * unat mx" by (simp add: unat_word_ariths)
  moreover have "unat (clamp_wait d n mx) \<le> unat (n * mx)"
    by (simp add: clamp_wait_def word_le_nat_alt [symmetric] not_less)
  ultimately show ?thesis by simp
qed

text \<open>The quotient of two rounded values \<open>d \<le> n * M\<close> exceeds \<open>M\<close> by less than one.\<close>

lemma rounded_ratio:
  fixes D N M :: real
  assumes D: "0 \<le> D" "D \<le> N * M" and N: "1 \<le> N" and M: "0 \<le> M" "M \<le> 2 ^ 40"
  shows "rnd64 D / rnd64 N \<le> M + 1"
proof -
  let ?t = "(2::real) powi (-1075)"
  have t: "0 \<le> ?t" "?t \<le> 1 / 2 ^ 60"
  proof -
    have "?t \<le> 2 powi (-60)" by (simp only: powi_le_cancel)
    also have "(2::real) powi (-60) = 1 / 2 ^ 60" by (simp add: power_int_minus_divide)
    finally show "?t \<le> 1 / 2 ^ 60" .
  qed simp
  have d: "rnd64 D \<le> D + D / 2 ^ 53 + ?t"
    using rnd64_error [of D D] D(1) unfolding rnd_err_def by (simp only: abs_of_nonneg) linarith
  have n: "N - N / 2 ^ 53 - ?t \<le> rnd64 N"
    using rnd64_error [of N N] N unfolding rnd_err_def by simp
  have NM: "N * M \<le> N * 2 ^ 40" using N M by (intro mult_left_mono) simp_all
  have "D / 2 ^ 53 \<le> N * M / 2 ^ 53" using D(2) by (intro divide_right_mono) simp_all
  also have "\<dots> \<le> N * 2 ^ 40 / 2 ^ 53" using NM by (intro divide_right_mono) simp_all
  finally have e1: "D / 2 ^ 53 \<le> N / 2 ^ 13" by simp
  have "(M + 1) * (N / 2 ^ 53 + ?t) \<le> 2 ^ 41 * (N / 2 ^ 53 + 1 / 2 ^ 60)"
    using M N t by (intro mult_mono add_left_mono) simp_all
  also have "\<dots> \<le> N / 2 ^ 11" using N by simp
  finally have e2: "(M + 1) * (N / 2 ^ 53 + ?t) \<le> N / 2 ^ 11" .
  have "rnd64 D \<le> N * M + N / 2 ^ 13 + 1 / 2 ^ 60" using d D(2) e1 t by linarith
  also have "\<dots> \<le> (M + 1) * N - N / 2 ^ 11" using N by (simp add: algebra_simps)
  also have "\<dots> \<le> (M + 1) * N - (M + 1) * (N / 2 ^ 53 + ?t)" using e2 by linarith
  also have "\<dots> = (M + 1) * (N - N / 2 ^ 53 - ?t)" by (simp add: algebra_simps)
  also have "\<dots> \<le> (M + 1) * rnd64 N" using n M by (intro mult_left_mono) simp_all
  finally have "rnd64 D \<le> (M + 1) * rnd64 N" .
  moreover have "0 < rnd64 N" using rnd64_ge [OF is_dbl_int [of 1], of N] N by simp
  ultimately show ?thesis by (simp add: pos_divide_le_eq)
qed

lemma avg_wait_bound:
  assumes mx: "unat mx = m" "real m + 1 \<le> 1000000 * real_of_int B" "m \<le> 2 ^ 40" and B: "0 \<le> B" "B \<le> 2 ^ 20"
  shows "0 \<le> avg_wait_ms (clamp_wait d n mx) n \<and> avg_wait_ms (clamp_wait d n mx) n \<le> B"
proof -
  let ?d = "clamp_wait d n mx"
  have nn: "0 \<le> avg_wait_ms ?d n" by (simp add: avg_wait_ms_def ddiv_nonneg dbl_of_u64_nonneg)
  moreover have "avg_wait_ms ?d n \<le> B"
  proof (cases "0 < ?d \<and> 0 < n")
    case False
    then show ?thesis using B by (auto simp: avg_wait_ms_def)
  next
    case True
    then have N: "1 \<le> unat n" by (simp add: unat_gt_0 Suc_leI word_neq_0_conv)
    have D: "real (unat ?d) \<le> real (unat n) * real m"
      using unat_clamp [of d n mx] mx(1) by (metis of_nat_le_iff of_nat_mult)
    have "rnd64 (real (unat ?d)) / rnd64 (real (unat n)) \<le> real m + 1"
    proof (rule rounded_ratio [OF of_nat_0_le_iff D _ of_nat_0_le_iff])
      show "1 \<le> real (unat n)" using N by (metis of_nat_1 of_nat_mono)
      show "real m \<le> 2 ^ 40" using mx(3) by simp
    qed
    then have r: "rnd64 (real (unat ?d)) / rnd64 (real (unat n)) \<le> real_of_int (1000000 * B)"
      using mx(2) by simp
    have "is_dbl (real_of_int (1000000 * B))" using B by (intro is_dbl_int) simp
    from rnd64_le [OF this r] have "ddiv (dbl_of_u64 ?d) (dbl_of_u64 n) / 1000000 \<le> real_of_int B"
      by (simp add: ddiv_def dbl_of_u64_def)
    moreover have "is_dbl (real_of_int B)" using B by (intro is_dbl_int) simp
    ultimately show ?thesis using True rnd64_le by (simp add: avg_wait_ms_def ddiv_def [of _ 1000000])
  qed
  ultimately show ?thesis by simp
qed

lemma dbl_of_uint_nonneg: "0 \<le> dbl_of_int (uint x)"
  unfolding dbl_of_int_def by (rule rnd64_nonneg) (simp only: of_int_0_le_iff uint_nonnegative)

lemma rates_nonneg:
  assumes "0 < dt"
  shows "0 \<le> r_ipc (interval_rates dt hw ctx iow rqw io sysc n_io cpu st)"
    and "0 \<le> r_llc (interval_rates dt hw ctx iow rqw io sysc n_io cpu st)"
    and "0 \<le> r_ctx (interval_rates dt hw ctx iow rqw io sysc n_io cpu st)"
    and "0 \<le> r_io (interval_rates dt hw ctx iow rqw io sysc n_io cpu st)"
    and "0 \<le> r_migration (interval_rates dt hw ctx iow rqw io sysc n_io cpu st)"
    and "0 \<le> r_io_syscall (interval_rates dt hw ctx iow rqw io sysc n_io cpu st)"
  using assms
  by (simp_all add: interval_rates_def Let_def per_second_def ddiv_nonneg dbl_of_u64_nonneg dbl_of_uint_nonneg)

subsection \<open>Reasoning about the loop over the slots\<close>

text \<open>A property of the index and the state that every way through the body keeps holds at the end.\<close>

lemma slow_loop_rule [consumes 1, case_names unreadable reset sampled]:
  assumes start: "P i d w"
    and rem: "\<And>i d w r hw w1 d' w'. P i d w \<Longrightarrow> i < g_n_active d \<Longrightarrow>
      perf_counter_read (sys_perf os) (g_perf d ! i) w = (r, hw, w1) \<Longrightarrow> r \<noteq> 0 \<Longrightarrow>
      remove_slot os i d w1 = (d', w') \<Longrightarrow> P i d' w'"
    and rst: "\<And>i d w hw w1 d' w'. P i d w \<Longrightarrow> i < g_n_active d \<Longrightarrow>
      perf_counter_read (sys_perf os) (g_perf d ! i) w = (0, hw, w1) \<Longrightarrow>
      sample_slot os i dt hw d w1 = (False, d', w') \<Longrightarrow> P (Suc i) d' w'"
    and pub: "\<And>i d w hw w1 d1 w2. P i d w \<Longrightarrow> i < g_n_active d \<Longrightarrow>
      perf_counter_read (sys_perf os) (g_perf d ! i) w = (0, hw, w1) \<Longrightarrow>
      sample_slot os i dt hw d w1 = (True, d1, w2) \<Longrightarrow>
      \<exists>d2. publish_slot i now d1 = Some d2 \<and> P (Suc i) d2 w2 \<and>
        P (Suc i) (fst (show_slot os i (st_pid (g_states d ! i)) now d2 w2))
          (snd (show_slot os i (st_pid (g_states d ! i)) now d2 w2))"
  shows "\<exists>d' w' i'. slow_loop os dt now limit i shown d w = Some (d', w') \<and> g_n_active d' \<le> i' \<and> P i' d' w'"
  using start
proof (induction "g_n_active d - i" arbitrary: i shown d w rule: less_induct)
  case less
  note IH = less.hyps and P = less.prems and unf = slow_loop.simps [of os dt now limit i shown d w]
  show ?case
  proof (cases "g_n_active d \<le> i")
    case True
    with P show ?thesis unfolding unf by auto
  next
    case False
    then have i: "i < g_n_active d" by simp
    obtain r hw w1 where pr: "perf_counter_read (sys_perf os) (g_perf d ! i) w = (r, hw, w1)" by (metis prod_cases3)
    show ?thesis
    proof (cases "r = 0")
      case r: False
      let ?d = "fst (remove_slot os i d w1)" and ?w = "snd (remove_slot os i d w1)"
      have "P i ?d ?w" by (rule rem [OF P i pr r]) simp
      moreover have "g_n_active ?d - i < g_n_active d - i" using i by simp
      moreover have "slow_loop os dt now limit i shown d w = slow_loop os dt now limit i shown ?d ?w"
        using i r by (subst unf) (simp add: pr)
      ultimately show ?thesis using IH by simp
    next
      case r: True
      obtain b d1 w2 where sm: "sample_slot os i dt hw d w1 = (b, d1, w2)" by (metis prod_cases3)
      have n1: "g_n_active d1 = g_n_active d" using n_active_sample [of os i dt hw d w1] by (simp add: sm)
      show ?thesis
      proof (cases b)
        case False
        have "P (Suc i) d1 w2" using rst [OF P i pr [unfolded r]] sm False by simp
        moreover have "slow_loop os dt now limit i shown d w = slow_loop os dt now limit (Suc i) shown d1 w2"
          using i False by (subst unf) (simp add: pr r sm)
        ultimately show ?thesis using IH [of d1 "Suc i"] i n1 by simp
      next
        case True
        let ?pid = "st_pid (g_states d ! i)"
        obtain d2 where d2: "publish_slot i now d1 = Some d2" "P (Suc i) d2 w2"
          "P (Suc i) (fst (show_slot os i ?pid now d2 w2)) (snd (show_slot os i ?pid now d2 w2))"
          using pub [OF P i pr [unfolded r] sm [unfolded eqTrueI [OF True]]] by blast
        have n2: "g_n_active d2 = g_n_active d" using n_active_publish [OF d2(1)] n1 by simp
        have "slow_loop os dt now limit i shown d w =
          (if shown < limit then slow_loop os dt now limit (Suc i) (shown + 1)
             (fst (show_slot os i ?pid now d2 w2)) (snd (show_slot os i ?pid now d2 w2))
           else slow_loop os dt now limit (Suc i) shown d2 w2)"
          using i True by (subst unf) (simp add: pr r sm d2(1) Let_def)
        then show ?thesis
          using IH [of d2 "Suc i"] IH [of "fst (show_slot os i ?pid now d2 w2)" "Suc i"] d2 i n2 by simp
      qed
    qed
  qed
qed

subsection \<open>What each step does to the rows\<close>

text \<open>Only row \<open>i\<close> changes, and it stays the row of the same process.\<close>

definition touches :: "nat \<Rightarrow> daemon \<Rightarrow> daemon \<Rightarrow> bool" where
  "touches i d d' \<longleftrightarrow> arrays_ok d' \<and> g_n_active d' = g_n_active d \<and> g_cfg d' = g_cfg d \<and>
     g_tracer d' = g_tracer d \<and> g_scanner d' = g_scanner d \<and>
     (\<forall>j < g_n_active d. j \<noteq> i \<longrightarrow> row d' j = row d j) \<and>
     (i < g_n_active d \<longrightarrow> sl_pid (row d' i) = sl_pid (row d i))"

lemma touches_trans: "touches i d d1 \<Longrightarrow> touches i d1 d2 \<Longrightarrow> touches i d d2"
  by (simp add: touches_def)

lemma touches_rows: "touches i d d' \<Longrightarrow> i < g_n_active d \<Longrightarrow> rows d' = (rows d)[i := row d' i]"
  by (rule rows_eqI) (auto simp: touches_def nth_list_update)

lemma touches_pids:
  assumes "touches i d d'" shows "slot_pids d' = slot_pids d"
proof (rule nth_equalityI)
  show "length (slot_pids d') = length (slot_pids d)" using assms by (simp add: touches_def)
  fix j assume "j < length (slot_pids d')"
  then show "slot_pids d' ! j = slot_pids d ! j" using assms by (cases "j = i") (auto simp: touches_def)
qed

lemma touches_table_ok: "touches i d d' \<Longrightarrow> table_ok d \<Longrightarrow> table_ok d'"
  unfolding table_ok_def by (simp only: touches_pids) (simp add: touches_def)

lemma refresh_io_state:
  assumes "refresh_io os st stats w = (io, sysc, st1, stats', w')"
  shows "st_pid st1 = st_pid st"
  using assms by (auto simp: refresh_io_def Let_def split: prod.splits if_splits)

lemma sample_touches:
  assumes ok: "arrays_ok d" and i: "i < g_n_active d" and run: "sample_slot os i dt hw d w = (b, d', w')"
  shows "touches i d d'" and "g_rb d' = g_rb d" and "g_rb_dash d' = g_rb_dash d"
    and "sl_valid (row d' i) = sl_valid (row d i)"
    and "\<not> b \<Longrightarrow> sl_wins (row d' i) = sl_wins (row d i) \<and> sl_sm (row d' i) = sl_sm (row d i)"
    and "b \<Longrightarrow> sm_pid (sl_sm (row d' i)) = sl_pid (row d i) \<and> sm_cpu_id (sl_sm (row d' i)) = -1 \<and>
      (\<exists>r :: rates. sl_wins (row d' i) = map2 sw_push (sl_wins (row d i))
         [r_ipc r, r_llc r, r_ctx r, r_io r, r_io_wait r, r_rq_wait r, r_migration r, r_io_syscall r]) \<and>
      sm_metrics (sl_sm (row d' i)) = map sw_mean (sl_wins (row d' i))"
proof -
  have len: "i < MAX_PIDS" using i ok by (simp add: arrays_ok_def)
  let ?st = "g_states d ! i"
  obtain io sysc st1 stats w1 where rf: "refresh_io os ?st (io_stats d) w = (io, sysc, st1, stats, w1)"
    by (metis prod_cases5)
  note pid = refresh_io_state [OF rf]
  have all: "touches i d d' \<and> g_rb d' = g_rb d \<and> g_rb_dash d' = g_rb_dash d \<and>
    sl_valid (row d' i) = sl_valid (row d i) \<and>
    (\<not> b \<longrightarrow> sl_wins (row d' i) = sl_wins (row d i) \<and> sl_sm (row d' i) = sl_sm (row d i)) \<and>
    (b \<longrightarrow> sm_pid (sl_sm (row d' i)) = sl_pid (row d i) \<and> sm_cpu_id (sl_sm (row d' i)) = -1 \<and>
      (\<exists>r :: rates. sl_wins (row d' i) = map2 sw_push (sl_wins (row d i))
         [r_ipc r, r_llc r, r_ctx r, r_io r, r_io_wait r, r_rq_wait r, r_migration r, r_io_syscall r]) \<and>
      sm_metrics (sl_sm (row d' i)) = map sw_mean (sl_wins (row d' i)))"
  proof (cases b)
    case False
    then obtain x y z where "d' = d\<lparr>g_states := (g_states d)[i := reset_baselines x y z hw ?st]\<rparr>"
      using run by (auto simp: sample_slot_def Let_def rf split: if_splits)
    with ok len False show ?thesis
      by (auto simp: touches_def arrays_ok_def row_def reset_baselines_def nth_list_update)
  next
    case True
    then obtain r c x y n cpu where d1: "d' = (let d1 = push_windows i r
                      (d\<lparr>g_states := (g_states d)[i := advance_baselines hw c x y io sysc n cpu st1], io_stats := stats\<rparr>)
           in d1\<lparr>g_last_sm := (g_last_sm d)[i := smoothed i (st_pid ?st) d1]\<rparr>)"
      using run by (auto simp: sample_slot_def Let_def rf split: if_splits)
    have st: "st_pid (advance_baselines hw c x y io sysc n cpu st1) = st_pid ?st"
      by (simp add: advance_baselines_def pid)
    show ?thesis using ok len True st unfolding d1
      by (auto simp: touches_def arrays_ok_def row_def Let_def push_windows_def smoothed_def sm_metrics_def
          nth_list_update)
  qed
  then show "touches i d d'" "g_rb d' = g_rb d" "g_rb_dash d' = g_rb_dash d"
    "sl_valid (row d' i) = sl_valid (row d i)"
    "\<not> b \<Longrightarrow> sl_wins (row d' i) = sl_wins (row d i) \<and> sl_sm (row d' i) = sl_sm (row d i)"
    "b \<Longrightarrow> sm_pid (sl_sm (row d' i)) = sl_pid (row d i) \<and> sm_cpu_id (sl_sm (row d' i)) = -1 \<and>
      (\<exists>r :: rates. sl_wins (row d' i) = map2 sw_push (sl_wins (row d i))
         [r_ipc r, r_llc r, r_ctx r, r_io r, r_io_wait r, r_rq_wait r, r_migration r, r_io_syscall r]) \<and>
      sm_metrics (sl_sm (row d' i)) = map sw_mean (sl_wins (row d' i))" by blast+
qed

end
