(* ===== verification/Publishing.thy ===== *)
theory Publishing
  imports Sampling "HOL-Library.Sublist"
begin

text \<open>
  What a tick publishes (\<^verbatim>\<open>src/schedmon.c\<close>, the ring-buffer pushes of \<open>run_sampling_loop\<close>): the
  invariant of the table and the rings that every step of a tick keeps, so that no step
  leaves the defined behaviour of C, and the exact sequence of slots each ring receives. A \<^emph>\<open>visit\<close>
  is a slot as the slow path found it and as it left it, with what was read for it in between.
\<close>

subsection \<open>Optional rings\<close>

definition ring_ok :: "RingBuffer option \<Rightarrow> bool" where
  "ring_ok r \<longleftrightarrow> (case r of None \<Rightarrow> True | Some q \<Rightarrow> rb_ok q)"

text \<open>\<open>r'\<close> is the ring \<open>r\<close> after an attempt to push each of \<open>xs\<close> in turn.\<close>

definition ring_pushes :: "RingBuffer option \<Rightarrow> SmoothedMetrics list \<Rightarrow> RingBuffer option \<Rightarrow> bool" where
  "ring_pushes r xs r' \<longleftrightarrow>
     (case r of None \<Rightarrow> r' = None | Some q \<Rightarrow> (\<exists>q'. rbq.push_all q xs = Some q' \<and> r' = Some q'))"

lemma ring_pushes_Nil [simp]: "ring_pushes r [] r' \<longleftrightarrow> r' = r"
  by (auto simp: ring_pushes_def split: option.splits)

lemma ring_pushes_snoc: "ring_pushes r xs r1 \<Longrightarrow> push_to x r1 = Some r2 \<Longrightarrow> ring_pushes r (xs @ [x]) r2"
  by (auto simp: ring_pushes_def push_to_def rbq.push_all_append split: option.splits)

lemma ring_pushes_append: "ring_pushes r xs r1 \<Longrightarrow> ring_pushes r1 ys r2 \<Longrightarrow> ring_pushes r (xs @ ys) r2"
  by (auto simp: ring_pushes_def rbq.push_all_append split: option.splits)

lemma ring_pushes_view:
  assumes "ring_pushes (Some q) xs r'" "rb_ok q"
  obtains q' where "r' = Some q'" "rb_ok q'" "rb_list q' = rb_list q @ take (RB_CAPACITY - 1 - length (rb_list q)) xs"
proof -
  obtain q' where q': "rbq.push_all q xs = Some q'" "r' = Some q'" using assms(1) by (auto simp: ring_pushes_def)
  show ?thesis using rbq.push_all_view [OF assms(2), of xs] q' by (intro that [of q']) auto
qed

lemma push_to_total: "ring_ok r \<Longrightarrow> \<exists>r'. push_to m r = Some r' \<and> ring_ok r'"
proof (cases r)
  case (Some q)
  assume "ring_ok r"
  then have "rb_ok q" by (simp add: ring_ok_def Some)
  then obtain b q' where "rb_push q m = Some (b, q')" "rb_ok q'" by (rule rbq.push_total)
  then show ?thesis by (simp add: push_to_def ring_ok_def Some)
qed (simp add: push_to_def ring_ok_def)

lemma ring_ok_push: "ring_ok r \<Longrightarrow> push_to m r = Some r' \<Longrightarrow> ring_ok r'"
  using push_to_total [of r m] by auto

subsection \<open>The steps that publish\<close>

lemma publish_row:
  assumes ok: "arrays_ok d" and i: "i < g_n_active d" and run: "publish_slot i now d = Some d'"
  defines "m \<equiv> (sl_sm (row d i))\<lparr>timestamp_ns := now\<rparr>"
  shows "touches i d d'" and "sl_wins (row d' i) = sl_wins (row d i)"
    and "sm_is_active (sl_sm (row d i)) \<Longrightarrow>
      push_to m (g_rb d) = Some (g_rb d') \<and> push_to m (g_rb_dash d) = Some (g_rb_dash d') \<and>
      sl_valid (row d' i) \<and> sl_updated (row d' i) = now \<and> sl_sm (row d' i) = m"
    and "\<not> sm_is_active (sl_sm (row d i)) \<Longrightarrow> g_rb d' = g_rb d \<and> g_rb_dash d' = g_rb_dash d \<and>
      \<not> sl_valid (row d' i) \<and> sl_sm (row d' i) = sl_sm (row d i)"
proof -
  have len: "i < MAX_PIDS" using i ok by (simp add: arrays_ok_def)
  have a: "sm_is_active (g_last_sm d ! i) = sm_is_active (sl_sm (row d i))" by (simp add: row_def)
  have "touches i d d' \<and> sl_wins (row d' i) = sl_wins (row d i) \<and>
    (if sm_is_active (sl_sm (row d i)) then
      push_to m (g_rb d) = Some (g_rb d') \<and> push_to m (g_rb_dash d) = Some (g_rb_dash d') \<and>
      sl_valid (row d' i) \<and> sl_updated (row d' i) = now \<and> sl_sm (row d' i) = m
     else g_rb d' = g_rb d \<and> g_rb_dash d' = g_rb_dash d \<and>
      \<not> sl_valid (row d' i) \<and> sl_sm (row d' i) = sl_sm (row d i))"
    using run ok len unfolding publish_slot_def a m_def Let_def
    by (auto simp: touches_def arrays_ok_def row_def split: if_splits option.splits)
  then show "touches i d d'" "sl_wins (row d' i) = sl_wins (row d i)"
    "sm_is_active (sl_sm (row d i)) \<Longrightarrow>
      push_to m (g_rb d) = Some (g_rb d') \<and> push_to m (g_rb_dash d) = Some (g_rb_dash d') \<and>
      sl_valid (row d' i) \<and> sl_updated (row d' i) = now \<and> sl_sm (row d' i) = m"
    "\<not> sm_is_active (sl_sm (row d i)) \<Longrightarrow> g_rb d' = g_rb d \<and> g_rb_dash d' = g_rb_dash d \<and>
      \<not> sl_valid (row d' i) \<and> sl_sm (row d' i) = sl_sm (row d i)" by auto
qed

lemma publish_total:
  assumes "ring_ok (g_rb d)" "ring_ok (g_rb_dash d)"
  shows "\<exists>d'. publish_slot i now d = Some d'"
  using push_to_total [OF assms(1)] push_to_total [OF assms(2)]
  by (auto simp: publish_slot_def Let_def) (metis (no_types, lifting) option.simps(5))

lemma show_row:
  assumes ok: "arrays_ok d" and i: "i < g_n_active d"
  shows "touches i d (fst (show_slot os i pid now d w))"
    and "row (fst (show_slot os i pid now d w)) i =
      (row d i)\<lparr>sl_comm := sl_comm (row (fst (show_slot os i pid now d w)) i)\<rparr>"
    and "g_rb (fst (show_slot os i pid now d w)) = g_rb d"
    and "g_rb_dash (fst (show_slot os i pid now d w)) = g_rb_dash d"
  using assms
  by (auto simp: show_slot_def Let_def touches_def arrays_ok_def row_def split: prod.split)

text \<open>The fast path: a valid, fresh entry is stamped and pushed to the main ring.\<close>

definition fresh :: "u64 \<Rightarrow> slot \<Rightarrow> bool" where
  "fresh now r \<longleftrightarrow> sl_valid r \<and> \<not> now - sl_updated r > STALE_NS"

definition stamped :: "u64 \<Rightarrow> slot \<Rightarrow> slot" where
  "stamped now r = (if fresh now r then r\<lparr>sl_sm := (sl_sm r)\<lparr>timestamp_ns := now\<rparr>\<rparr> else r)"

lemma fast_row:
  assumes ok: "arrays_ok d" and i: "i < g_n_active d" and run: "fast_slot now i d = Some d'"
  shows "touches i d d'" and "row d' i = stamped now (row d i)" and "g_rb_dash d' = g_rb_dash d"
    and "if fresh now (row d i) then push_to (sl_sm (stamped now (row d i))) (g_rb d) = Some (g_rb d')
      else d' = d"
  using assms
  by (auto simp: fast_slot_def Let_def touches_def arrays_ok_def row_def fresh_def stamped_def
      split: if_splits option.splits)

lemma fast_total: "ring_ok (g_rb d) \<Longrightarrow> \<exists>d'. fast_slot now i d = Some d'"
  using push_to_total [of "g_rb d"] by (auto simp: fast_slot_def Let_def) (metis option.simps(5))

subsection \<open>The invariant\<close>

definition slot_good :: "slot \<Rightarrow> bool" where
  "slot_good r \<longleftrightarrow> (\<forall>x \<in> set (sl_wins r). sw_ok x) \<and> (sl_valid r \<longrightarrow> sm_is_active (sl_sm r))"

text \<open>The table, the windows, the rings and the scanner are all in order.\<close>

definition daemon_ok :: "daemon \<Rightarrow> bool" where
  "daemon_ok d \<longleftrightarrow> table_ok d \<and> (\<forall>r \<in> set (rows d). slot_good r) \<and> ring_ok (g_rb d) \<and>
     ring_ok (g_rb_dash d) \<and> ps_ok (g_scanner d)"

lemma daemon_okD:
  "daemon_ok d \<Longrightarrow> table_ok d" "daemon_ok d \<Longrightarrow> arrays_ok d" "daemon_ok d \<Longrightarrow> ring_ok (g_rb d)"
  "daemon_ok d \<Longrightarrow> ring_ok (g_rb_dash d)" "daemon_ok d \<Longrightarrow> ps_ok (g_scanner d)"
  by (simp_all add: daemon_ok_def table_ok_def)

lemma daemon_ok_zero: "daemon_ok (globals_zero c)"
proof -
  have "arrays_ok (globals_zero c)" "rows (globals_zero c) = []"
    by (simp_all add: arrays_ok_def globals_zero_def rows_def Let_def)
  then show ?thesis
    by (simp add: daemon_ok_def table_ok_def) (simp add: globals_zero_def ring_ok_def ps_ok_def proc_scanner_init_def Let_def)
qed

lemma slot_good_row: "daemon_ok d \<Longrightarrow> i < g_n_active d \<Longrightarrow> slot_good (row d i)"
  using nth_mem [of i "rows d"] by (simp add: daemon_ok_def)

lemma slot_good_new: "new_row p r \<Longrightarrow> slot_good r"
  by (auto simp: new_row_def fresh_slot_def slot_good_def sw_ok_init)

lemma slot_good_history: "slot_good (history r) = slot_good r"
  by (simp add: slot_good_def history_def)

text \<open>A step that touches one row keeps the invariant if it keeps it for that row and the rings.\<close>

lemma daemon_ok_touch:
  assumes ok: "daemon_ok d" and i: "i < g_n_active d" and t: "touches i d d'"
    and "slot_good (row d' i)" "ring_ok (g_rb d')" "ring_ok (g_rb_dash d')"
  shows "daemon_ok d'"
proof -
  have "set (rows d') \<subseteq> insert (row d' i) (set (rows d))"
    unfolding touches_rows [OF t i] by (rule set_update_subset_insert)
  moreover have "\<forall>r \<in> set (rows d). slot_good r" using ok by (simp add: daemon_ok_def)
  moreover have "table_ok d'" by (rule touches_table_ok [OF t daemon_okD(1) [OF ok]])
  moreover have "g_scanner d' = g_scanner d" using t by (simp add: touches_def)
  ultimately show ?thesis using assms(4-6) ok unfolding daemon_ok_def by auto
qed

lemma remove_daemon_ok [keeps]:
  assumes ok: "daemon_ok d" and i: "i < g_n_active d"
  shows "daemon_ok (fst (remove_slot os i d w))"
proof -
  let ?d = "fst (remove_slot os i d w)"
  have "frame ?d = frame d" by simp
  then have f: "g_rb ?d = g_rb d" "g_rb_dash ?d = g_rb_dash d" "g_scanner ?d = g_scanner d"
    by (simp_all add: frame_def)
  have "set_mset (mset (rows ?d)) \<subseteq> set_mset (mset (rows d))"
    unfolding mset_remove_rows [OF daemon_okD(2) [OF ok] i] by (rule set_mset_mono) simp
  moreover have "table_ok ?d" by (rule remove_table_ok [OF daemon_okD(1) [OF ok] i])
  ultimately show ?thesis using ok unfolding daemon_ok_def f by auto
qed

lemma sw_ok_map2: "\<forall>x \<in> set ws. sw_ok x \<Longrightarrow> \<forall>x \<in> set (map2 sw_push ws vs). sw_ok x"
  by (auto simp: sw_ok_push dest: set_zip_leftD)

lemma sample_reset_ok [keeps]:
  assumes ok: "daemon_ok d" and i: "i < g_n_active d" and run: "sample_slot os i dt hw d w = (False, d', w')"
  shows "daemon_ok d'"
proof (rule daemon_ok_touch [OF ok i])
  note t = sample_touches [OF daemon_okD(2) [OF ok] i run]
  show "touches i d d'" by (rule t(1))
  show "slot_good (row d' i)" using slot_good_row [OF ok i] t(4,5) by (simp add: slot_good_def)
  show "ring_ok (g_rb d')" "ring_ok (g_rb_dash d')" using daemon_okD [OF ok] t(2,3) by simp_all
qed

text \<open>Sampling and publishing together: the row is active and valid, or neither is claimed.\<close>

lemma publish_ok [keeps]:
  assumes ok: "daemon_ok d" and i: "i < g_n_active d" and run: "sample_slot os i dt hw d w = (True, d1, w1)"
    and pub: "publish_slot i now d1 = Some d2"
  shows "daemon_ok d2" and "touches i d d2" and "sm_cpu_id (sl_sm (row d2 i)) = -1"
    and "sm_pid (sl_sm (row d2 i)) = sl_pid (row d2 i)"
    and "if sl_valid (row d2 i)
      then sl_updated (row d2 i) = now \<and> timestamp_ns (sl_sm (row d2 i)) = now \<and> sm_is_active (sl_sm (row d2 i)) \<and>
        push_to (sl_sm (row d2 i)) (g_rb d) = Some (g_rb d2) \<and>
        push_to (sl_sm (row d2 i)) (g_rb_dash d) = Some (g_rb_dash d2)
      else g_rb d2 = g_rb d \<and> g_rb_dash d2 = g_rb_dash d"
proof -
  have a: "arrays_ok d" by (rule daemon_okD(2) [OF ok])
  note t = sample_touches [OF a i run]
  have a1: "arrays_ok d1" and i1: "i < g_n_active d1" using t(1) i by (simp_all add: touches_def)
  note p = publish_row [OF a1 i1 pub]
  show tt: "touches i d d2" by (rule touches_trans [OF t(1) p(1)])
  obtain r :: rates where w: "sl_wins (row d1 i) = map2 sw_push (sl_wins (row d i))
     [r_ipc r, r_llc r, r_ctx r, r_io r, r_io_wait r, r_rq_wait r, r_migration r, r_io_syscall r]"
    using t(6) by blast
  have "\<forall>x \<in> set (sl_wins (row d i)). sw_ok x" using slot_good_row [OF ok i] by (simp add: slot_good_def)
  then have wok: "\<forall>x \<in> set (sl_wins (row d1 i)). sw_ok x" unfolding w by (rule sw_ok_map2)
  have pid: "sm_pid (sl_sm (row d1 i)) = sl_pid (row d i)" "sm_cpu_id (sl_sm (row d1 i)) = -1" using t(6) by auto
  have pd: "sl_pid (row d2 i) = sl_pid (row d i)" using tt i by (simp add: touches_def)
  have c: "if sl_valid (row d2 i)
      then sl_updated (row d2 i) = now \<and> timestamp_ns (sl_sm (row d2 i)) = now \<and> sm_is_active (sl_sm (row d2 i)) \<and>
        push_to (sl_sm (row d2 i)) (g_rb d) = Some (g_rb d2) \<and>
        push_to (sl_sm (row d2 i)) (g_rb_dash d) = Some (g_rb_dash d2)
      else g_rb d2 = g_rb d \<and> g_rb_dash d2 = g_rb_dash d"
    and id: "sm_cpu_id (sl_sm (row d2 i)) = -1" "sm_pid (sl_sm (row d2 i)) = sl_pid (row d2 i)"
    using p(3,4) pid pd t(2,3) by (cases "sm_is_active (sl_sm (row d1 i))"; auto)+
  show "sm_cpu_id (sl_sm (row d2 i)) = -1" "sm_pid (sl_sm (row d2 i)) = sl_pid (row d2 i)" by (fact id)+
  show "if sl_valid (row d2 i)
      then sl_updated (row d2 i) = now \<and> timestamp_ns (sl_sm (row d2 i)) = now \<and> sm_is_active (sl_sm (row d2 i)) \<and>
        push_to (sl_sm (row d2 i)) (g_rb d) = Some (g_rb d2) \<and>
        push_to (sl_sm (row d2 i)) (g_rb_dash d) = Some (g_rb_dash d2)
      else g_rb d2 = g_rb d \<and> g_rb_dash d2 = g_rb_dash d" by (fact c)
  have "ring_ok (g_rb d2) \<and> ring_ok (g_rb_dash d2)"
    using c daemon_okD [OF ok] ring_ok_push [of "g_rb d" "sl_sm (row d2 i)"] ring_ok_push [of "g_rb_dash d" "sl_sm (row d2 i)"]
    by (cases "sl_valid (row d2 i)") auto
  moreover have "slot_good (row d2 i)" using wok p(2) c by (simp add: slot_good_def)
  ultimately show "daemon_ok d2" using daemon_ok_touch [OF ok i tt] by simp
qed

lemma show_ok [keeps]:
  assumes ok: "daemon_ok d" and i: "i < g_n_active d"
  shows "daemon_ok (fst (show_slot os i pid now d w))"
proof (rule daemon_ok_touch [OF ok i])
  note t = show_row [OF daemon_okD(2) [OF ok] i, of os pid now w]
  show "touches i d (fst (show_slot os i pid now d w))" by (rule t(1))
  show "slot_good (row (fst (show_slot os i pid now d w)) i)"
    using slot_good_row [OF ok i] by (subst t(2)) (simp add: slot_good_def)
  show "ring_ok (g_rb (fst (show_slot os i pid now d w)))"
    "ring_ok (g_rb_dash (fst (show_slot os i pid now d w)))" using daemon_okD [OF ok] t(3,4) by simp_all
qed

lemma fast_ok [keeps]:
  assumes ok: "daemon_ok d" and i: "i < g_n_active d" and run: "fast_slot now i d = Some d'"
  shows "daemon_ok d'"
proof (rule daemon_ok_touch [OF ok i])
  note t = fast_row [OF daemon_okD(2) [OF ok] i run]
  show "touches i d d'" by (rule t(1))
  show "slot_good (row d' i)"
    using slot_good_row [OF ok i] by (auto simp: t(2) stamped_def slot_good_def)
  show "ring_ok (g_rb d')" using t(4) daemon_okD(3) [OF ok] ring_ok_push by (metis (full_types))
  show "ring_ok (g_rb_dash d')" using t(3) daemon_okD(4) [OF ok] by simp
qed

subsection \<open>The slow path\<close>

text \<open>A row that the slow path published at \<open>now\<close>.\<close>

definition published :: "u64 \<Rightarrow> slot \<Rightarrow> bool" where
  "published now r \<longleftrightarrow> sl_valid r \<and> sl_updated r = now \<and> timestamp_ns (sl_sm r) = now \<and>
     sm_is_active (sl_sm r) \<and> sm_pid (sl_sm r) = sl_pid r \<and> sm_cpu_id (sl_sm r) = -1"

text \<open>
  What the kernel may answer about the process of a slot \<open>r\<close>: its counters cannot be read; they, or
  the tracer's, have gone back, and the baselines are to be set anew; or there are the rates of the
  interval since the baselines, and the state with the baselines moved on.
\<close>

datatype reading = Unreadable | Went_back PidState | Rates PidState rates

definition read_slot :: "'w sys \<Rightarrow> ebpf_tracer_t \<Rightarrow> real \<Rightarrow> slot \<Rightarrow> io_fd_stats \<Rightarrow> 'w \<Rightarrow> reading" where
  "read_slot os et dt r stats w =
    (let (e, hw, w1) = perf_counter_read (sys_perf os) (sl_perf r) w in
     if e \<noteq> 0 then Unreadable else
     let st = sl_state r; p = u32_of_int (st_pid st);
         ctx = ebpf_tracer_read_switches (sys_bpf os) et p w1;
         io_wait = ebpf_tracer_read_io_wait_ns (sys_bpf os) et p w1;
         rq_wait = ebpf_tracer_read_rq_wait_ns (sys_bpf os) et p w1
     in if went_back ctx io_wait rq_wait hw st then Went_back (reset_baselines ctx io_wait rq_wait hw st) else
     let (io, sysc, st1, stats', w2) = refresh_io os st stats w1;
         n_io = ebpf_tracer_read_io (sys_bpf os) et p w2;
         cpu = ebpf_tracer_read_last_cpu (sys_bpf os) et p w2
     in Rates (advance_baselines hw ctx io_wait rq_wait io sysc n_io cpu st1)
          (interval_rates dt hw ctx io_wait rq_wait io sysc n_io cpu st1))"

text \<open>
  What becomes of the row of a slot whose rates were read: they go into its eight windows, its
  sample is the eight means for its pid, and it becomes valid, stamped and refreshed at \<open>now\<close>,
  exactly when that sample is active.
\<close>

definition sampled :: "u64 \<Rightarrow> PidState \<Rightarrow> rates \<Rightarrow> slot \<Rightarrow> slot \<Rightarrow> bool" where
  "sampled now st q r r' \<longleftrightarrow> sl_state r' = st \<and> sl_perf r' = sl_perf r \<and>
     sl_wins r' = map2 sw_push (sl_wins r)
       [r_ipc q, r_llc q, r_ctx q, r_io q, r_io_wait q, r_rq_wait q, r_migration q, r_io_syscall q] \<and>
     sm_metrics (sl_sm r') = map sw_mean (sl_wins r') \<and>
     sm_pid (sl_sm r') = sl_pid r \<and> sm_cpu_id (sl_sm r') = -1 \<and>
     hw_pmu_available (sl_sm r') = hw_available (sl_perf r) \<and> (sl_valid r' \<longleftrightarrow> sm_is_active (sl_sm r')) \<and>
     (if sl_valid r' then sl_updated r' = now \<and> timestamp_ns (sl_sm r') = now
      else sl_updated r' = sl_updated r \<and> timestamp_ns (sl_sm r') = timestamp_ns (sl_sm r))"

text \<open>
  A slot the loop has finished and kept: what was read, and its row before and after. The samples
  to be published are those of the sampled slots that came out active.
\<close>

type_synonym visit = "reading \<times> slot \<times> slot"

abbreviation row_before :: "visit \<Rightarrow> slot" where "row_before v \<equiv> fst (snd v)"
abbreviation row_after :: "visit \<Rightarrow> slot" where "row_after v \<equiv> snd (snd v)"

definition visit_ok :: "'w sys \<Rightarrow> ebpf_tracer_t \<Rightarrow> real \<Rightarrow> u64 \<Rightarrow> visit \<Rightarrow> bool" where
  "visit_ok os et dt now v \<longleftrightarrow> (case v of (x, r, r') \<Rightarrow> (\<exists>stats w. read_slot os et dt r stats w = x) \<and>
     (case x of Unreadable \<Rightarrow> False | Went_back st \<Rightarrow> r' = r\<lparr>sl_state := st\<rparr> | Rates st q \<Rightarrow> sampled now st q r r'))"

fun published_by :: "visit \<Rightarrow> bool" where
  "published_by (Rates st q, r, r') = sm_is_active (sl_sm r')"
| "published_by _ = False"

definition to_publish :: "visit list \<Rightarrow> slot list" where
  "to_publish vs = map row_after (filter published_by vs)"

definition unreadable :: "'w sys \<Rightarrow> ebpf_tracer_t \<Rightarrow> real \<Rightarrow> slot \<Rightarrow> bool" where
  "unreadable os et dt r \<longleftrightarrow> (\<exists>stats w. read_slot os et dt r stats w = Unreadable)"

text \<open>
  After the first \<open>i\<close> rows: the rows of the start are the visited ones, the dropped ones and the
  ones still to come, and both rings have been offered the samples of the visited rows.
\<close>

definition slow_progress :: "'w sys \<Rightarrow> real \<Rightarrow> u64 \<Rightarrow> daemon \<Rightarrow> nat \<Rightarrow> daemon \<Rightarrow> bool" where
  "slow_progress os dt now d0 i d \<longleftrightarrow> daemon_ok d \<and> g_cfg d = g_cfg d0 \<and> g_tracer d = g_tracer d0 \<and>
     (\<exists>vs gone. take i (rows d) = map row_after vs \<and>
       mset (map row_before vs) + gone + mset (drop i (rows d)) = mset (rows d0) \<and>
       (\<forall>r \<in># gone. unreadable os (g_tracer d0) dt r) \<and> (\<forall>v \<in> set vs. visit_ok os (g_tracer d0) dt now v) \<and>
       ring_pushes (g_rb d0) (map sl_sm (to_publish vs)) (g_rb d) \<and>
       ring_pushes (g_rb_dash d0) (map sl_sm (to_publish vs)) (g_rb_dash d))"

lemma progress_daemon_ok: "slow_progress os dt now d0 i d \<Longrightarrow> daemon_ok d"
  by (simp add: slow_progress_def)

lemma take_touched:
  assumes "touches i d d'" "i < g_n_active d"
  shows "take (Suc i) (rows d') = take i (rows d) @ [row d' i]" and "drop (Suc i) (rows d') = drop (Suc i) (rows d)"
  using assms by (simp_all add: touches_rows take_Suc_update)

lemma drop_row: "i < g_n_active d \<Longrightarrow> drop i (rows d) = row d i # drop (Suc i) (rows d)"
  by (simp add: Cons_nth_drop_Suc [symmetric])

text \<open>Going on with one more visited row, with or without a sample offered to the rings.\<close>

lemma progress_visit:
  assumes o: "slow_progress os dt now d0 i d" and i: "i < g_n_active d" and t: "touches i d d'" and ok: "daemon_ok d'"
    and v: "visit_ok os (g_tracer d0) dt now (x, row d i, row d' i)"
    and r: "if published_by (x, row d i, row d' i)
      then push_to (sl_sm (row d' i)) (g_rb d) = Some (g_rb d') \<and> push_to (sl_sm (row d' i)) (g_rb_dash d) = Some (g_rb_dash d')
      else g_rb d' = g_rb d \<and> g_rb_dash d' = g_rb_dash d"
  shows "slow_progress os dt now d0 (Suc i) d'"
proof -
  obtain vs gone where vs: "take i (rows d) = map row_after vs"
    "mset (map row_before vs) + gone + mset (drop i (rows d)) = mset (rows d0)" "\<forall>r \<in># gone. unreadable os (g_tracer d0) dt r"
    "\<forall>v \<in> set vs. visit_ok os (g_tracer d0) dt now v"
    "ring_pushes (g_rb d0) (map sl_sm (to_publish vs)) (g_rb d)"
    "ring_pushes (g_rb_dash d0) (map sl_sm (to_publish vs)) (g_rb_dash d)" using o unfolding slow_progress_def by blast
  let ?vs = "vs @ [(x, row d i, row d' i)]"
  have "take (Suc i) (rows d') = map row_after ?vs" using take_touched(1) [OF t i] vs(1) by simp
  moreover have "mset (map row_before ?vs) + gone + mset (drop (Suc i) (rows d')) = mset (rows d0)"
    using vs(2) take_touched(2) [OF t i] by (simp add: drop_row [OF i])
  moreover have "ring_pushes (g_rb d0) (map sl_sm (to_publish ?vs)) (g_rb d')"
    "ring_pushes (g_rb_dash d0) (map sl_sm (to_publish ?vs)) (g_rb_dash d')"
    using vs(5,6) r by (auto simp: to_publish_def intro: ring_pushes_snoc split: if_splits)
  moreover have "\<forall>v \<in> set ?vs. visit_ok os (g_tracer d0) dt now v" using vs(4) v by simp
  moreover have "g_cfg d' = g_cfg d0" "g_tracer d' = g_tracer d0" using t o by (simp_all add: touches_def slow_progress_def)
  ultimately show ?thesis using vs(3) ok unfolding slow_progress_def by blast
qed

lemma progress_remove:
  assumes o: "slow_progress os dt now d0 i d" and i: "i < g_n_active d" and u: "unreadable os (g_tracer d0) dt (row d i)"
  shows "slow_progress os dt now d0 i (fst (remove_slot os i d w))"
proof -
  let ?d = "fst (remove_slot os i d w)"
  have ok: "daemon_ok d" by (rule progress_daemon_ok [OF o])
  obtain vs gone where vs: "take i (rows d) = map row_after vs"
    "mset (map row_before vs) + gone + mset (drop i (rows d)) = mset (rows d0)" "\<forall>r \<in># gone. unreadable os (g_tracer d0) dt r"
    "\<forall>v \<in> set vs. visit_ok os (g_tracer d0) dt now v"
    "ring_pushes (g_rb d0) (map sl_sm (to_publish vs)) (g_rb d)"
    "ring_pushes (g_rb_dash d0) (map sl_sm (to_publish vs)) (g_rb_dash d)" using o unfolding slow_progress_def by blast
  have "frame ?d = frame d" by simp
  then have f: "g_rb ?d = g_rb d" "g_rb_dash ?d = g_rb_dash d" "g_cfg ?d = g_cfg d" "g_tracer ?d = g_tracer d"
    by (simp_all add: frame_def)
  note s = rows_remove_split [OF daemon_okD(2) [OF ok] i, of os w]
  have "mset (map row_before vs) + add_mset (row d i) gone + mset (drop i (rows ?d)) = mset (rows d0)"
    using vs(2) s(2) by (simp add: drop_row [OF i])
  moreover have "\<forall>r \<in># add_mset (row d i) gone. unreadable os (g_tracer d0) dt r" using vs(3) u by simp
  moreover have "daemon_ok ?d" by (rule remove_daemon_ok [OF ok i])
  moreover have "g_cfg ?d = g_cfg d0" "g_tracer ?d = g_tracer d0" using f o by (simp_all add: slow_progress_def)
  moreover have "take i (rows ?d) = map row_after vs" using vs(1) s(1) by simp
  ultimately show ?thesis using vs(4-6) unfolding slow_progress_def f(1,2) by blast
qed

text \<open>Sampling one slot of the table, in these terms.\<close>

lemma sample_reads:
  assumes ok: "arrays_ok d" and i: "i < g_n_active d"
    and pr: "perf_counter_read (sys_perf os) (g_perf d ! i) w = (0, hw, w1)"
    and run: "sample_slot os i dt hw d w1 = (b, d1, w2)"
  shows "case read_slot os (g_tracer d) dt (row d i) (io_stats d) w of
      Unreadable \<Rightarrow> False
    | Went_back st \<Rightarrow> \<not> b \<and> row d1 i = (row d i)\<lparr>sl_state := st\<rparr>
    | Rates st q \<Rightarrow> b \<and> (\<exists>stats. d1 = (let d2 = push_windows i q (d\<lparr>g_states := (g_states d)[i := st], io_stats := stats\<rparr>)
        in d2\<lparr>g_last_sm := (g_last_sm d)[i := smoothed i (st_pid (g_states d ! i)) d2]\<rparr>))"
proof -
  have row: "sl_state (row d i) = g_states d ! i" "sl_perf (row d i) = g_perf d ! i" by (simp_all add: row_def)
  have len: "i < length (g_states d)" using i ok by (simp add: arrays_ok_def)
  obtain io sysc st1 stats w3 where rf: "refresh_io os (g_states d ! i) (io_stats d) w1 = (io, sysc, st1, stats, w3)"
    by (metis prod_cases5)
  show ?thesis
    using run len by (auto simp: read_slot_def row pr rf sample_slot_def Let_def split: if_splits) (auto simp: row_def)
qed

lemma sampled_row:
  assumes ok: "arrays_ok d" and i: "i < g_n_active d" and pid: "st_pid st = st_pid (g_states d ! i)"
    and d1: "d1 = (let d2 = push_windows i q (d\<lparr>g_states := (g_states d)[i := st], io_stats := stats\<rparr>)
        in d2\<lparr>g_last_sm := (g_last_sm d)[i := smoothed i (st_pid (g_states d ! i)) d2]\<rparr>)"
    and pub: "publish_slot i now d1 = Some d2"
  shows "sampled now st q (row d i) (row d2 i)"
    and "if sm_is_active (sl_sm (row d2 i))
      then push_to (sl_sm (row d2 i)) (g_rb d) = Some (g_rb d2) \<and> push_to (sl_sm (row d2 i)) (g_rb_dash d) = Some (g_rb_dash d2)
      else g_rb d2 = g_rb d \<and> g_rb_dash d2 = g_rb_dash d"
proof -
  have len: "i < MAX_PIDS" using i ok by (simp add: arrays_ok_def)
  let ?m = "g_last_sm d1 ! i"
  have a1: "arrays_ok d1" and rings: "g_rb d1 = g_rb d" "g_rb_dash d1 = g_rb_dash d"
    using ok by (simp_all add: d1 arrays_ok_def Let_def push_windows_def)
  have act: "sm_is_active (?m\<lparr>timestamp_ns := now\<rparr>) = sm_is_active ?m" by (simp add: sm_is_active_def)
  have r1: "sampled now st q (row d i) ((row d1 i)\<lparr>sl_valid := sm_is_active ?m,
      sl_sm := (if sm_is_active ?m then ?m\<lparr>timestamp_ns := now\<rparr> else ?m), sl_updated := (if sm_is_active ?m then now else sl_updated (row d i))\<rparr>)"
    using ok len act unfolding d1
    by (simp add: sampled_def row_def arrays_ok_def Let_def push_windows_def smoothed_def sm_metrics_def)
  have r2: "row d2 i = (row d1 i)\<lparr>sl_valid := sm_is_active ?m,
      sl_sm := (if sm_is_active ?m then ?m\<lparr>timestamp_ns := now\<rparr> else ?m), sl_updated := (if sm_is_active ?m then now else sl_updated (row d i))\<rparr>"
    using pub a1 len unfolding publish_slot_def
    by (auto simp: Let_def row_def arrays_ok_def split: if_splits option.splits) (simp_all add: d1 Let_def push_windows_def)
  show "sampled now st q (row d i) (row d2 i)" unfolding r2 by (rule r1)
  have "sl_sm (row d2 i) = (if sm_is_active ?m then ?m\<lparr>timestamp_ns := now\<rparr> else ?m)" unfolding r2 by simp
  then show "if sm_is_active (sl_sm (row d2 i))
      then push_to (sl_sm (row d2 i)) (g_rb d) = Some (g_rb d2) \<and> push_to (sl_sm (row d2 i)) (g_rb_dash d) = Some (g_rb_dash d2)
      else g_rb d2 = g_rb d \<and> g_rb_dash d2 = g_rb_dash d"
    using pub act unfolding publish_slot_def Let_def by (auto simp: rings split: if_splits option.splits)
qed

text \<open>The name of the process is no part of this.\<close>

lemma sampled_comm [simp]: "sampled now st q r (r'\<lparr>sl_comm := c\<rparr>) = sampled now st q r r'"
  by (simp add: sampled_def)

lemma read_slot_pid: "read_slot os et dt r stats w = Rates st q \<Longrightarrow> st_pid st = sl_pid r"
  using refresh_io_state
  by (auto simp: read_slot_def Let_def advance_baselines_def split: prod.splits if_splits)

lemma slow_loop_progress:
  assumes "daemon_ok d0"
  shows "\<exists>d' w'. slow_loop os dt now limit 0 shown d0 w0 = Some (d', w') \<and> slow_progress os dt now d0 (g_n_active d') d'"
proof -
  have start: "slow_progress os dt now d0 0 d0"
    using assms by (auto simp: slow_progress_def to_publish_def intro!: exI [of _ "[]"] exI [of _ "{#}"])
  have tr: "g_tracer d = g_tracer d0" if "slow_progress os dt now d0 i d" for i d using that by (simp add: slow_progress_def)
  have "\<exists>d' w' i'. slow_loop os dt now limit 0 shown d0 w0 = Some (d', w') \<and> g_n_active d' \<le> i' \<and> slow_progress os dt now d0 i' d'"
  proof (rule slow_loop_rule [where P = "\<lambda>i d w. slow_progress os dt now d0 i d", OF start], goal_cases)
    case (1 i d w r hw w1 d' w')
    have "read_slot os (g_tracer d0) dt (row d i) (io_stats d) w = Unreadable"
      using 1(3,4) by (simp add: read_slot_def row_def)
    then have "unreadable os (g_tracer d0) dt (row d i)" unfolding unreadable_def by blast
    from progress_remove [OF 1(1,2) this, of w1] show ?case using 1(5) by simp
  next
    case (2 i d w hw w1 d' w')
    note a = daemon_okD(2) [OF progress_daemon_ok [OF 2(1)]]
    note t = sample_touches [OF a 2(2,4)]
    obtain st where st: "read_slot os (g_tracer d0) dt (row d i) (io_stats d) w = Went_back st" "row d' i = (row d i)\<lparr>sl_state := st\<rparr>"
      using sample_reads [OF a 2(2-4)] tr [OF 2(1)] by (auto split: reading.splits)
    then have "visit_ok os (g_tracer d0) dt now (Went_back st, row d i, row d' i)" by (auto simp: visit_ok_def)
    from progress_visit [OF 2(1,2) t(1) sample_reset_ok [OF progress_daemon_ok [OF 2(1)] 2(2,4)] this] t(2,3) show ?case by simp
  next
    case (3 i d w hw w1 d1 w2)
    note ok = progress_daemon_ok [OF 3(1)]
    note a = daemon_okD(2) [OF ok]
    note t = sample_touches [OF a 3(2,4)]
    have "ring_ok (g_rb d1)" "ring_ok (g_rb_dash d1)" using daemon_okD [OF ok] t(2,3) by simp_all
    from publish_total [OF this] obtain d2 where d2: "publish_slot i now d1 = Some d2" by blast
    obtain st q stats where st: "read_slot os (g_tracer d0) dt (row d i) (io_stats d) w = Rates st q"
      and d1: "d1 = (let d2 = push_windows i q (d\<lparr>g_states := (g_states d)[i := st], io_stats := stats\<rparr>)
        in d2\<lparr>g_last_sm := (g_last_sm d)[i := smoothed i (st_pid (g_states d ! i)) d2]\<rparr>)"
      using sample_reads [OF a 3(2-4)] tr [OF 3(1)] by (auto split: reading.splits)
    have "st_pid st = st_pid (g_states d ! i)" using read_slot_pid [OF st] by (simp add: row_def)
    note s = sampled_row [OF a 3(2) this d1 d2]
    note p = publish_ok [OF ok 3(2,4) d2]
    have i2: "i < g_n_active d2" using p(2) 3(2) by (simp add: touches_def)
    let ?s = "fst (show_slot os i (st_pid (g_states d ! i)) now d2 w2)"
    note sh = show_row [OF daemon_okD(2) [OF p(1)] i2, of os "st_pid (g_states d ! i)" now w2]
    have so: "daemon_ok ?s" by (rule show_ok [OF p(1) i2])
    have ts: "touches i d ?s" by (rule touches_trans [OF p(2) sh(1)])
    have srow: "sl_sm (row ?s i) = sl_sm (row d2 i)" "sampled now st q (row d i) (row ?s i)"
      by (subst sh(2), simp add: s(1))+
    have "slow_progress os dt now d0 (Suc i) d2"
      using s by (intro progress_visit [OF 3(1,2) p(2,1), of "Rates st q"]) (use st in \<open>auto simp: visit_ok_def\<close>)
    moreover have "slow_progress os dt now d0 (Suc i) ?s"
      using srow(2) s(2) by (intro progress_visit [OF 3(1,2) ts so, of "Rates st q"])
        (use st in \<open>auto simp: visit_ok_def srow(1) sh(3,4)\<close>)
    ultimately show ?case using d2 by blast
  qed
  then obtain d' w' i' where "slow_loop os dt now limit 0 shown d0 w0 = Some (d', w')"
    "g_n_active d' \<le> i'" "slow_progress os dt now d0 i' d'" by blast
  moreover from this have "slow_progress os dt now d0 (g_n_active d') d'" by (simp add: slow_progress_def)
  ultimately show ?thesis by blast
qed

text \<open>What reached the rings, and what is left in the table.\<close>

lemma to_publish_published:
  assumes "\<forall>v \<in> set vs. visit_ok os et dt now v"
  shows "subseq (to_publish vs) (map row_after vs) \<and> (\<forall>r \<in> set (to_publish vs). published now r)"
proof
  show "subseq (to_publish vs) (map row_after vs)"
    unfolding to_publish_def by (rule subseq_map) (rule subseq_filter_left)
  have "published now (row_after v)" if v: "v \<in> set vs" and p: "published_by v" for v
  proof -
    obtain x r r' where e: "v = (x, r, r')" by (metis prod_cases3)
    with p obtain st q where x: "x = Rates st q" by (cases x) auto
    obtain stats w where rd: "read_slot os et dt r stats w = Rates st q" and s: "sampled now st q r r'"
      using assms v by (fastforce simp: visit_ok_def e x)
    have "sl_pid r' = sl_pid r" using s read_slot_pid [OF rd] by (simp add: sampled_def)
    then show ?thesis using s p by (simp add: e x published_def sampled_def)
  qed
  then show "\<forall>r \<in> set (to_publish vs). published now r" by (auto simp: to_publish_def)
qed

lemma progress_end:
  assumes "slow_progress os dt now d0 (g_n_active d) d"
  obtains vs gone where "rows d = map row_after vs" "mset (map row_before vs) + gone = mset (rows d0)"
    "\<forall>r \<in># gone. unreadable os (g_tracer d0) dt r" "\<forall>v \<in> set vs. visit_ok os (g_tracer d0) dt now v"
    "ring_pushes (g_rb d0) (map sl_sm (to_publish vs)) (g_rb d)"
    "ring_pushes (g_rb_dash d0) (map sl_sm (to_publish vs)) (g_rb_dash d)"
    "subseq (to_publish vs) (rows d)" "\<forall>r \<in> set (to_publish vs). published now r"
proof -
  obtain vs gone where vs: "rows d = map row_after vs" "mset (map row_before vs) + gone = mset (rows d0)"
    "\<forall>r \<in># gone. unreadable os (g_tracer d0) dt r" "\<forall>v \<in> set vs. visit_ok os (g_tracer d0) dt now v"
    "ring_pushes (g_rb d0) (map sl_sm (to_publish vs)) (g_rb d)"
    "ring_pushes (g_rb_dash d0) (map sl_sm (to_publish vs)) (g_rb_dash d)"
    using assms by (auto simp: slow_progress_def)
  with to_publish_published [OF vs(4)] that show thesis by metis
qed

subsection \<open>The fast path\<close>

definition fast_entries :: "u64 \<Rightarrow> slot list \<Rightarrow> SmoothedMetrics list" where
  "fast_entries now rs = map (\<lambda>r. sl_sm (stamped now r)) (filter (fresh now) rs)"

lemma fast_loop_publishes:
  "daemon_ok d \<Longrightarrow> set is \<subseteq> {..<g_n_active d} \<Longrightarrow> distinct is \<Longrightarrow>
   \<exists>d'. fast_loop now is d = Some d' \<and> daemon_ok d' \<and> g_n_active d' = g_n_active d \<and> g_cfg d' = g_cfg d \<and>
     g_rb_dash d' = g_rb_dash d \<and>
     (\<forall>j < g_n_active d. row d' j = (if j \<in> set is then stamped now (row d j) else row d j)) \<and>
     ring_pushes (g_rb d) (fast_entries now (map (row d) is)) (g_rb d')"
proof (induction "is" arbitrary: d)
  case Nil
  then show ?case by (simp add: fast_entries_def)
next
  case (Cons i "is")
  have i: "i < g_n_active d" using Cons.prems(2) by simp
  obtain d1 where d1: "fast_slot now i d = Some d1" using fast_total [OF daemon_okD(3) [OF Cons.prems(1)]] by blast
  note f = fast_row [OF daemon_okD(2) [OF Cons.prems(1)] i d1]
  have ok1: "daemon_ok d1" by (rule fast_ok [OF Cons.prems(1) i d1])
  have n1: "g_n_active d1 = g_n_active d" "g_cfg d1 = g_cfg d" and oth: "\<forall>j < g_n_active d. j \<noteq> i \<longrightarrow> row d1 j = row d j"
    using f(1) by (simp_all add: touches_def)
  have is1: "set is \<subseteq> {..<g_n_active d1}" "distinct is" "i \<notin> set is" using Cons.prems(2,3) n1 by auto
  from Cons.IH [OF ok1 is1(1,2)] obtain d' where d': "fast_loop now is d1 = Some d'" "daemon_ok d'"
    "g_n_active d' = g_n_active d1" "g_cfg d' = g_cfg d1" "g_rb_dash d' = g_rb_dash d1"
    "\<forall>j < g_n_active d1. row d' j = (if j \<in> set is then stamped now (row d1 j) else row d1 j)"
    "ring_pushes (g_rb d1) (fast_entries now (map (row d1) is)) (g_rb d')" by blast
  have m: "map (row d1) is = map (row d) is"
    using is1 n1 oth by (auto intro!: map_cong)
  have p: "ring_pushes (g_rb d) (fast_entries now [row d i]) (g_rb d1)"
    using f(4) ring_pushes_snoc [of "g_rb d" "[]" "g_rb d"]
    by (cases "fresh now (row d i)") (simp_all add: fast_entries_def)
  have "fast_entries now (map (row d) (i # is)) = fast_entries now [row d i] @ fast_entries now (map (row d) is)"
    by (simp add: fast_entries_def)
  then have "ring_pushes (g_rb d) (fast_entries now (map (row d) (i # is))) (g_rb d')"
    using ring_pushes_append [OF p d'(7) [unfolded m]] by simp
  moreover have "\<forall>j < g_n_active d. row d' j = (if j \<in> set (i # is) then stamped now (row d j) else row d j)"
    using d'(6) n1 oth is1(3) f(2) by auto
  ultimately show ?case using d' d1 n1 f(3) by simp
qed

lemma fast_path_result:
  assumes "daemon_ok d"
  shows "\<exists>d'. fast_path now d = Some d' \<and> daemon_ok d' \<and> g_cfg d' = g_cfg d \<and> g_rb_dash d' = g_rb_dash d \<and>
    rows d' = map (stamped now) (rows d) \<and> ring_pushes (g_rb d) (fast_entries now (rows d)) (g_rb d')"
proof -
  from fast_loop_publishes [OF assms, of "[0..<g_n_active d]" now] obtain d' where
    d': "fast_path now d = Some d'" "daemon_ok d'" "g_n_active d' = g_n_active d" "g_cfg d' = g_cfg d"
    "g_rb_dash d' = g_rb_dash d" "\<forall>j < g_n_active d. row d' j = stamped now (row d j)"
    "ring_pushes (g_rb d) (fast_entries now (rows d)) (g_rb d')"
    by (auto simp: fast_path_def rows_def atLeast0LessThan)
  have "rows d' = map (stamped now) (rows d)" by (rule rows_eqI) (simp_all add: d')
  with d' show ?thesis by blast
qed

subsection \<open>Synchronisation keeps the invariant\<close>

lemma tracks_slot_good:
  assumes "tracks d P d'" "\<forall>r \<in> set (rows d). slot_good r"
  shows "\<forall>r \<in> set (rows d'). slot_good r"
proof
  fix r assume "r \<in> set (rows d')"
  then have "history r \<in> history ` set (rows d) \<or> (\<exists>r0. new_row (sl_pid r) r0 \<and> history r = history r0)"
    using assms(1) by (auto simp: tracks_def)
  then show "slot_good r"
    using assms(2) slot_good_history slot_good_new by (metis imageE)
qed

lemma tracks_daemon_ok:
  assumes "daemon_ok d" "tracks d P d'"
  shows "daemon_ok d'"
  using assms tracks_slot_good [OF assms(2)] by (simp add: daemon_ok_def tracks_def frame_def)

lemma daemon_ok_scanned:
  "daemon_ok d \<Longrightarrow> ps_ok sc \<Longrightarrow> daemon_ok (d\<lparr>first_run := b, last_sync := t, g_scanner := sc\<rparr>)"
proof -
  let ?d = "d\<lparr>first_run := b, last_sync := t, g_scanner := sc\<rparr>"
  assume "daemon_ok d" "ps_ok sc"
  moreover have "rows ?d = rows d" by (rule rows_eqI) (simp_all add: row_def)
  ultimately show ?thesis by (simp add: daemon_ok_def table_ok_def arrays_ok_def)
qed

lemma scan_processes_ok [keeps]:
  assumes "ps_ok (g_scanner d)" "scan_processes os d w = Some (sc, w')"
  shows "ps_ok sc"
  using assms scan_ok [OF assms(1)] scan_pids_ok [OF assms(1)]
  by (cases "n_pids (g_cfg d) = 0") (simp_all add: scan_processes_def del: length_0_conv)

text \<open>A synchronisation does nothing, or scans and brings the slots in line with the scan.\<close>

lemma sync_pids_cases:
  assumes "sync_pids os d w = Some (d', w')"
  obtains "d' = d"
  | t sc w1 w2 where "scan_processes os (d\<lparr>first_run := False, last_sync := t\<rparr>) w1 = Some (sc, w2)"
      "sync_slots os (d\<lparr>first_run := False, last_sync := t, g_scanner := sc\<rparr>) w2 = (d', w')"
  using assms by (auto simp: sync_pids_def split: prod.splits if_splits option.splits)

lemma sync_slots_tracks:
  assumes "table_ok d" "sync_slots os d w = (d', w')"
  shows "tracks d (wanted os d) d'"
proof (cases "0 < n_pids (g_cfg d)")
  case True
  with assms show ?thesis using sync_explicit_tracks unfolding sync_slots_def by metis
next
  case False
  then have "n_pids (g_cfg d) = 0" by simp
  with assms show ?thesis using sync_top_tracks(1) unfolding sync_slots_def by (metis less_irrefl)
qed

lemma rows_scanned: "rows (d\<lparr>first_run := b, last_sync := t, g_scanner := sc\<rparr>) = rows d"
  by (rule rows_eqI) (simp_all add: row_def)

lemma sync_pids_tracks:
  assumes ok: "table_ok d" and run: "sync_pids os d w = Some (d', w')"
  shows "\<exists>d2. tracks d2 (wanted os d') d' \<and> rows d2 = rows d \<and> g_cfg d2 = g_cfg d \<and> g_rb d2 = g_rb d \<and>
    g_rb_dash d2 = g_rb_dash d \<and> g_tracer d2 = g_tracer d \<and> (ps_ok (g_scanner d) \<longrightarrow> ps_ok (g_scanner d2))"
  using run
proof (rule sync_pids_cases)
  assume "d' = d"
  moreover have "tracks d (wanted os d) d" using ok by (auto simp: tracks_def)
  ultimately show ?thesis by blast
next
  fix t sc w1 w2
  let ?d2 = "d\<lparr>first_run := False, last_sync := t, g_scanner := sc\<rparr>"
  assume sc: "scan_processes os (d\<lparr>first_run := False, last_sync := t\<rparr>) w1 = Some (sc, w2)"
    and s: "sync_slots os ?d2 w2 = (d', w')"
  have "table_ok ?d2" using ok rows_scanned [where d = d and b = False and t = t and sc = sc] by (simp add: table_ok_def arrays_ok_def)
  from sync_slots_tracks [OF this s] have tr: "tracks ?d2 (wanted os ?d2) d'" .
  then have "wanted os d' = wanted os ?d2" by (simp add: wanted_def tracks_def frame_def)
  moreover have "ps_ok (g_scanner d) \<longrightarrow> ps_ok (g_scanner ?d2)"
    using scan_processes_ok [OF _ sc] by simp
  ultimately show ?thesis using tr rows_scanned [where d = d and b = False and t = t and sc = sc] by (intro exI [of _ ?d2]) simp
qed

lemma sync_pids_ok [keeps]:
  assumes ok: "daemon_ok d" and run: "sync_pids os d w = Some (d', w')"
  shows "daemon_ok d'" and "g_cfg d' = g_cfg d" and "g_rb d' = g_rb d" and "g_rb_dash d' = g_rb_dash d"
    and "g_tracer d' = g_tracer d"
proof -
  obtain d2 where d2: "tracks d2 (wanted os d') d'" "rows d2 = rows d" "g_cfg d2 = g_cfg d" "g_rb d2 = g_rb d"
    "g_rb_dash d2 = g_rb_dash d" "g_tracer d2 = g_tracer d" "ps_ok (g_scanner d) \<longrightarrow> ps_ok (g_scanner d2)"
    using sync_pids_tracks [OF daemon_okD(1) [OF ok] run] by blast
  have f: "frame d' = frame d2" and t: "table_ok d'" using d2(1) by (simp_all add: tracks_def)
  show "g_cfg d' = g_cfg d" "g_rb d' = g_rb d" "g_rb_dash d' = g_rb_dash d" "g_tracer d' = g_tracer d"
    using f d2 by (simp_all add: frame_def)
  have "\<forall>r \<in> set (rows d'). slot_good r"
    using tracks_slot_good [OF d2(1)] d2(2) ok by (simp add: daemon_ok_def)
  then show "daemon_ok d'" using t f d2 ok by (simp add: daemon_ok_def frame_def)
qed

text \<open>When the kernel serves stat lines in its documented format, a synchronisation always returns.\<close>

definition stat_lines_ok :: "'w sys \<Rightarrow> bool" where
  "stat_lines_ok os \<longleftrightarrow> serves_stat (sys_proc os)"

lemma sync_pids_returns:
  assumes "stat_lines_ok os"
  shows "\<exists>d' w'. sync_pids os d w = Some (d', w')"
proof -
  have loop: "\<exists>r. scan_pids_loop (sys_proc os) pids ps w = Some r" for pids ps w
    using serves_stat_scans assms by (simp add: stat_lines_ok_def)
  have "\<exists>r. proc_scanner_scan_pids (sys_proc os) pids ps w = Some r" for pids ps w
    using loop [of "map int_of_u32 pids" "clear_active ps" w] by (auto simp: proc_scanner_scan_pids_def)
  moreover have "\<exists>r. proc_scanner_scan (sys_proc os) ps w = Some r" for ps w
  proof (cases "pr_opendir (sys_proc os) w")
    case (Pair r w1)
    then show ?thesis using loop [of "dir_pids (snd (the r))" "clear_active ps" w1]
      by (cases r) (auto simp: proc_scanner_scan_def Let_def)
  qed
  ultimately have "\<exists>r. scan_processes os d w = Some r" for d w by (simp add: scan_processes_def)
  then have sc: "scan_processes os d w \<noteq> None" for d w by (metis option.distinct(1))
  show ?thesis
  proof (cases "sync_pids os d w")
    case None
    then obtain d' w1 where "scan_processes os d' w1 = None"
      by (auto simp: sync_pids_def split: prod.splits if_splits option.splits)
    with sc show ?thesis by blast
  next
    case (Some r)
    then show ?thesis by (cases r) simp
  qed
qed

end
