(* ===== verification/Tick.thy ===== *)
theory Tick
  imports Publishing
begin

text \<open>
  The tick as a whole (\<^verbatim>\<open>src/schedmon.c\<close>, one iteration of \<open>run_sampling_loop\<close>): it always
  returns, it keeps the invariant, and what each of the two rings receives in it.
\<close>

subsection \<open>One iteration\<close>

lemma published_fresh: "published now r \<Longrightarrow> fresh now r \<and> sl_sm (stamped now r) = sl_sm r"
  by (auto simp: published_def fresh_def stamped_def)

lemma fast_entries_published:
  assumes "subseq ys rs" "\<forall>r \<in> set ys. published now r"
  shows "subseq (map sl_sm ys) (fast_entries now rs)"
proof -
  have "filter (fresh now) ys = ys" using assms(2) published_fresh by (simp add: filter_id_conv)
  then have "subseq ys (filter (fresh now) rs)" using subseq_filter [OF assms(1), of "fresh now"] by simp
  then have "subseq (map (\<lambda>r. sl_sm (stamped now r)) ys) (fast_entries now rs)"
    unfolding fast_entries_def by (rule subseq_map)
  moreover have "map (\<lambda>r. sl_sm (stamped now r)) ys = map sl_sm ys" using assms(2) published_fresh by simp
  ultimately show ?thesis by simp
qed

lemma fast_entries_good:
  assumes "daemon_ok d" "x \<in> set (fast_entries now (rows d))"
  shows "timestamp_ns x = now \<and> sm_is_active x"
  using assms by (auto simp: fast_entries_def stamped_def fresh_def daemon_ok_def slot_good_def)

lemma fast_entries_eq:
  "fast_entries now rs = map (\<lambda>r. (sl_sm r)\<lparr>timestamp_ns := now\<rparr>)
     (filter (\<lambda>r. sl_valid r \<and> now - sl_updated r \<le> STALE_NS) rs)"
proof -
  have "fresh now = (\<lambda>r. sl_valid r \<and> now - sl_updated r \<le> STALE_NS)" by (auto simp: fresh_def fun_eq_iff)
  then show ?thesis unfolding fast_entries_def by (intro map_cong) (auto simp: stamped_def)
qed

lemma slow_path_result:
  assumes ok: "daemon_ok d" and st: "stat_lines_ok os"
  shows "\<exists>ds ws d1 w1 vs gone. sync_pids os d w = Some (ds, ws) \<and> slow_path os dt now d w = Some (d1, w1) \<and>
    daemon_ok d1 \<and> g_cfg d1 = g_cfg d \<and> rows d1 = map row_after vs \<and> mset (map row_before vs) + gone = mset (rows ds) \<and>
    (\<forall>r \<in># gone. unreadable os (g_tracer d) dt r) \<and> (\<forall>v \<in> set vs. visit_ok os (g_tracer d) dt now v) \<and>
    ring_pushes (g_rb d) (map sl_sm (to_publish vs)) (g_rb d1) \<and>
    ring_pushes (g_rb_dash d) (map sl_sm (to_publish vs)) (g_rb_dash d1)"
proof -
  obtain ds ws where s: "sync_pids os d w = Some (ds, ws)" using sync_pids_returns [OF st] by blast
  note so = sync_pids_ok [OF ok s]
  from slow_loop_progress [OF so(1), of os dt now "display_limit ds" 0 ws] obtain d1 w1
    where l: "slow_loop os dt now (display_limit ds) 0 0 ds ws = Some (d1, w1)"
      and p: "slow_progress os dt now ds (g_n_active d1) d1" by blast
  have run: "slow_path os dt now d w = Some (d1, w1)" by (simp add: slow_path_def s l)
  have "daemon_ok d1 \<and> g_cfg d1 = g_cfg d" using p so(2) by (simp add: slow_progress_def)
  with progress_end [OF p] s run show ?thesis unfolding so(3-5) by metis
qed

text \<open>
  The whole tick: the table and the rings between the two paths and at the end, and, in a slow tick,
  the visits of the slow path.
\<close>

lemma tick_result:
  assumes ok: "daemon_ok d" and st: "stat_lines_ok os" and c: "sys_clock os w = (t, w1)" and now: "now = now_ns_of t"
  shows "\<exists>ls' d1 d' w' ys. tick os ls d w = Some (ls', tick_deadline t (interval_ms (g_cfg d)), d', w') \<and>
    ls' = (if sample_num ls smod 4 = 0 then ls\<lparr>first_slow := False, last_slow := t\<rparr> else ls)
            \<lparr>sample_num := (sample_num ls + 1) smod 4\<rparr> \<and>
    daemon_ok d1 \<and> daemon_ok d' \<and> g_cfg d' = g_cfg d \<and> rows d' = map (stamped now) (rows d1) \<and>
    ring_pushes (g_rb d) (map sl_sm ys @ fast_entries now (rows d1)) (g_rb d') \<and>
    ring_pushes (g_rb_dash d) (map sl_sm ys) (g_rb_dash d') \<and>
    (if sample_num ls smod 4 = 0
     then \<exists>ds ws vs gone. sync_pids os d w1 = Some (ds, ws) \<and> ys = to_publish vs \<and> rows d1 = map row_after vs \<and>
       mset (map row_before vs) + gone = mset (rows ds) \<and>
       (\<forall>r \<in># gone. unreadable os (g_tracer d) (slow_interval (first_slow ls) t (last_slow ls)) r) \<and>
       (\<forall>v \<in> set vs. visit_ok os (g_tracer d) (slow_interval (first_slow ls) t (last_slow ls)) now v)
     else ys = [] \<and> rows d1 = rows d)"
proof -
  let ?slow = "sample_num ls smod 4 = 0" and ?dt = "slow_interval (first_slow ls) t (last_slow ls)"
  let ?mid = "if ?slow then slow_path os ?dt now d w1 else Some (d, w1)"
  have "\<exists>d1 w2 ys. ?mid = Some (d1, w2) \<and> daemon_ok d1 \<and> g_cfg d1 = g_cfg d \<and>
    ring_pushes (g_rb d) (map sl_sm ys) (g_rb d1) \<and> ring_pushes (g_rb_dash d) (map sl_sm ys) (g_rb_dash d1) \<and>
    (if ?slow then \<exists>ds ws vs gone. sync_pids os d w1 = Some (ds, ws) \<and> ys = to_publish vs \<and> rows d1 = map row_after vs \<and>
       mset (map row_before vs) + gone = mset (rows ds) \<and> (\<forall>r \<in># gone. unreadable os (g_tracer d) ?dt r) \<and>
       (\<forall>v \<in> set vs. visit_ok os (g_tracer d) ?dt now v)
     else ys = [] \<and> rows d1 = rows d)"
  proof (cases ?slow)
    case True
    then show ?thesis using slow_path_result [OF ok st, of w1 ?dt now] by (simp only: simp_thms if_True) blast
  next
    case False
    then show ?thesis using ok by (intro exI [of _ d] exI [of _ w1] exI [of _ "[]"]) auto
  qed
  then obtain d1 w2 ys where m: "?mid = Some (d1, w2)" "daemon_ok d1" "g_cfg d1 = g_cfg d"
    "ring_pushes (g_rb d) (map sl_sm ys) (g_rb d1)" "ring_pushes (g_rb_dash d) (map sl_sm ys) (g_rb_dash d1)"
    "if ?slow then \<exists>ds ws vs gone. sync_pids os d w1 = Some (ds, ws) \<and> ys = to_publish vs \<and> rows d1 = map row_after vs \<and>
       mset (map row_before vs) + gone = mset (rows ds) \<and> (\<forall>r \<in># gone. unreadable os (g_tracer d) ?dt r) \<and>
       (\<forall>v \<in> set vs. visit_ok os (g_tracer d) ?dt now v)
     else ys = [] \<and> rows d1 = rows d" by blast
  from fast_path_result [OF m(2), of now] obtain d' where f: "fast_path now d1 = Some d'" "daemon_ok d'"
    "g_cfg d' = g_cfg d1" "g_rb_dash d' = g_rb_dash d1" "rows d' = map (stamped now) (rows d1)"
    "ring_pushes (g_rb d1) (fast_entries now (rows d1)) (g_rb d')" by blast
  let ?ls = "(if ?slow then ls\<lparr>first_slow := False, last_slow := t\<rparr> else ls)\<lparr>sample_num := (sample_num ls + 1) smod 4\<rparr>"
  have "tick os ls d w = Some (?ls, tick_deadline t (interval_ms (g_cfg d)), d', w2)"
    using m(1,3) f(1,3) now by (cases ?slow) (simp_all add: tick_def c Let_def)
  then show ?thesis
    using m(2,3,5,6) f(2-5) ring_pushes_append [OF m(4) f(6)]
    by (intro exI [of _ ?ls] exI [of _ d1] exI [of _ d'] exI [of _ w2] exI [of _ ys]) (simp only: simp_thms)
qed

lemma fast_loop_tracer: "fast_loop now is d = Some d' \<Longrightarrow> g_tracer d' = g_tracer d"
proof (induction "is" arbitrary: d)
  case (Cons i "is")
  then obtain d1 where d1: "fast_slot now i d = Some d1" "fast_loop now is d1 = Some d'" by (auto split: option.splits)
  then have "g_tracer d1 = g_tracer d" by (auto simp: fast_slot_def Let_def split: if_splits option.splits)
  with Cons.IH [OF d1(2)] show ?case by simp
qed simp

text \<open>The phases of a tick that returned, for properties carried through it.\<close>

lemma tick_phases:
  assumes ok: "daemon_ok d" and run: "tick os ls d w = Some (ls', dl, d', w')"
  obtains t w1 d1 where "sys_clock os w = (t, w1)" "daemon_ok d1" "fast_path (now_ns_of t) d1 = Some d'"
    "daemon_ok d'" "g_cfg d' = g_cfg d" "g_tracer d' = g_tracer d"
    "d1 = d \<and> w' = w1 \<or> (\<exists>dt ds ws. sync_pids os d w1 = Some (ds, ws) \<and> daemon_ok ds \<and>
       slow_loop os dt (now_ns_of t) (display_limit ds) 0 0 ds ws = Some (d1, w'))"
proof -
  obtain t w1 where c: "sys_clock os w = (t, w1)" by (metis prod.exhaust)
  let ?slow = "sample_num ls smod 4 = 0" and ?now = "now_ns_of t"
  let ?dt = "slow_interval (first_slow ls) t (last_slow ls)"
  obtain d1 where m: "(if ?slow then slow_path os ?dt ?now d w1 else Some (d, w1)) = Some (d1, w')"
    and f: "fast_path ?now d1 = Some d'"
    using run by (auto simp: tick_def c Let_def split: option.splits if_splits)
  have "daemon_ok d1 \<and> g_cfg d1 = g_cfg d \<and> g_tracer d1 = g_tracer d \<and> (d1 = d \<and> w' = w1 \<or> (\<exists>ds ws. sync_pids os d w1 = Some (ds, ws) \<and> daemon_ok ds \<and>
       slow_loop os ?dt ?now (display_limit ds) 0 0 ds ws = Some (d1, w')))"
  proof (cases ?slow)
    case True
    then obtain ds ws where s: "sync_pids os d w1 = Some (ds, ws)"
      and lp: "slow_loop os ?dt ?now (display_limit ds) 0 0 ds ws = Some (d1, w')"
      using m by (auto simp: slow_path_def split: option.splits)
    note so = sync_pids_ok [OF ok s]
    have "slow_progress os ?dt ?now ds (g_n_active d1) d1"
      using slow_loop_progress [OF so(1), of os ?dt ?now "display_limit ds" 0 ws] lp by auto
    then show ?thesis using s lp so by (auto simp: slow_progress_def)
  next
    case False
    with m ok show ?thesis by simp
  qed
  moreover from fast_path_result [of d1 ?now] this f have "daemon_ok d'" "g_cfg d' = g_cfg d1" by auto
  moreover have "g_tracer d' = g_tracer d1" using f unfolding fast_path_def by (rule fast_loop_tracer)
  ultimately show thesis using that [OF c _ f] by auto
qed

subsection \<open>A small system\<close>

text \<open>
  A system for the examples: counters that always read the same, no tracer maps, one process
  in \<^verbatim>\<open>/proc\<close>, a clock that stands at seven seconds. The daemon monitors one process whose last
  sample was published at 6.5 seconds.
\<close>

definition quiet_bpf :: "'w bpf_os" where
  "quiet_bpf = \<lparr>bo_open = \<lambda>p w. (None, w), bo_load = \<lambda>ob w. (0, w), bo_close = \<lambda>ob w. w,
     bo_map_by_name = \<lambda>ob n w. None, bo_map_fd = \<lambda>m w. -1, bo_prog_by_name = \<lambda>ob n w. None,
     bo_attach = \<lambda>p w. (None, w), bo_link_destroy = \<lambda>l w. w, bo_lookup_u64 = \<lambda>fd k w. None,
     bo_lookup_u32 = \<lambda>fd k w. None, bo_lookup_comm = \<lambda>fd k w. None,
     bo_lookup_batch = \<lambda>fd n w. ((0, 0), []), bo_update_u64 = \<lambda>fd k v f w. w,
     bo_update_u32 = \<lambda>fd k v f w. w, bo_delete = \<lambda>fd k w. w\<rparr>"

definition demo_sys :: "'w sys" where
  "demo_sys = \<lparr>sys_perf = group_os, sys_bpf = quiet_bpf, sys_proc = one_os\<lparr>pr_opendir := \<lambda>w. (Some (6, [''self'', ''77'']), w)\<rparr>, sys_shm = shm_example,
     sys_clock = \<lambda>w. (Timespec 7 0, w), sys_qsort = qsort_ref\<rparr>"

definition demo_sample :: SmoothedMetrics where
  "demo_sample = sm_zero\<lparr>sm_pid := 77, sm_cpu_id := -1, timestamp_ns := 6500000000, smoothed_ctx_freq := 5\<rparr>"

definition demo_daemon :: daemon where
  "demo_daemon = (globals_zero (default_config\<lparr>top_n := 5\<rparr>))
     \<lparr>g_states := st_zero\<lparr>st_pid := 77, io_fd := -1\<rparr> # replicate 255 st_zero,
      g_perf := group_pc # replicate 255 pc_blank,
      g_last_sm := demo_sample # replicate 255 sm_zero,
      g_last_sm_updated_ns := 6500000000 # replicate 255 0,
      g_last_sm_valid := True # replicate 255 False,
      g_rb := Some rb_fresh, g_rb_dash := Some rb_fresh, g_n_active := 1\<rparr>"

lemma demo_rows: "rows demo_daemon =
  [\<lparr>sl_state = st_zero\<lparr>st_pid := 77, io_fd := -1\<rparr>, sl_wins = replicate 8 sw_init, sl_perf = group_pc,
    sl_sm = demo_sample, sl_updated = 6500000000, sl_valid = True, sl_comm = []\<rparr>]"
  by (simp add: rows_def row_def demo_daemon_def globals_zero_def Let_def numeral_eq_Suc)

lemma demo_ok: "daemon_ok demo_daemon"
proof -
  have "arrays_ok demo_daemon" by (simp add: arrays_ok_def demo_daemon_def globals_zero_def Let_def)
  moreover have "slot_good (hd (rows demo_daemon))"
    by (simp add: demo_rows slot_good_def sw_ok_init sm_is_active_def demo_sample_def)
  moreover have "ring_ok (g_rb demo_daemon)" "ring_ok (g_rb_dash demo_daemon)"
    by (simp_all add: demo_daemon_def ring_ok_def rb_fresh_props)
  moreover have "ps_ok (g_scanner demo_daemon)"
    by (simp add: demo_daemon_def globals_zero_def Let_def ps_ok_def proc_scanner_init_def)
  ultimately show ?thesis by (simp add: daemon_ok_def table_ok_def demo_rows)
qed

lemma demo_stat_lines: "stat_lines_ok demo_sys"
  using one_serves_stat by (simp add: stat_lines_ok_def serves_stat_def demo_sys_def)

lemma demo_clock [simp]: "fst (sys_clock demo_sys w) = Timespec 7 0"
  by (simp add: demo_sys_def)

lemma demo_now: "now_ns_of (Timespec 7 0) = 7000000000"
  by (simp add: now_ns_of_def)

lemma distinct_subseq: "subseq xs ys \<Longrightarrow> distinct ys \<Longrightarrow> distinct xs"
  by (auto simp: subseq_conv_nths intro: distinct_nthsI)

subsection \<open>Properties\<close>

text \<open>
  C1. What a slow tick publishes, exactly. The slots that the synchronisation leaves are dropped if
  their counters cannot be read, reset if a counter went back, and sampled otherwise: the eight
  rates since the baselines go into the slot's own windows and its sample is their means. The
  dashboard ring is offered, in slot order, the sample of each slot that was sampled and came out
  active, one per process, stamped with the time of the tick; the main ring is offered the same
  samples and then, in the fast path of the same tick, those of every valid slot refreshed at
  most \<open>STALE_NS\<close> ago, which are the same samples a second time, with the same timestamp, and the older
  ones of slots that were reset.
\<close>

theorem slow_tick_publishes:
  assumes "daemon_ok d" and "stat_lines_ok os" and "sample_num ls smod 4 = 0"
    and "sys_clock os w = (t, w1)" and "now = now_ns_of t" and "dt = slow_interval (first_slow ls) t (last_slow ls)"
  shows "\<exists>ds ws vs gone ls' dl d' w' xs zs.
    sync_pids os d w1 = Some (ds, ws) \<and> tick os ls d w = Some (ls', dl, d', w') \<and>
    mset (map row_before vs) + gone = mset (rows ds) \<and> rows d' = map (stamped now) (map row_after vs) \<and>
    (\<forall>r \<in># gone. unreadable os (g_tracer d) dt r) \<and> (\<forall>v \<in> set vs. visit_ok os (g_tracer d) dt now v) \<and>
    xs = map sl_sm (map row_after (filter published_by vs)) \<and>
    zs = map (\<lambda>r. (sl_sm r)\<lparr>timestamp_ns := now\<rparr>)
      (filter (\<lambda>r. sl_valid r \<and> now - sl_updated r \<le> STALE_NS) (map row_after vs)) \<and>
    ring_pushes (g_rb_dash d) xs (g_rb_dash d') \<and> ring_pushes (g_rb d) (xs @ zs) (g_rb d') \<and>
    subseq xs zs \<and> distinct (map sm_pid xs) \<and> (\<forall>x \<in> set zs. timestamp_ns x = now \<and> sm_is_active x)"
proof -
  obtain ls' d1 d' w' ds ws vs gone where
    t: "tick os ls d w = Some (ls', tick_deadline t (interval_ms (g_cfg d)), d', w')" "daemon_ok d1"
    "rows d' = map (stamped now) (rows d1)" "ring_pushes (g_rb d) (map sl_sm (to_publish vs) @ fast_entries now (rows d1)) (g_rb d')"
    "ring_pushes (g_rb_dash d) (map sl_sm (to_publish vs)) (g_rb_dash d')" "sync_pids os d w1 = Some (ds, ws)"
    "rows d1 = map row_after vs" "mset (map row_before vs) + gone = mset (rows ds)"
    "\<forall>r \<in># gone. unreadable os (g_tracer d) dt r" "\<forall>v \<in> set vs. visit_ok os (g_tracer d) dt now v"
    using tick_result [OF assms(1,2,4,5), of ls] unfolding assms(6) if_P [OF assms(3)] by blast
  note p = to_publish_published [OF t(10), folded t(7)]
  have "distinct (map sl_pid (to_publish vs))"
    using distinct_subseq [OF subseq_map] p t(2) unfolding daemon_ok_def table_ok_def by blast
  moreover have "map sm_pid (map sl_sm (to_publish vs)) = map sl_pid (to_publish vs)" using p by (simp add: published_def)
  ultimately have d: "distinct (map sm_pid (map sl_sm (to_publish vs)))" by (simp only:)
  have ys: "subseq (map sl_sm (to_publish vs)) (fast_entries now (rows d1))" using fast_entries_published p by blast
  have good: "\<forall>x \<in> set (fast_entries now (rows d1)). timestamp_ns x = now \<and> sm_is_active x"
    using fast_entries_good [OF t(2)] by blast
  show ?thesis
    apply (rule exI [of _ ds], rule exI [of _ ws], rule exI [of _ vs], rule exI [of _ gone], rule exI [of _ ls'],
      rule exI [of _ "tick_deadline t (interval_ms (g_cfg d))"], rule exI [of _ d'], rule exI [of _ w'],
      rule exI [of _ "map sl_sm (to_publish vs)"], rule exI [of _ "fast_entries now (rows d1)"])
    using t(1,3-6,8-10) d ys good by (simp only: t(7) fast_entries_eq to_publish_def simp_thms)
qed

theorem slow_tick_publishes_witness:
  "\<exists>vs gone ls' dl d' w' xs zs. tick demo_sys \<lparr>sample_num = 0, first_slow = True, last_slow = Timespec 6 0\<rparr> demo_daemon ()
      = Some (ls', dl, d', w') \<and> (\<forall>v \<in> set vs. visit_ok (demo_sys :: unit sys) (g_tracer demo_daemon) (rnd64 (1 / 5)) 7000000000 v) \<and>
      (\<forall>r \<in># gone. unreadable (demo_sys :: unit sys) (g_tracer demo_daemon) (rnd64 (1 / 5)) r) \<and>
      xs = map sl_sm (map row_after (filter published_by vs)) \<and> subseq xs zs \<and> ring_pushes (Some rb_fresh) (xs @ zs) (g_rb d')"
proof -
  let ?ls = "\<lparr>sample_num = 0, first_slow = True, last_slow = Timespec 6 0\<rparr>"
  have c: "sys_clock demo_sys () = (Timespec 7 0, ())" and m: "sample_num ?ls smod 4 = 0"
    and dt: "slow_interval (first_slow ?ls) (Timespec 7 0) (last_slow ?ls) = rnd64 (1 / 5)"
    and r: "g_rb demo_daemon = Some rb_fresh" by (simp_all add: demo_sys_def slow_interval_def demo_daemon_def)
  from slow_tick_publishes [OF demo_ok demo_stat_lines m c refl refl] show ?thesis
    unfolding dt demo_now r by (elim exE conjE) (intro exI conjI; assumption)
qed

text \<open>
  C2. A fast tick leaves the dashboard ring alone and offers the main ring, in slot order, the
  last sample of every slot that is valid and was refreshed at most \<open>STALE_NS\<close> ago, stamped
  with the time of the tick and otherwise unchanged. A process that went idle or stopped being
  refreshed therefore drops out after one second.
\<close>

theorem fast_tick_publishes:
  assumes "daemon_ok d" and "stat_lines_ok os" and "sample_num ls smod 4 \<noteq> 0"
    and "now = now_ns_of (fst (sys_clock os w))"
  shows "\<exists>ls' dl d' w'. tick os ls d w = Some (ls', dl, d', w') \<and> g_rb_dash d' = g_rb_dash d \<and>
    ring_pushes (g_rb d) (map (\<lambda>r. (sl_sm r)\<lparr>timestamp_ns := now\<rparr>)
      (filter (\<lambda>r. sl_valid r \<and> now - sl_updated r \<le> STALE_NS) (rows d))) (g_rb d')"
proof -
  obtain t w1 where c: "sys_clock os w = (t, w1)" by (metis prod.exhaust)
  show ?thesis
    using tick_result [OF assms(1,2) c refl, of ls] assms(3,4) c by (elim exE conjE) (simp add: fast_entries_eq)
qed

theorem fast_tick_publishes_witness:
  "\<exists>ls' dl d' w'. tick demo_sys \<lparr>sample_num = 1, first_slow = False, last_slow = Timespec 6 0\<rparr> demo_daemon ()
      = Some (ls', dl, d', w') \<and> g_rb_dash d' = Some rb_fresh \<and>
      ring_pushes (Some rb_fresh) [demo_sample\<lparr>timestamp_ns := 7000000000\<rparr>] (g_rb d')"
proof -
  have m: "(1::int) smod 4 \<noteq> 0" by (simp add: smod_int_alt_def)
  have r: "g_rb demo_daemon = Some rb_fresh" "g_rb_dash demo_daemon = Some rb_fresh" by (simp_all add: demo_daemon_def)
  show ?thesis
    using fast_tick_publishes [OF demo_ok demo_stat_lines _ refl,
      of "\<lparr>sample_num = 1, first_slow = False, last_slow = Timespec 6 0\<rparr>" "()"] m
    by (simp add: demo_rows demo_now r)
qed

text \<open>
  C8. While the kernel serves stat lines in its documented format every tick returns, whatever
  else it answers: no slot index and no ring index leaves its array, the tables stay well
  formed with pairwise distinct pids, and the next tick is due exactly one interval after
  this one started.
\<close>

theorem tick_safe:
  assumes "daemon_ok d" and "stat_lines_ok os"
  shows "\<exists>ls' d' w'. tick os ls d w = Some (ls', tick_deadline (fst (sys_clock os w)) (interval_ms (g_cfg d)), d', w') \<and>
    daemon_ok d' \<and> g_cfg d' = g_cfg d \<and> sample_num ls' = (sample_num ls + 1) smod 4"
proof -
  obtain t w1 where c: "sys_clock os w = (t, w1)" by (metis prod.exhaust)
  show ?thesis using tick_result [OF assms c refl, of ls] by (auto simp: c)
qed

theorem tick_safe_witness:
  "\<exists>ls' d' w'. tick demo_sys \<lparr>sample_num = 0, first_slow = True, last_slow = Timespec 6 0\<rparr> demo_daemon ()
     = Some (ls', Timespec 7 50000000, d', w') \<and> daemon_ok d'"
proof -
  have "tick_deadline (Timespec 7 0) 50 = Timespec 7 50000000"
    by (simp add: tick_deadline_def signed_divide_int_def signed_modulo_int_def)
  moreover have "interval_ms (g_cfg demo_daemon) = 50"
    by (simp add: demo_daemon_def globals_zero_def Let_def default_config_def)
  ultimately show ?thesis
    using tick_safe [OF demo_ok demo_stat_lines,
      of "\<lparr>sample_num = 0, first_slow = True, last_slow = Timespec 6 0\<rparr>" "()"] by auto
qed

text \<open>
  C21. The two latency figures stay below the sanity limits whatever the tracer counted: the
  average I/O wait of an interval is between 0 and 30001 milliseconds, the average run-queue
  wait between 0 and 10001, also when the products of the clamps wrap in 64 bits.
\<close>

theorem waits_bounded:
  "0 \<le> r_io_wait (interval_rates dt hw ctx iow rqw io sysc n_io cpu st) \<and>
   r_io_wait (interval_rates dt hw ctx iow rqw io sysc n_io cpu st) \<le> 30001 \<and>
   0 \<le> r_rq_wait (interval_rates dt hw ctx iow rqw io sysc n_io cpu st) \<and>
   r_rq_wait (interval_rates dt hw ctx iow rqw io sysc n_io cpu st) \<le> 10001"
  using avg_wait_bound [of IO_WAIT_MAX_NS 30000000000 30001 "iow - prev_io_wait_ns st" "n_io - prev_io_count st"]
    avg_wait_bound [of RQ_WAIT_MAX_NS 10000000000 10001 "rqw - prev_rq_wait_ns st" "ctx - prev_ctx st"]
  by (simp add: interval_rates_def Let_def)

text \<open>
  C22. The reset after a pid was reused misses one baseline: it leaves \<open>prev_io_count\<close>, the request
  count of the old process. If the new process has issued fewer requests than that at the next
  sample, the difference of the counts wraps there and the average I/O wait of this one sample
  comes out as practically zero (at most \<open>2 ^ -18\<close> milliseconds), however long its requests
  waited; that sample stores the new count, so the one after it is right again.
\<close>

theorem reset_leaves_io_count:
  assumes "i < length (g_states d)" and "sample_slot os i dt hw d w = (False, d', w')"
    and "n_io < prev_io_count (g_states d ! i)" and "unat (prev_io_count (g_states d ! i)) < 2 ^ 63"
  shows "prev_io_count (g_states d' ! i) = prev_io_count (g_states d ! i) \<and>
    r_io_wait (interval_rates dt' hw' ctx iow rqw io sysc n_io cpu (g_states d' ! i)) \<le> 1 / 2 ^ 18"
proof -
  have same: "prev_io_count (g_states d' ! i) = prev_io_count (g_states d ! i)"
    using assms(1,2) by (auto simp: sample_slot_def Let_def reset_baselines_def split: prod.splits if_splits)
  let ?p = "prev_io_count (g_states d ! i)"
  define n where "n = n_io - ?p"
  define x where "x = clamp_wait (iow - prev_io_wait_ns (g_states d' ! i)) n IO_WAIT_MAX_NS"
  have "unat n_io < unat ?p" using assms(3) by (simp add: word_less_nat_alt)
  then have "2 ^ 63 \<le> unat n" using assms(4) by (simp add: n_def unat_sub_if')
  then have "(2::real) ^ 63 \<le> real (unat n)" by (metis of_nat_le_iff of_nat_numeral of_nat_power)
  from rnd64_ge [OF _ this] have n: "2 ^ 63 \<le> dbl_of_u64 n"
    using is_dbl_powi [of 63] by (simp add: dbl_of_u64_def power_int_def)
  have "unat x \<le> 2 ^ 64" using unsigned_less [of x, where ?'a = nat] by simp
  then have "real (unat x) \<le> 2 ^ 64" by (metis of_nat_le_iff of_nat_numeral of_nat_power)
  from rnd64_le [OF _ this] have x: "dbl_of_u64 x \<le> 2 ^ 64"
    using is_dbl_powi [of 64] by (simp add: dbl_of_u64_def power_int_def)
  have "dbl_of_u64 x / dbl_of_u64 n \<le> 2 ^ 64 / 2 ^ 63" using x n dbl_of_u64_nonneg [of x] by (intro frac_le) simp_all
  then have "dbl_of_u64 x / dbl_of_u64 n \<le> 2" by simp
  from rnd64_le [OF _ this] have "ddiv (dbl_of_u64 x) (dbl_of_u64 n) \<le> 2"
    using is_dbl_int [of 2] by (simp add: ddiv_def)
  then have "ddiv (dbl_of_u64 x) (dbl_of_u64 n) / 1000000 \<le> 1 / 2 ^ 18" by simp
  moreover have "is_dbl (1 / 2 ^ 18)" using is_dbl_powi [of "-18"] by (simp add: power_int_minus_divide)
  ultimately have "rnd64 (ddiv (dbl_of_u64 x) (dbl_of_u64 n) / 1000000) \<le> 1 / 2 ^ 18" by (rule rnd64_le [rotated])
  then have "avg_wait_ms x n \<le> 1 / 2 ^ 18" unfolding avg_wait_ms_def ddiv_def [of _ 1000000] by simp
  with same show ?thesis by (simp add: interval_rates_def Let_def n_def x_def)
qed

definition reused_daemon :: daemon where
  "reused_daemon = demo_daemon\<lparr>g_states := st_zero\<lparr>st_pid := 77, io_fd := -1, prev_ctx := 5,
     prev_io_count := 1000\<rparr> # replicate 255 st_zero\<rparr>"

theorem reset_leaves_io_count_witness:
  "r_io_wait (interval_rates (1 / 5) raw_zero 0 60000000000 0 0 0 3 0
     (g_states (fst (snd (sample_slot demo_sys 0 (1 / 5) raw_zero reused_daemon ()))) ! 0)) \<le> 1 / 2 ^ 18"
proof -
  let ?r = "sample_slot demo_sys 0 (1 / 5) raw_zero reused_daemon ()"
  have "fst ?r = False"
    by (simp add: sample_slot_def Let_def reused_daemon_def went_back_def ebpf_tracer_read_switches_def
        read_counter_def demo_sys_def quiet_bpf_def split: prod.split)
  then have r: "?r = (False, fst (snd ?r), snd (snd ?r))" by (metis prod.collapse)
  show ?thesis
    using reset_leaves_io_count [OF _ r, of 3] by (simp add: reused_daemon_def unat_numeral)
qed

text \<open>
  C13. The loop that removes unmarked slots by moving the last slot into each hole is equivalent,
  up to the order of the slots, to filtering the table: every marked slot survives with all its
  cells, every other one is gone, and nothing else of the daemon changes.
\<close>

theorem prune_is_filter:
  assumes "table_ok d" and "prune_inactive os d w = (d', w')"
  shows "mset (rows d') = filter_mset (\<lambda>r. st_active (sl_state r) \<noteq> 0) (mset (rows d)) \<and>
    table_ok d' \<and> frame d' = frame d"
proof -
  have run: "prune os (\<lambda>st w. (st_active st = 0, w)) 0 d w = (d', w')"
    using assms(2) by (simp add: prune_inactive_def)
  show ?thesis
    using prune_pure [where P = "\<lambda>st. st_active st = 0", OF assms(1) refl _ run] prune_sub [OF assms(1) run] by simp
qed

theorem prune_is_filter_witness: "rows (fst (prune_inactive demo_sys demo_daemon ())) = []"
proof -
  have t: "table_ok demo_daemon" using demo_ok by (simp add: daemon_ok_def)
  obtain d' w' where r: "prune_inactive demo_sys demo_daemon () = (d', w')" by (metis prod.exhaust)
  from prune_is_filter [OF t r] r show ?thesis by (simp add: demo_rows st_zero_def)
qed

text \<open>
  C6. A synchronisation never mixes up two processes: in both modes every slot afterwards is
  either a slot that was there, with all its windows, baselines, counters and its last sample,
  or a slot that starts from nothing, for a pid that is wanted and was not tracked. The rings
  and the configuration are untouched.
\<close>

theorem sync_keeps_histories:
  assumes "table_ok d" and "sync_pids os d w = Some (d', w')"
  shows "table_ok d' \<and> g_cfg d' = g_cfg d \<and> g_rb d' = g_rb d \<and> g_rb_dash d' = g_rb_dash d \<and>
    (\<forall>r \<in> set (rows d'). history r \<in> history ` set (rows d) \<or>
      sl_pid r \<in> wanted os d' \<and> sl_pid r \<notin> set (slot_pids d) \<and>
      (\<exists>r0. new_row (sl_pid r) r0 \<and> history r = history r0))"
  using sync_pids_tracks [OF assms] by (auto simp: tracks_def frame_def)

theorem sync_keeps_histories_witness:
  "\<exists>d' w'. sync_pids demo_sys demo_daemon () = Some (d', w') \<and> g_rb d' = Some rb_fresh \<and>
    (\<forall>r \<in> set (rows d'). sl_pid r = 77 \<and> sl_sm r = demo_sample \<or> sl_pid r \<in> wanted (demo_sys :: unit sys) d' - {77})"
proof -
  obtain d' w' where run: "sync_pids demo_sys demo_daemon () = Some (d', w')"
    using sync_pids_returns [OF demo_stat_lines, of demo_daemon "()"] by blast
  have t: "table_ok demo_daemon" using demo_ok by (simp add: daemon_ok_def)
  have old: "sl_pid r = 77 \<and> sl_sm r = demo_sample" if "history r \<in> history ` set (rows demo_daemon)" for r
    using that history_eqD [of r "hd (rows demo_daemon)"] by (auto simp: demo_rows)
  have pids: "set (slot_pids demo_daemon) = {77}" by (simp add: demo_rows st_zero_def)
  note k = sync_keeps_histories [OF t run]
  have "sl_pid r = 77 \<and> sl_sm r = demo_sample \<or> sl_pid r \<in> wanted (demo_sys :: unit sys) d' - {77}"
    if "r \<in> set (rows d')" for r
    using conjunct2 [OF conjunct2 [OF conjunct2 [OF conjunct2 [OF k]]]] that old [of r] unfolding pids by blast
  moreover have "g_rb d' = Some rb_fresh" using k by (simp add: demo_daemon_def)
  ultimately show ?thesis using run by blast
qed

text \<open>
  C14. In ranking mode a synchronisation that is due leaves only ranked processes in the
  table, and keeps every tracked process that is still ranked, with its history.
\<close>

theorem sync_follows_ranking:
  assumes "table_ok d" and "n_pids (g_cfg d) = 0" and "sync_pids os d w = Some (d', w')"
    and "first_run d \<or> NSEC \<le> elapsed_ns (fst (sys_clock os w)) (last_sync d)"
  shows "set (slot_pids d') \<subseteq> wanted os d' \<and>
    (\<forall>r \<in> set (rows d). sl_pid r \<in> wanted os d' \<longrightarrow> history r \<in> history ` set (rows d'))"
proof -
  obtain t w1 where c: "sys_clock os w = (t, w1)" by (metis prod.exhaust)
  obtain sc w2 where sc: "scan_processes os (d\<lparr>first_run := False, last_sync := t\<rparr>) w1 = Some (sc, w2)"
    and run: "sync_slots os (d\<lparr>first_run := False, last_sync := t, g_scanner := sc\<rparr>) w2 = (d', w')"
    using assms(3,4) by (auto simp: sync_pids_def c split: if_splits option.splits)
  let ?d = "d\<lparr>first_run := False, last_sync := t, g_scanner := sc\<rparr>"
  have top: "sync_top os ?d w2 = (d', w')" "n_pids (g_cfg ?d) = 0" using run assms(2) by (simp_all add: sync_slots_def)
  have rs: "rows ?d = rows d" by (rule rows_scanned)
  then have "table_ok ?d" using assms(1) by (simp add: table_ok_def arrays_ok_def)
  note s = sync_top_tracks [OF this top(2,1)]
  have "wanted os d' = wanted os ?d" using s(1) by (simp add: wanted_def tracks_def frame_def)
  with s(2,3) rs show ?thesis by simp
qed

theorem sync_follows_ranking_witness:
  "\<exists>d' w'. sync_pids demo_sys demo_daemon () = Some (d', w') \<and> set (slot_pids d') \<subseteq> wanted (demo_sys :: unit sys) d'"
proof -
  obtain d' w' where run: "sync_pids demo_sys demo_daemon () = Some (d', w')"
    using sync_pids_returns [OF demo_stat_lines, of demo_daemon "()"] by blast
  have "table_ok demo_daemon" using demo_ok by (simp add: daemon_ok_def)
  moreover have "n_pids (g_cfg demo_daemon) = 0" "first_run demo_daemon"
    by (simp_all add: demo_daemon_def globals_zero_def Let_def default_config_def)
  ultimately show ?thesis using sync_follows_ranking [OF _ _ run] run by blast
qed

end
