(* ===== verification/Ownership.thy ===== *)
theory Ownership
  imports Tick
begin

text \<open>
  Who owns the open descriptors (\<^verbatim>\<open>src/schedmon.c\<close>). Any system is instrumented with the multiset
  of descriptors its own calls have open: perf counters, files, streams, directories and shared
  memory; \<open>ledger B d w\<close> says that everything open beyond \<open>B\<close> is held by exactly one slot of the
  table. Adding, removing, synchronising, reopening a stale I/O file and a whole tick keep it. What
  libbpf holds for the tracer is a second record, the handles of \<open>bpf_handles\<close>, which no call of a
  tick changes. The last part bounds the number of slots by what the configuration asks for.
\<close>

subsection \<open>Any system, instrumented\<close>

definition proc_tracked :: "'w proc_os \<Rightarrow> ('w \<times> int multiset) proc_os" where
  "proc_tracked os =
    \<lparr>pr_open = (\<lambda>p (w, F). let (fd, w') = pr_open os p w in (fd, (w', if 0 \<le> fd then add_mset fd F else F))),
     pr_lseek = (\<lambda>fd. along (pr_lseek os fd)),
     pr_read = (\<lambda>fd n. along (pr_read os fd n)),
     pr_close = (\<lambda>fd (w, F). (pr_close os fd w, F - {#fd#})),
     pr_fopen = (\<lambda>p (w, F). let (r, w') = pr_fopen os p w
                           in (r, (w', case r of None \<Rightarrow> F | Some a \<Rightarrow> add_mset (fst a) F))),
     pr_fclose = (\<lambda>fd (w, F). (pr_fclose os fd w, F - {#fd#})),
     pr_opendir = (\<lambda>(w, F). let (r, w') = pr_opendir os w
                           in (r, (w', case r of None \<Rightarrow> F | Some a \<Rightarrow> add_mset (fst a) F))),
     pr_closedir = (\<lambda>fd (w, F). (pr_closedir os fd w, F - {#fd#})),
     pr_gone = (\<lambda>p. along (pr_gone os p))\<rparr>"

text \<open>What libbpf holds is counted apart; this ledger passes through its calls.\<close>

definition sys_tracked :: "'w sys \<Rightarrow> ('w \<times> int multiset) sys" where
  "sys_tracked os =
    \<lparr>sys_perf = perf_tracked (sys_perf os), sys_bpf = bpf_lifted (sys_bpf os),
     sys_proc = proc_tracked (sys_proc os), sys_shm = shm_tracked (sys_shm os),
     sys_clock = along (sys_clock os), sys_qsort = sys_qsort os\<rparr>"

text \<open>The system instrumented with the handles libbpf has given out.\<close>

definition perf_lifted :: "'w perf_os \<Rightarrow> ('w \<times> 'r) perf_os" where
  "perf_lifted os =
    \<lparr>po_open = (\<lambda>a p c g. along (po_open os a p c g)), po_ioctl = (\<lambda>fd r g. along_eff (po_ioctl os fd r g)),
     po_ioctl_id = (\<lambda>fd. along (po_ioctl_id os fd)), po_read_u64 = (\<lambda>fd. along (po_read_u64 os fd)),
     po_read_group = (\<lambda>fd. along (po_read_group os fd)), po_close = (\<lambda>fd. along_eff (po_close os fd))\<rparr>"

definition proc_lifted :: "'w proc_os \<Rightarrow> ('w \<times> 'r) proc_os" where
  "proc_lifted os =
    \<lparr>pr_open = (\<lambda>p. along (pr_open os p)), pr_lseek = (\<lambda>fd. along (pr_lseek os fd)),
     pr_read = (\<lambda>fd n. along (pr_read os fd n)), pr_close = (\<lambda>fd. along_eff (pr_close os fd)),
     pr_fopen = (\<lambda>p. along (pr_fopen os p)), pr_fclose = (\<lambda>fd. along_eff (pr_fclose os fd)),
     pr_opendir = along (pr_opendir os), pr_closedir = (\<lambda>fd. along_eff (pr_closedir os fd)),
     pr_gone = (\<lambda>p. along (pr_gone os p))\<rparr>"

definition shm_lifted :: "'w shm_os \<Rightarrow> ('w \<times> 'r) shm_os" where
  "shm_lifted os =
    \<lparr>shm_unlink = (\<lambda>n. along_eff (shm_unlink os n)), shm_open = (\<lambda>n c. along (shm_open os n c)),
     shm_fchmod = (\<lambda>fd. along (shm_fchmod os fd)), shm_ftruncate = (\<lambda>fd. along (shm_ftruncate os fd)),
     shm_mmap = (\<lambda>fd. along (shm_mmap os fd)), shm_munmap = along_eff (shm_munmap os),
     shm_close = (\<lambda>fd. along_eff (shm_close os fd))\<rparr>"

definition sys_handles :: "'w sys \<Rightarrow> ('w \<times> handle multiset) sys" where
  "sys_handles os =
    \<lparr>sys_perf = perf_lifted (sys_perf os), sys_bpf = bpf_handles (sys_bpf os),
     sys_proc = proc_lifted (sys_proc os), sys_shm = shm_lifted (sys_shm os),
     sys_clock = along (sys_clock os), sys_qsort = sys_qsort os\<rparr>"

lemma tracked_sel [simp]:
  "sys_perf (sys_tracked os) = perf_tracked (sys_perf os)" "sys_bpf (sys_tracked os) = bpf_lifted (sys_bpf os)"
  "sys_proc (sys_tracked os) = proc_tracked (sys_proc os)" "sys_shm (sys_tracked os) = shm_tracked (sys_shm os)"
  "sys_qsort (sys_tracked os) = sys_qsort os"
  by (simp_all add: sys_tracked_def)

text \<open>The calls that leave the ledger alone. \<open>ledger\<close> collects them.\<close>

abbreviation led :: "'w \<times> int multiset \<Rightarrow> int multiset" where "led w \<equiv> snd w"

lemma led_clock [simp]: "led (snd (sys_clock (sys_tracked os) w)) = led w"
  by (simp add: sys_tracked_def)

lemma led_proc [simp]:
  "led (snd (pr_lseek (proc_tracked os) fd w)) = led w"
  "led (snd (pr_read (proc_tracked os) fd n w)) = led w"
  "led (snd (pr_fopen (proc_tracked os) p w)) =
     led w + (case fst (pr_fopen (proc_tracked os) p w) of None \<Rightarrow> {#} | Some a \<Rightarrow> {#fst a#})"
  "led (pr_fclose (proc_tracked os) fd w) = led w - {#fd#}"
  "led (snd (pr_opendir (proc_tracked os) w)) =
     led w + (case fst (pr_opendir (proc_tracked os) w) of None \<Rightarrow> {#} | Some a \<Rightarrow> {#fst a#})"
  "led (pr_closedir (proc_tracked os) fd w) = led w - {#fd#}"
  "led (snd (pr_gone (proc_tracked os) pid w)) = led w"
  "led (pr_close (proc_tracked os) fd w) = led w - {#fd#}"
  "led (snd (pr_open (proc_tracked os) p w)) =
     led w + (if 0 \<le> fst (pr_open (proc_tracked os) p w) then {#fst (pr_open (proc_tracked os) p w)#} else {#})"
  by (cases w; simp add: proc_tracked_def split: prod.split option.split)+

lemma led_bpf [simp]:
  "led (snd (bo_open (bpf_lifted os) p w)) = led w" "led (snd (bo_load (bpf_lifted os) ob w)) = led w"
  "led (bo_close (bpf_lifted os) ob w) = led w" "led (snd (bo_attach (bpf_lifted os) pr w)) = led w"
  "led (bo_link_destroy (bpf_lifted os) l w) = led w"
  "led (bo_update_u64 (bpf_lifted os) fd k v f w) = led w"
  "led (bo_update_u32 (bpf_lifted os) fd k v32 f w) = led w" "led (bo_delete (bpf_lifted os) fd k w) = led w"
  by (simp_all add: bpf_lifted_def)

lemma led_perf_read [simp]: "led (snd (snd (perf_counter_read (perf_tracked os) pc w))) = led w"
  by (cases w) (simp add: perf_counter_read_def perf_tracked_def Let_def split: prod.split option.split)

lemma led_perf_close [simp]: "led (snd (perf_counter_close (perf_tracked os) pc w)) = led w - mset (pc_fds pc)"
  using close_tracked [of os pc "fst w" "snd w"] by auto

lemma led_register [simp]: "led (ebpf_tracer_register_pid (bpf_lifted os) et p w) = led w"
  by (simp add: ebpf_tracer_register_pid_def zero_counter_def Let_def)

lemma led_unregister [simp]: "led (ebpf_tracer_unregister_pid (bpf_lifted os) et p w) = led w"
  by (simp add: ebpf_tracer_unregister_pid_def)

lemma led_pop_comm [simp]: "led (snd (snd (ebpf_tracer_pop_exec_comm (bpf_lifted os) et p b n w))) = led w"
  by (simp add: ebpf_tracer_pop_exec_comm_def Let_def split: option.split)

lemma led_read_io [simp]: "led (snd (snd (read_proc_io_fd (proc_tracked os) fd out w))) = led w"
  by (simp add: read_proc_io_fd_def Let_def case_prod_beta split: option.split)

lemma led_open_io [simp]: "led (snd (snd (open_proc_io_fd (proc_tracked os) pid st w))) = led w +
   (if 0 \<le> fst (open_proc_io_fd (proc_tracked os) pid st w) then {#fst (open_proc_io_fd (proc_tracked os) pid st w)#} else {#})"
  by (simp add: open_proc_io_fd_def Let_def case_prod_beta)

lemma led_comm [simp]: "led (snd (read_proc_comm (proc_tracked os) pid n w)) = led w"
  by (simp add: read_proc_comm_def Let_def case_prod_beta split: option.split)

subsection \<open>What the table holds\<close>

definition slot_fds :: "slot \<Rightarrow> int multiset" where
  "slot_fds r = mset (pc_fds (sl_perf r)) + (if 0 \<le> io_fd (sl_state r) then {#io_fd (sl_state r)#} else {#})"

definition table_fds :: "daemon \<Rightarrow> int multiset" where
  "table_fds d = sum_list (map slot_fds (rows d))"

text \<open>Everything open beyond \<open>B\<close> belongs to exactly one slot.\<close>

definition owns :: "int multiset \<Rightarrow> daemon \<Rightarrow> int multiset \<Rightarrow> bool" where
  "owns B d F \<longleftrightarrow> F = B + table_fds d"

lemma table_fds_mset: "table_fds d = sum_mset (image_mset slot_fds (mset (rows d)))"
  by (simp add: table_fds_def flip: sum_mset_sum_list)

lemma table_fds_cong:
  assumes "g_n_active d' = g_n_active d"
    "\<And>j. j < g_n_active d \<Longrightarrow> slot_fds (row d' j) = slot_fds (row d j)"
  shows "table_fds d' = table_fds d"
  unfolding table_fds_def rows_def using assms by (auto intro!: arg_cong [of _ _ sum_list])

lemma table_fds_split:
  assumes "i < g_n_active d"
  shows "table_fds d = slot_fds (row d i) + sum_mset (image_mset slot_fds (mset (rows d) - {#row d i#}))"
proof -
  have "mset (rows d) = add_mset (row d i) (mset (rows d) - {#row d i#})"
    using assms nth_mem [of i "rows d"] by simp
  from arg_cong [OF this, of "\<lambda>M. sum_mset (image_mset slot_fds M)"] show ?thesis
    by (simp add: table_fds_mset)
qed

lemma slot_fds_size: "size (slot_fds r) \<le> 4"
proof -
  have "length (filter P [a, b, c]) \<le> 3" for P and a b c :: int
    using length_filter_le [of P "[a, b, c]"] by simp
  then have "length (pc_fds (sl_perf r)) \<le> 3" unfolding pc_fds_def .
  then show ?thesis by (simp add: slot_fds_def)
qed

lemma table_fds_size: "size (table_fds d) \<le> 4 * g_n_active d"
proof -
  have "size (sum_list (map slot_fds rs)) \<le> 4 * length rs" for rs
  proof (induction rs)
    case (Cons r rs)
    then show ?case using slot_fds_size [of r] by simp
  qed simp
  from this [of "rows d"] show ?thesis by (simp add: table_fds_def)
qed

subsection \<open>Adding and removing\<close>

lemma led_seed_counters [simp]:
  "led (snd (seed_counters (sys_tracked os) et pid pc w)) = led w"
  by (simp add: seed_counters_def Let_def case_prod_beta)

lemma led_seed_io:
  assumes "seed_io (sys_tracked os) st stats w = (st', stats', w')"
  shows "led w' = led w + (if 0 \<le> io_fd st' then {#io_fd st'#} else {#})"
proof -
  have "w' = snd (snd (seed_io (sys_tracked os) st stats w))" "st' = fst (seed_io (sys_tracked os) st stats w)"
    using assms by simp_all
  then show ?thesis by (simp add: seed_io_def Let_def case_prod_beta)
qed

lemma led_first_comm [simp]: "led (snd (first_comm (sys_tracked os) et pid w)) = led w"
  by (simp add: first_comm_def Let_def case_prod_beta)

lemma add_pid_owns [keeps]:
  assumes ok: "arrays_ok d" and o: "owns B d (led w)" and run: "add_pid (sys_tracked os) d p w = (slot, d', w')"
  shows "owns B d' (led w')"
proof (cases "MAX_PIDS \<le> g_n_active d")
  case True
  with o run show ?thesis by (simp add: add_pid_def)
next
  case False
  let ?n = "g_n_active d"
  obtain e pc w1 F1 where op: "perf_counter_open (perf_tracked (sys_perf os)) p (-1) w = (e, pc, w1, F1)" by (metis prod_cases4)
  have t: "F1 = led w + mset (pc_fds pc) \<and> (e = 0 \<and> pc_open_ok pc \<or> e = -1 \<and> pc_fds pc = [])"
    using open_tracked [of "sys_perf os" p "-1" "fst w" "led w" e pc w1 F1] op by simp
  show ?thesis
  proof (cases "e = 0")
    case e: False
    obtain pc' w2 where c: "perf_counter_close (perf_tracked (sys_perf os)) pc (w1, F1) = (pc', w2)" by (metis prod.exhaust)
    have d': "d' = d\<lparr>g_perf := (g_perf d)[?n := pc']\<rparr>" "w' = w2"
      using run False e by (simp_all add: add_pid_def op c)
    have "led w2 = F1 - mset (pc_fds pc)" using led_perf_close [of "sys_perf os" pc "(w1, F1)"] by (simp add: c)
    moreover have "table_fds d' = table_fds d" by (rule table_fds_cong) (simp_all add: d' row_def slot_fds_def)
    ultimately show ?thesis using o t e d'(2) by (auto simp: owns_def)
  next
    case e: True
    obtain st1 w2 where s1: "seed_counters (sys_tracked os) (g_tracer d) p pc (w1, F1) = (st1, w2)" by (metis prod.exhaust)
    obtain st2 stats w3 where s2: "seed_io (sys_tracked os) st1 (io_stats d) w2 = (st2, stats, w3)" by (metis prod_cases3)
    obtain comm w4 where s3: "first_comm (sys_tracked os) (g_tracer d) p w3 = (comm, w4)" by (metis prod.exhaust)
    let ?f = "fill_slot ?n st2 pc comm d"
    have d': "d' = ?f\<lparr>io_stats := stats, g_n_active := ?n + 1\<rparr>"
      and w': "w' = ebpf_tracer_register_pid (bpf_lifted (sys_bpf os)) (g_tracer d) (u32_of_int p) w4"
      using run False e by (simp_all add: add_pid_def op s1 s2 s3 Let_def)
    have len: "?n < MAX_PIDS" using False by simp
    have "row d' i = (if i = ?n then fresh_slot st2 pc comm else row d i)" if "i \<le> ?n" for i
      using that ok len by (simp add: d' fill_slot_def row_def fresh_slot_def arrays_ok_def)
    then have "rows d' = rows d @ [fresh_slot st2 pc comm]" using d' by (simp add: rows_def)
    then have "table_fds d' = table_fds d + slot_fds (fresh_slot st2 pc comm)" by (simp add: table_fds_def)
    moreover have "led w4 = led w3" "led w2 = F1"
      using led_first_comm [of os "g_tracer d" p w3] led_seed_counters [of os "g_tracer d" p pc "(w1, F1)"]
      by (simp_all add: s3 s1)
    ultimately show ?thesis
      using o t led_seed_io [OF s2] by (simp add: owns_def w' slot_fds_def fresh_slot_def)
  qed
qed

lemma remove_slot_owns [keeps]:
  assumes ok: "arrays_ok d" and i: "i < g_n_active d" and o: "owns B d (led w)"
  shows "owns B (fst (remove_slot (sys_tracked os) i d w)) (led (snd (remove_slot (sys_tracked os) i d w)))"
proof -
  have "led (snd (remove_slot (sys_tracked os) i d w)) = led w - slot_fds (row d i)"
    by (simp add: remove_slot_def release_slot_def Let_def case_prod_beta slot_fds_def row_def)
  moreover have "table_fds (fst (remove_slot (sys_tracked os) i d w)) =
      sum_mset (image_mset slot_fds (mset (rows d) - {#row d i#}))"
    by (simp only: table_fds_mset mset_remove_rows [OF ok i])
  ultimately show ?thesis using o table_fds_split [OF i] by (simp add: owns_def)
qed

subsection \<open>Synchronising\<close>

text \<open>The table's arrays are in order and the ledger is its descriptors on top of \<open>B\<close>.\<close>

definition ledger :: "int multiset \<Rightarrow> daemon \<Rightarrow> 'w \<times> int multiset \<Rightarrow> bool" where
  "ledger B d w \<longleftrightarrow> arrays_ok d \<and> owns B d (led w)"

lemma ledger_add [keeps]: "ledger B d w \<Longrightarrow> add_pid (sys_tracked os) d p w = (slot, d', w') \<Longrightarrow> ledger B d' w'"
  using add_pid_rows(1) [of d "sys_tracked os" p w slot d' w'] add_pid_owns [of d B w os p slot d' w']
  by (simp add: ledger_def)

lemma ledger_remove [keeps]: "ledger B d w \<Longrightarrow> i < g_n_active d \<Longrightarrow>
  ledger B (fst (remove_slot (sys_tracked os) i d w)) (snd (remove_slot (sys_tracked os) i d w))"
  using remove_arrays [of d "sys_tracked os" i w] remove_slot_owns [of d i B w os] by (simp add: ledger_def)

lemma ledger_led: "ledger B d w \<Longrightarrow> led w' = led w \<Longrightarrow> ledger B d w'"
  by (simp add: ledger_def)

lemma ledger_cong:
  assumes "arrays_ok d'" "g_n_active d' = g_n_active d"
    "\<And>j. j < g_n_active d \<Longrightarrow> slot_fds (row d' j) = slot_fds (row d j)" "ledger B d w" "led w' = led w"
  shows "ledger B d' w'"
  using assms table_fds_cong [OF assms(2,3)] by (simp add: ledger_def owns_def)

lemma ledger_set_active [keeps]:
  assumes "ledger B d w" "\<And>i. slot = Some i \<Longrightarrow> i < g_n_active d"
  shows "ledger B (set_active slot d) w"
proof (cases slot)
  case None
  with assms show ?thesis by (simp add: set_active_def)
next
  case (Some i)
  show ?thesis
  proof (rule ledger_cong [OF _ _ _ assms(1) refl])
    show "arrays_ok (set_active slot d)" using assms Some set_active_props(1) [of d i] by (simp add: ledger_def)
    show "g_n_active (set_active slot d) = g_n_active d" by (simp add: set_active_def Some)
    show "slot_fds (row (set_active slot d) j) = slot_fds (row d j)" if "j < g_n_active d" for j
      using assms that by (cases "i = j") (auto simp: set_active_def Some row_def slot_fds_def ledger_def arrays_ok_def)
  qed
qed

lemma ledger_add_missing [keeps]:
  "ledger B d w \<Longrightarrow> add_missing (sys_tracked os) ps d w = (d', w') \<Longrightarrow> ledger B d' w'"
  by (induction ps arbitrary: d w) (auto split: option.splits prod.splits dest: ledger_add)

lemma find_slot_less: "ledger B d w \<Longrightarrow> find_slot d p = Some i \<Longrightarrow> i < g_n_active d"
  using find_slot_Some [of d p i] by (simp add: ledger_def)

lemma add_pid_less: "ledger B d w \<Longrightarrow> add_pid (sys_tracked os) d p w = (Some i, d', w') \<Longrightarrow> i < g_n_active d'"
  using add_pid_rows(3) [of d "sys_tracked os" p w "Some i" d' w']
  by (auto simp: ledger_def dest: arg_cong [of _ _ length])

lemma ledger_mark_top [keeps]:
  "ledger B d w \<Longrightarrow> mark_top (sys_tracked os) ps d w = (d', w') \<Longrightarrow> ledger B d' w'"
proof (induction ps arbitrary: d w)
  case (Cons p ps)
  show ?case
  proof (cases "find_slot d p")
    case None
    obtain slot d1 w1 where a: "add_pid (sys_tracked os) d p w = (slot, d1, w1)" by (metis prod_cases3)
    have "ledger B (set_active slot d1) w1"
    proof (cases slot)
      case None
      then show ?thesis using ledger_add [OF Cons.prems(1) a] by (simp add: set_active_def)
    next
      case (Some i)
      then show ?thesis
        using ledger_set_active [OF ledger_add [OF Cons.prems(1) a], of slot] add_pid_less [OF Cons.prems(1) a [unfolded Some]] by simp
    qed
    then show ?thesis using Cons.IH Cons.prems(2) None a by simp
  next
    case (Some i)
    then have "ledger B (set_active (Some i) d) w"
      using ledger_set_active [OF Cons.prems(1), of "Some i"] find_slot_less [OF Cons.prems(1) Some] by simp
    then show ?thesis using Cons.IH Cons.prems(2) Some by simp
  qed
qed simp

text \<open>What the test and every removal keep, a pruning loop keeps.\<close>

lemma prune_keeps:
  assumes tst: "\<And>st d w. Q d w \<Longrightarrow> Q d (snd (t st w))"
    and rem: "\<And>i d w. Q d w \<Longrightarrow> i < g_n_active d \<Longrightarrow> Q (fst (remove_slot os i d w)) (snd (remove_slot os i d w))"
  shows "Q d w \<Longrightarrow> prune os t i d w = (d', w') \<Longrightarrow> Q d' w'"
proof (induction "g_n_active d - i" arbitrary: i d w rule: less_induct)
  case less
  note unf = prune.simps [of os t i d w]
  show ?case
  proof (cases "g_n_active d \<le> i")
    case True
    with less.prems show ?thesis by (simp add: unf)
  next
    case False
    obtain b w1 where tt: "t (g_states d ! i) w = (b, w1)" by (metis prod.exhaust)
    have q1: "Q d w1" using tst [OF less.prems(1), of "g_states d ! i"] tt by simp
    show ?thesis
    proof (cases b)
      case True
      let ?r = "remove_slot os i d w1"
      have "prune os t i (fst ?r) (snd ?r) = (d', w')" using less.prems(2) False True tt by (simp add: unf)
      moreover have "Q (fst ?r) (snd ?r)" using rem [OF q1] False by simp
      ultimately show ?thesis using less.hyps [of "fst ?r" i] False by simp
    next
      case b: False
      then have "prune os t (i + 1) d w1 = (d', w')" using less.prems(2) False tt by (simp add: unf)
      then show ?thesis using less.hyps [of d "i + 1"] q1 False by simp
    qed
  qed
qed

lemma ledger_prune [keeps]:
  assumes t: "\<And>st w. led (snd (t st w)) = led w"
    and "ledger B d w" "prune (sys_tracked os) t i d w = (d', w')"
  shows "ledger B d' w'"
  by (rule prune_keeps [where Q = "ledger B", OF _ _ assms(2,3)]) (auto intro: ledger_led t ledger_remove)

lemma ledger_clear_slots [keeps]: "ledger B d w \<Longrightarrow> ledger B (clear_slots d) w"
proof (rule ledger_cong)
  assume l: "ledger B d w"
  then have a: "arrays_ok d" by (simp add: ledger_def)
  show "arrays_ok (clear_slots d)" using a by (simp add: arrays_ok_def clear_slots_def)
  show "slot_fds (row (clear_slots d) j) = slot_fds (row d j)" if "j < g_n_active d" for j
    using that a by (simp add: clear_slots_def row_def slot_fds_def arrays_ok_def nth_append)
qed (simp_all add: clear_slots_def)

lemma ledger_sync_slots [keeps]:
  assumes "ledger B d w" "sync_slots (sys_tracked os) d w = (d', w')"
  shows "ledger B d' w'"
proof (cases "0 < n_pids (g_cfg d)")
  case True
  obtain d1 w1 where a: "add_missing (sys_tracked os) (cfg_pids (g_cfg d)) d w = (d1, w1)" by (metis prod.exhaust)
  have "prune_gone (sys_tracked os) d1 w1 = (d', w')" using assms(2) True a by (simp add: sync_slots_def sync_explicit_def)
  then show ?thesis
    unfolding prune_gone_def by (rule ledger_prune [OF _ ledger_add_missing [OF assms(1) a], rotated]) simp
next
  case False
  let ?top = "proc_scanner_top_n (sys_qsort os) (g_scanner d)
     (if int MAX_PIDS < top_n (g_cfg d) then int MAX_PIDS else top_n (g_cfg d)) (min_uid (g_cfg d))"
  obtain d1 w1 where m: "mark_top (sys_tracked os) ?top (clear_slots d) w = (d1, w1)" by (metis prod.exhaust)
  have "prune_inactive (sys_tracked os) d1 w1 = (d', w')"
    using assms(2) False m by (simp add: sync_slots_def sync_top_def)
  then show ?thesis
    unfolding prune_inactive_def
    by (rule ledger_prune [OF _ ledger_mark_top [OF ledger_clear_slots [OF assms(1)] m], rotated]) simp
qed

lemma led_read_stat [simp]: "led (snd (read_proc_stat (proc_tracked os) pid b w)) = led w"
  by (simp add: read_proc_stat_def Let_def case_prod_beta split: option.split)

lemma led_read_uid [simp]: "led (snd (read_proc_uid (proc_tracked os) pid w)) = led w"
  by (simp add: read_proc_uid_def Let_def case_prod_beta split: option.split)

lemma led_scan_one: "scan_one (proc_tracked os) pid ps w = Some (ps', w') \<Longrightarrow> led w' = led w"
  by (auto simp: scan_one_def Let_def case_prod_beta split: if_splits option.splits stat_result.splits)

lemma led_scan_loop: "scan_pids_loop (proc_tracked os) pids ps w = Some (ps', w') \<Longrightarrow> led w' = led w"
  by (induction pids arbitrary: ps w) (auto split: option.splits dest: led_scan_one)

lemma led_scan_processes: "scan_processes (sys_tracked os) d w = Some (sc, w') \<Longrightarrow> led w' = led w"
  by (auto simp: scan_processes_def proc_scanner_scan_def proc_scanner_scan_pids_def Let_def case_prod_beta
      split: if_splits option.splits dest: led_scan_loop)

lemma ledger_sync_pids [keeps]:
  assumes "ledger B d w" "sync_pids (sys_tracked os) d w = Some (d', w')"
  shows "ledger B d' w'"
proof -
  obtain t w1 where c: "sys_clock (sys_tracked os) w = (t, w1)" by (metis prod.exhaust)
  have l1: "ledger B d w1" by (rule ledger_led [OF assms(1)]) (use led_clock [of os w] c in simp)
  show ?thesis
  proof (cases "\<not> first_run d \<and> elapsed_ns t (last_sync d) < NSEC")
    case True
    with assms(2) c l1 show ?thesis by (simp add: sync_pids_def)
  next
    case False
    obtain sc w2 where sc: "scan_processes (sys_tracked os) (d\<lparr>first_run := False, last_sync := t\<rparr>) w1 = Some (sc, w2)"
      and run: "sync_slots (sys_tracked os) (d\<lparr>first_run := False, last_sync := t, g_scanner := sc\<rparr>) w2 = (d', w')"
      using assms(2) False by (auto simp: sync_pids_def c split: if_splits option.splits)
    let ?d = "d\<lparr>first_run := False, last_sync := t, g_scanner := sc\<rparr>"
    have "ledger B ?d w2"
      using l1 led_scan_processes [OF sc] rows_scanned [where d = d and b = False and t = t and sc = sc]
      by (simp add: ledger_def owns_def table_fds_def arrays_ok_def)
    then show ?thesis using run by (rule ledger_sync_slots)
  qed
qed

subsection \<open>A tick\<close>

lemma led_refresh_io:
  assumes "refresh_io (sys_tracked os) st stats w = (io, sysc, st', stats', w')"
    and "0 \<le> io_fd st \<longrightarrow> io_fd st \<in># led w"
  shows "led w' + (if 0 \<le> io_fd st then {#io_fd st#} else {#}) =
    led w + (if 0 \<le> io_fd st' then {#io_fd st'#} else {#})"
proof (cases "0 \<le> io_fd st")
  case False
  with assms(1) show ?thesis by (auto simp: refresh_io_def)
next
  case True
  let ?r = "refresh_io (sys_tracked os) st stats w"
  have "w' = snd (snd (snd (snd ?r)))" "st' = fst (snd (snd ?r))" using assms(1) by simp_all
  then show ?thesis using True assms(2) by (simp add: refresh_io_def Let_def case_prod_beta)
qed

lemma sample_slot_owns:
  assumes l: "ledger B d w" and i: "i < g_n_active d" and run: "sample_slot (sys_tracked os) i dt hw d w = (b, d', w')"
  shows "ledger B d' w'"
proof -
  let ?st = "g_states d ! i"
  have a: "arrays_ok d" and o: "led w = B + table_fds d" using l by (simp_all add: ledger_def owns_def)
  have len: "i < length (g_states d)" using a i by (simp add: arrays_ok_def)
  obtain io sysc st1 stats w1 where rf: "refresh_io (sys_tracked os) ?st (io_stats d) w = (io, sysc, st1, stats, w1)"
    by (metis prod_cases5)
  have t: "touches i d d'" by (rule sample_touches(1) [OF a i run])
  have rows: "rows d' = (rows d)[i := row d' i]" by (rule touches_rows [OF t i])
  have n: "g_n_active d' = g_n_active d" and a': "arrays_ok d'" using t by (simp_all add: touches_def)
  show ?thesis
  proof (cases b)
    case False
    then have "w' = w" "\<exists>x y z. d' = d\<lparr>g_states := (g_states d)[i := reset_baselines x y z hw ?st]\<rparr>"
      using run by (auto simp: sample_slot_def Let_def rf split: if_splits)
    then have "slot_fds (row d' j) = slot_fds (row d j)" if "j < g_n_active d" for j
      using len by (cases "i = j") (auto simp: row_def slot_fds_def reset_baselines_def)
    then show ?thesis using ledger_cong [OF a' n _ l refl] \<open>w' = w\<close> by simp
  next
    case True
    then have w': "w' = w1" and sl: "sl_perf (row d' i) = sl_perf (row d i)" "io_fd (sl_state (row d' i)) = io_fd st1"
      using run len by (auto simp: sample_slot_def Let_def rf row_def push_windows_def advance_baselines_def split: if_splits)
    let ?io = "\<lambda>st. if 0 \<le> io_fd st then {#io_fd st#} else {#}"
    have fd: "slot_fds (row d i) = mset (pc_fds (sl_perf (row d i))) + ?io ?st"
      by (simp add: slot_fds_def row_def)
    have rest: "table_fds d = slot_fds (row d i) + sum_mset (image_mset slot_fds (mset (rows d) - {#row d i#}))"
      by (rule table_fds_split [OF i])
    have "0 \<le> io_fd ?st \<longrightarrow> io_fd ?st \<in># led w" by (simp add: o rest fd)
    from led_refresh_io [OF rf this] have led: "led w' + ?io ?st = led w + ?io st1" unfolding w' .
    have "table_fds d' = slot_fds (row d' i) + sum_mset (image_mset slot_fds (mset (rows d) - {#row d i#}))"
      using i by (simp add: table_fds_mset rows mset_update)
    then have "table_fds d' + ?io ?st = table_fds d + ?io st1"
      by (simp add: rest slot_fds_def sl) (simp add: row_def)
    with led o have "led w' + ?io ?st = B + table_fds d' + ?io ?st" by (simp add: ac_simps)
    then have "led w' = B + table_fds d'" by (simp only: add_right_cancel)
    with a' show ?thesis by (simp add: ledger_def owns_def)
  qed
qed

text \<open>Publishing touches neither the states nor the counters.\<close>

lemma ledger_same_fds:
  assumes "ledger B d w" "arrays_ok d'" "g_n_active d' = g_n_active d" "g_states d' = g_states d" "g_perf d' = g_perf d"
    "led w' = led w"
  shows "ledger B d' w'"
  using ledger_cong [OF assms(2,3) _ assms(1,6)] assms(4,5) by (simp add: row_def slot_fds_def)

lemma ledger_publish: "ledger B d w \<Longrightarrow> publish_slot i now d = Some d' \<Longrightarrow> ledger B d' w"
  by (rule ledger_same_fds [of B d w])
    (auto simp: publish_slot_def Let_def ledger_def arrays_ok_def split: if_splits option.splits)

lemma ledger_show: "ledger B d w \<Longrightarrow> ledger B (fst (show_slot (sys_tracked os) i pid now d w)) (snd (show_slot (sys_tracked os) i pid now d w))"
  by (rule ledger_same_fds [of B d w]) (simp_all add: show_slot_def Let_def ledger_def arrays_ok_def case_prod_beta)

lemma ledger_fast_loop: "ledger B d w \<Longrightarrow> fast_loop now is d = Some d' \<Longrightarrow> ledger B d' w"
proof (induction "is" arbitrary: d)
  case (Cons i "is")
  obtain d1 where d1: "fast_slot now i d = Some d1" using Cons.prems(2) by (auto split: option.splits)
  have "ledger B d1 w"
    using Cons.prems(1) by (rule ledger_same_fds)
      (use d1 Cons.prems(1) in \<open>auto simp: fast_slot_def Let_def ledger_def arrays_ok_def split: if_splits option.splits\<close>)
  with Cons d1 show ?case by simp
qed simp

text \<open>
  A property of the state and the world that the kernel calls and every step of the loop over
  the slots keep, the loop keeps.
\<close>

lemma slow_loop_keeps:
  assumes ok: "daemon_ok d0" and start: "Q d0 w0"
    and read: "\<And>pc d w. Q d w \<Longrightarrow> Q d (snd (snd (perf_counter_read (sys_perf os) pc w)))"
    and rem: "\<And>i d w. daemon_ok d \<Longrightarrow> Q d w \<Longrightarrow> i < g_n_active d \<Longrightarrow>
      Q (fst (remove_slot os i d w)) (snd (remove_slot os i d w))"
    and smp: "\<And>i hw d w b d' w'. daemon_ok d \<Longrightarrow> Q d w \<Longrightarrow> i < g_n_active d \<Longrightarrow>
      sample_slot os i dt hw d w = (b, d', w') \<Longrightarrow> Q d' w'"
    and pub: "\<And>i d w d'. arrays_ok d \<Longrightarrow> Q d w \<Longrightarrow> i < g_n_active d \<Longrightarrow> publish_slot i now d = Some d' \<Longrightarrow> Q d' w"
    and shw: "\<And>i pid d w. arrays_ok d \<Longrightarrow> Q d w \<Longrightarrow> i < g_n_active d \<Longrightarrow>
      Q (fst (show_slot os i pid now d w)) (snd (show_slot os i pid now d w))"
    and run: "slow_loop os dt now limit 0 shown d0 w0 = Some (d', w')"
  shows "Q d' w'"
proof -
  have "\<exists>d' w' i'. slow_loop os dt now limit 0 shown d0 w0 = Some (d', w') \<and>
    g_n_active d' \<le> i' \<and> daemon_ok d' \<and> Q d' w'"
  proof (rule slow_loop_rule [where P = "\<lambda>i d w. daemon_ok d \<and> Q d w"], goal_cases)
    case 1
    then show ?case using ok start by simp
  next
    case (2 i d w r hw w1 d' w')
    have "Q d w1" using 2 read [of d w "g_perf d ! i"] by simp
    then show ?case using 2 rem [of d w1 i] remove_daemon_ok [of d i os w1] by simp
  next
    case (3 i d w hw w1 d' w')
    have "Q d w1" using 3 read [of d w "g_perf d ! i"] by simp
    then show ?case using 3 smp [of d w1 i hw False d' w'] sample_reset_ok [of d i os dt hw w1 d' w'] by simp
  next
    case (4 i d w hw w1 d1 w2)
    have d: "daemon_ok d" and "Q d w1" using 4 read [of d w "g_perf d ! i"] by simp_all
    then have q1: "Q d1 w2" using 4 smp [of d w1 i hw True d1 w2] by simp
    note t = sample_touches [OF daemon_okD(2) [OF d] 4(2,4)]
    have i1: "i < g_n_active d1" "arrays_ok d1" using t(1) 4(2) by (simp_all add: touches_def)
    have "ring_ok (g_rb d1)" "ring_ok (g_rb_dash d1)" using daemon_okD [OF d] t(2,3) by simp_all
    from publish_total [OF this] obtain d2 where d2: "publish_slot i now d1 = Some d2" by blast
    note p = publish_ok [OF d 4(2,4) d2]
    have i2: "i < g_n_active d2" "arrays_ok d2" using p(2) 4(2) by (simp_all add: touches_def)
    have q2: "Q d2 w2" by (rule pub [OF i1(2) q1 i1(1) d2])
    then show ?case using d2 p(1) shw [OF i2(2) q2 i2(1)] show_ok [OF p(1) i2(1)] by simp
  qed
  with run show ?thesis by simp
qed

lemma ledger_slow_loop:
  assumes ok: "daemon_ok d0" and l: "ledger B d0 w0"
    and run: "slow_loop (sys_tracked os) dt now limit 0 shown d0 w0 = Some (d', w')"
  shows "ledger B d' w'"
  using ok l _ _ _ _ _ run
proof (rule slow_loop_keeps)
  show "ledger B d (snd (snd (perf_counter_read (sys_perf (sys_tracked os)) pc w)))" if "ledger B d w" for pc d w
    by (rule ledger_led [OF that]) simp
qed (auto intro: ledger_remove sample_slot_owns ledger_publish ledger_show)

lemma ledger_tick:
  assumes ok: "daemon_ok d" and l: "ledger B d w" and run: "tick (sys_tracked os) ls d w = Some (ls', dl, d', w')"
  shows "ledger B d' w'"
proof (rule tick_phases [OF ok run])
  fix t w1 d1
  assume c: "sys_clock (sys_tracked os) w = (t, w1)" and f: "fast_path (now_ns_of t) d1 = Some d'"
    and mid: "d1 = d \<and> w' = w1 \<or> (\<exists>dt ds ws. sync_pids (sys_tracked os) d w1 = Some (ds, ws) \<and> daemon_ok ds \<and>
       slow_loop (sys_tracked os) dt (now_ns_of t) (display_limit ds) 0 0 ds ws = Some (d1, w'))"
  have l1: "ledger B d w1" by (rule ledger_led [OF l]) (use led_clock [of os w] c in simp)
  then have "ledger B d1 w'" using mid ledger_sync_pids ledger_slow_loop by blast
  then show "ledger B d' w'" using f ledger_fast_loop unfolding fast_path_def by blast
qed

subsection \<open>How many slots there can be\<close>

text \<open>
  The number of processes the daemon expects to monitor, \<open>max_pids\<close> of \<open>raise_fd_limit\<close>.
\<close>

definition max_tracked :: "DaemonConfig \<Rightarrow> int" where
  "max_tracked c = (if 0 < n_pids c then int (n_pids c) else if 0 < top_n c then top_n c else DEFAULT_TOP_N)"

text \<open>Only listed pids, or no more than the ranking returns.\<close>

definition in_budget :: "daemon \<Rightarrow> bool" where
  "in_budget d \<longleftrightarrow> (if 0 < n_pids (g_cfg d) then set (slot_pids d) \<subseteq> set (cfg_pids (g_cfg d))
     else int (g_n_active d) \<le> max 0 (top_n (g_cfg d)))"

lemma distinct_length_le: "distinct xs \<Longrightarrow> set xs \<subseteq> set ys \<Longrightarrow> length xs \<le> length ys"
  by (metis card_length card_mono distinct_card dual_order.trans finite_set)

lemma in_budget_bound:
  assumes "in_budget d" "table_ok d"
  shows "int (g_n_active d) \<le> max_tracked (g_cfg d)"
proof (cases "0 < n_pids (g_cfg d)")
  case True
  then have "length (slot_pids d) \<le> n_pids (g_cfg d)"
    using assms distinct_length_le unfolding in_budget_def table_ok_def by (metis True)
  then show ?thesis using True by (simp add: max_tracked_def)
next
  case False
  then show ?thesis using assms(1) by (auto simp: in_budget_def max_tracked_def)
qed

lemma in_budget_pids:
  assumes "in_budget d" "g_cfg d' = g_cfg d" "set (slot_pids d') \<subseteq> set (slot_pids d)" "g_n_active d' \<le> g_n_active d"
  shows "in_budget d'"
  using assms unfolding in_budget_def by (auto split: if_splits)

lemma in_budget_touches: "in_budget d \<Longrightarrow> touches i d d' \<Longrightarrow> in_budget d'"
  by (rule in_budget_pids [of d]) (simp_all only: touches_pids, simp_all add: touches_def)

lemma in_budget_remove: "table_ok d \<Longrightarrow> in_budget d \<Longrightarrow> i < g_n_active d \<Longrightarrow> in_budget (fst (remove_slot os i d w))"
proof (rule in_budget_pids [of d])
  assume t: "table_ok d" and i: "i < g_n_active d"
  have "frame (fst (remove_slot os i d w)) = frame d" by simp
  then show "g_cfg (fst (remove_slot os i d w)) = g_cfg d" by (simp add: frame_def)
  have "set_mset (mset (rows (fst (remove_slot os i d w)))) \<subseteq> set_mset (mset (rows d))"
    using t i by (simp only: mset_remove_rows table_ok_def) (rule set_mset_mono, simp)
  then show "set (slot_pids (fst (remove_slot os i d w))) \<subseteq> set (slot_pids d)" by auto
qed simp_all

lemma in_budget_sync:
  assumes ok: "table_ok d" and b: "in_budget d" and run: "sync_pids os d w = Some (d', w')"
  shows "in_budget d'"
proof (rule sync_pids_cases [OF run])
  assume "d' = d"
  then show ?thesis using b by simp
next
  fix t sc w1 w2
  let ?d = "d\<lparr>first_run := False, last_sync := t, g_scanner := sc\<rparr>"
  assume s: "sync_slots os ?d w2 = (d', w')"
  have rs: "rows ?d = rows d" by (rule rows_scanned)
  then have ok': "table_ok ?d" using ok by (simp add: table_ok_def arrays_ok_def)
  have tr: "tracks ?d (wanted os ?d) d'" by (rule sync_slots_tracks [OF ok' s])
  have cfg: "g_cfg d' = g_cfg d" using tr by (simp add: tracks_def frame_def)
  show "in_budget d'"
  proof (cases "0 < n_pids (g_cfg d)")
    case True
    have "sl_pid r \<in> set (cfg_pids (g_cfg d))" if "r \<in> set (rows d')" for r
    proof -
      have "history r \<in> history ` set (rows d) \<or> sl_pid r \<in> set (cfg_pids (g_cfg d))"
        using tr that True rs by (auto simp: tracks_def wanted_def)
      moreover have "sl_pid r \<in> set (slot_pids d)" if "history r \<in> history ` set (rows d)"
        using that by (auto dest: history_eqD)
      ultimately show ?thesis using b True by (auto simp: in_budget_def)
    qed
    then show ?thesis using True cfg by (auto simp: in_budget_def)
  next
    case False
    then have top: "sync_top os ?d w2 = (d', w')" "n_pids (g_cfg ?d) = 0" using s by (simp_all add: sync_slots_def)
    let ?n = "if int MAX_PIDS < top_n (g_cfg d) then int MAX_PIDS else top_n (g_cfg d)"
    let ?top = "proc_scanner_top_n (sys_qsort os) sc ?n (min_uid (g_cfg d))"
    have "wanted os ?d = set ?top" using False by (simp add: wanted_def)
    then have "set (slot_pids d') \<subseteq> set ?top" using sync_top_tracks(2) [OF ok' top(2,1)] by blast
    moreover have "distinct (slot_pids d')" using tr by (simp add: tracks_def table_ok_def)
    ultimately have "length (slot_pids d') \<le> length ?top" by (rule distinct_length_le [rotated])
    moreover have "length ?top \<le> nat ?n" by (simp add: proc_scanner_top_n_def)
    ultimately have "g_n_active d' \<le> nat ?n" by simp
    then show ?thesis using False cfg by (auto simp: in_budget_def split: if_splits)
  qed
qed

lemma in_budget_slow_loop:
  assumes "daemon_ok d0" "in_budget d0" and run: "slow_loop os dt now limit 0 shown d0 w0 = Some (d', w')"
  shows "in_budget d'"
  using assms(1) assms(2) _ _ _ _ _ run
proof (rule slow_loop_keeps [where Q = "\<lambda>d w. in_budget d"])
  show "in_budget (fst (remove_slot os i d w))" if "daemon_ok d" "in_budget d" "i < g_n_active d" for i d and w :: 'a
    using that by (simp add: in_budget_remove daemon_okD)
  show "in_budget d'" if "daemon_ok d" "in_budget d" "i < g_n_active d" "sample_slot os i dt hw d w = (b, d', w')"
    for i hw d and w :: 'a and b d' w'
    using that sample_touches(1) daemon_okD(2) in_budget_touches by metis
qed (auto intro: in_budget_touches publish_row(1) show_row(1))

lemma in_budget_tick:
  assumes ok: "daemon_ok d" and b: "in_budget d" and run: "tick os ls d w = Some (ls', dl, d', w')"
  shows "in_budget d'"
proof (rule tick_phases [OF ok run])
  fix t w1 d1
  assume d1: "daemon_ok d1" and f: "fast_path (now_ns_of t) d1 = Some d'"
    and mid: "d1 = d \<and> w' = w1 \<or> (\<exists>dt ds ws. sync_pids os d w1 = Some (ds, ws) \<and> daemon_ok ds \<and>
       slow_loop os dt (now_ns_of t) (display_limit ds) 0 0 ds ws = Some (d1, w'))"
  from mid have b1: "in_budget d1"
  proof (elim disjE exE conjE)
    fix dt ds ws
    assume "sync_pids os d w1 = Some (ds, ws)" "daemon_ok ds"
      "slow_loop os dt (now_ns_of t) (display_limit ds) 0 0 ds ws = Some (d1, w')"
    then show "in_budget d1" using in_budget_sync [OF daemon_okD(1) [OF ok] b] in_budget_slow_loop by metis
  qed (use b in simp)
  from fast_path_result [OF d1, of "now_ns_of t"] f
  have c: "g_cfg d' = g_cfg d1" and r: "rows d' = map (stamped (now_ns_of t)) (rows d1)" by auto
  have "slot_pids d' = slot_pids d1" by (simp add: r stamped_def)
  moreover have "g_n_active d' = g_n_active d1" using arg_cong [OF r, of length] by simp
  ultimately show "in_budget d'" using in_budget_pids [OF b1 c] by simp
qed

end
