(* ===== verification/Daemon.thy ===== *)
theory Daemon
  imports Ownership
begin

text \<open>
  The life of the process (\<^verbatim>\<open>src/schedmon.c\<close>: \<open>raise_fd_limit\<close>, \<open>init_ebpf\<close>, \<open>init_shm\<close>,
  \<open>check_proc_io_access\<close>, \<open>handle_signal\<close>, \<open>run_sampling_loop\<close>, \<open>cleanup\<close>, \<open>main\<close>). The loop has no bound
  of its own, so it takes fuel and its result tells running out of it apart from undefined
  behaviour; it is shown to return with enough fuel once a signal is delivered. A failing
  startup step is \<open>Inl\<close> of the exit status.

  Any host is instrumented twice (\<open>host_ledgers\<close>): with the multiset of descriptors its own calls have
  open, and with the multiset of handles libbpf holds for the tracer. Both are followed from
  the start of \<open>main\<close> to its end.
\<close>

subsection \<open>The process around the loop\<close>

text \<open>
  The calls only \<open>main\<close> and the loop make. \<open>h_fopen\<close> gives the descriptor behind the stream,
  negative for a null pointer. \<open>h_signal\<close> tells whether a \<open>SIGTERM\<close> or \<open>SIGINT\<close> was delivered since
  the last time the program looked at \<open>g_running\<close>: between two looks the handler's effect
  cannot be told from its effect at the second.
\<close>

record 'w host =
  h_sys :: "'w sys"
  h_nprocs :: "'w \<Rightarrow> int \<times> 'w"
  h_getrlimit :: "'w \<Rightarrow> (u64 \<times> u64) option \<times> 'w"
  h_setrlimit :: "u64 \<Rightarrow> u64 \<Rightarrow> 'w \<Rightarrow> int \<times> 'w"
  h_fopen :: "string \<Rightarrow> 'w \<Rightarrow> int \<times> 'w"
  h_fclose :: "int \<Rightarrow> 'w \<Rightarrow> 'w"
  h_sleep :: "timespec \<Rightarrow> 'w \<Rightarrow> int \<times> 'w"
  h_signal :: "'w \<Rightarrow> bool \<times> 'w"

text \<open>A run ends with a value, meets undefined behaviour, or is still going when the fuel is used up.\<close>

datatype 'a outcome = Done 'a | Undefined | Out_of_fuel

text \<open>The handler stores 0 in \<open>g_running\<close>, whatever it held.\<close>

definition handle_signal :: "int \<Rightarrow> int" where
  "handle_signal g_running = 0"

definition look_running :: "'w host \<Rightarrow> int \<Rightarrow> 'w \<Rightarrow> int \<times> 'w" where
  "look_running h g_running w =
    (let (s, w1) = h_signal h w in (if s then handle_signal g_running else g_running, w1))"

abbreviation EINTR :: int where "EINTR \<equiv> 4"

subsection \<open>The sampling loop\<close>

fun sampling_loop :: "'w host \<Rightarrow> nat \<Rightarrow> loop_state \<Rightarrow> int \<Rightarrow> daemon \<Rightarrow> 'w \<Rightarrow> (daemon \<times> 'w) outcome" where
  "sampling_loop h 0 ls run d w = Out_of_fuel"
| "sampling_loop h (Suc fuel) ls run d w =
    (let (run1, w1) = look_running h run w in
     if run1 = 0 then Done (d, w1) else
     case tick (h_sys h) ls d w1 of None \<Rightarrow> Undefined
     | Some (ls', deadline, d', w2) \<Rightarrow>
         (let (ret, w3) = h_sleep h deadline w2 in
          if ret = EINTR then
            (let (run2, w4) = look_running h run1 w3 in
             if run2 = 0 then Done (d', w4) else sampling_loop h fuel ls' run2 d' w4)
          else sampling_loop h fuel ls' run1 d' w3))"

definition run_sampling_loop :: "'w host \<Rightarrow> nat \<Rightarrow> int \<Rightarrow> daemon \<Rightarrow> 'w \<Rightarrow> (daemon \<times> 'w) outcome" where
  "run_sampling_loop h fuel run d w =
    (let (t, w1) = sys_clock (h_sys h) w
     in sampling_loop h fuel \<lparr>sample_num = 0, first_slow = True, last_slow = t\<rparr> run d w1)"

subsection \<open>Startup\<close>

text \<open>The descriptor limit: the estimate, and the soft limit asked for when it is too low.\<close>

definition fd_estimate :: "DaemonConfig \<Rightarrow> int" where
  "fd_estimate c = (max_tracked c * (3 + 1) + 64) * 2"

abbreviation RLIM_INFINITY :: u64 where "RLIM_INFINITY \<equiv> - 1"

definition fd_target :: "u64 \<Rightarrow> u64 \<Rightarrow> u64 \<Rightarrow> u64 option" where
  "fd_target estimated soft hard =
    (if estimated \<le> soft then None else Some (if hard = RLIM_INFINITY then estimated else hard))"

definition raise_fd_limit :: "'w host \<Rightarrow> DaemonConfig \<Rightarrow> 'w \<Rightarrow> 'w" where
  "raise_fd_limit h c w =
    (let (rl, w1) = h_getrlimit h w in
     case rl of None \<Rightarrow> w1
     | Some (soft, hard) \<Rightarrow>
         (case fd_target (word_of_int (fd_estimate c)) soft hard of None \<Rightarrow> w1
          | Some target \<Rightarrow> snd (h_setrlimit h target hard w1)))"

text \<open>A failing step ends the process: \<open>Inl\<close> the exit status and the world it leaves.\<close>

definition init_ebpf :: "'w sys \<Rightarrow> string \<Rightarrow> daemon \<Rightarrow> 'w \<Rightarrow> (int \<times> 'w) + (daemon \<times> 'w)" where
  "init_ebpf os bpf_path d w =
    (let (r, et, w1) = ebpf_tracer_load (sys_bpf os) bpf_path w in
     if r \<noteq> 0 then Inl (1, w1) else
     let (a, et1, w2) = ebpf_tracer_attach (sys_bpf os) et w1 in
     if a \<noteq> 0 then (let (et2, w3) = ebpf_tracer_destroy (sys_bpf os) et1 w2 in Inl (1, w3))
     else Inr (d\<lparr>g_tracer := et1\<rparr>, w2))"

definition init_shm :: "'w sys \<Rightarrow> daemon \<Rightarrow> 'w \<Rightarrow> (int \<times> 'w) + (daemon \<times> 'w)" where
  "init_shm os d w =
    (let (rb, w1) = rb_create (sys_shm os) w in
     if rb = None then Inl (1, w1) else
     let (dash, w2) = rb_create_dash (sys_shm os) w1 in
     if dash = None then Inl (1, w2) else Inr (d\<lparr>g_rb := rb, g_rb_dash := dash\<rparr>, w2))"

text \<open>The user id on the first \<open>Uid:\<close> line of a status file, read in pieces of 127 characters; 0 if there is none.\<close>

function probe_uid :: "string \<Rightarrow> int" where
  "probe_uid s =
    (case fgets 128 s of None \<Rightarrow> 0
     | Some (line, rest) \<Rightarrow> if starts_with ''Uid:'' line then atoi (drop 4 (c_str line)) else probe_uid rest)"
  by pat_completeness auto
termination
  by (relation "measure length") (auto dest: fgets_pieces(2))

declare probe_uid.simps [simp del]

text \<open>The first listed process of an ordinary user, -1 if there is none.\<close>

fun find_user_pid :: "'w proc_os \<Rightarrow> int list \<Rightarrow> 'w \<Rightarrow> int \<times> 'w" where
  "find_user_pid os [] w = (-1, w)"
| "find_user_pid os (pid # pids) w =
    (if pid \<le> 1 then find_user_pid os pids w else
     let (f, w1) = pr_fopen os (proc_path pid ''status'') w in
     case f of None \<Rightarrow> find_user_pid os pids w1
     | Some (fd, s) \<Rightarrow> (let uid = probe_uid s; w2 = pr_fclose os fd w1
         in if 0 < uid then (pid, w2) else find_user_pid os pids w2))"

text \<open>Opening and closing a file, to see whether it can be read.\<close>

definition probe_file :: "'w proc_os \<Rightarrow> string \<Rightarrow> 'w \<Rightarrow> bool \<times> 'w" where
  "probe_file os path w = (let (fd, w1) = pr_open os path w in if fd < 0 then (False, w1) else (True, pr_close os fd w1))"

text \<open>Whether I/O rates can be measured; the answer is only logged.\<close>

definition check_proc_io_access :: "'w proc_os \<Rightarrow> 'w \<Rightarrow> bool \<times> 'w" where
  "check_proc_io_access os w =
    (let (self, w1) = probe_file os ''/proc/self/io'' w in
     if \<not> self then (False, w1) else
     let (init, w2) = probe_file os ''/proc/1/io'' w1 in
     if \<not> init then (False, w2) else
     let (dir, w3) = pr_opendir os w2;
         (pid, w4) = (case dir of None \<Rightarrow> (-1, w3)
           | Some (dd, names) \<Rightarrow> (let (p, w5) = find_user_pid os (dir_pids names) w3 in (p, pr_closedir os dd w5)))
     in if 0 < pid then probe_file os (proc_path pid ''io'') w4 else (True, w4))"

text \<open>The CSV file: the descriptor behind it, if it is asked for.\<close>

definition open_csv :: "'w host \<Rightarrow> daemon \<Rightarrow> 'w \<Rightarrow> (int \<times> 'w) + (int option \<times> daemon \<times> 'w)" where
  "open_csv h d w =
    (case csv_path (g_cfg d) of None \<Rightarrow> Inr (None, d, w)
     | Some path \<Rightarrow> (let (fd, w1) = h_fopen h path w in
         if fd < 0 then Inl (1, w1) else Inr (Some fd, d\<lparr>g_csv := Some []\<rparr>, w1)))"

subsection \<open>Shutdown\<close>

definition cleanup_slot :: "'w sys \<Rightarrow> nat \<Rightarrow> daemon \<Rightarrow> 'w \<Rightarrow> daemon \<times> 'w" where
  "cleanup_slot os i d w =
    (let st = g_states d ! i;
         (st', w1) = (if 0 \<le> io_fd st then (st\<lparr>io_fd := -1\<rparr>, pr_close (sys_proc os) (io_fd st) w) else (st, w));
         (pc', w2) = perf_counter_close (sys_perf os) (g_perf d ! i) w1
     in (d\<lparr>g_states := (g_states d)[i := st'], g_perf := (g_perf d)[i := pc']\<rparr>, w2))"

fun cleanup_slots :: "'w sys \<Rightarrow> nat list \<Rightarrow> daemon \<Rightarrow> 'w \<Rightarrow> daemon \<times> 'w" where
  "cleanup_slots os [] d w = (d, w)"
| "cleanup_slots os (i # is) d w = (let (d1, w1) = cleanup_slot os i d w in cleanup_slots os is d1 w1)"

definition cleanup :: "'w host \<Rightarrow> int option \<Rightarrow> daemon \<Rightarrow> 'w \<Rightarrow> daemon \<times> 'w" where
  "cleanup h csv d w =
    (let os = h_sys h;
         (d1, w1) = cleanup_slots os [0..<g_n_active d] d w;
         (et, w2) = ebpf_tracer_destroy (sys_bpf os) (g_tracer d1) w1;
         w3 = (if g_rb d1 \<noteq> None then rb_destroy (sys_shm os) w2 else w2);
         w4 = (if g_rb_dash d1 \<noteq> None then rb_destroy_dash (sys_shm os) w3 else w3);
         w5 = (case csv of None \<Rightarrow> w4 | Some fd \<Rightarrow> h_fclose h fd w4)
     in (d1\<lparr>g_tracer := et\<rparr>, w5))"

subsection \<open>The program\<close>

text \<open>The globals and the world when \<open>init_ebpf\<close> is called.\<close>

definition prepare :: "'w host \<Rightarrow> string list \<Rightarrow> 'w \<Rightarrow> daemon \<times> 'w" where
  "prepare h argv w =
    (let cfg = (parse_args (drop 2 argv))\<lparr>running := True\<rparr>;
         (ncores, w1) = h_nprocs h w;
         w2 = raise_fd_limit h cfg w1
     in ((globals_zero cfg)\<lparr>g_scanner := proc_scanner_init\<rparr>, w2))"

text \<open>Everything up to the loop.\<close>

definition startup :: "'w host \<Rightarrow> string list \<Rightarrow> 'w \<Rightarrow> (int \<times> 'w) + (int option \<times> daemon \<times> 'w)" where
  "startup h argv w =
    (if length argv < 2 then Inl (1, w) else
     let (d, w2) = prepare h argv w
     in case init_ebpf (h_sys h) (argv ! 1) d w2 of Inl e \<Rightarrow> Inl e
        | Inr (d1, w3) \<Rightarrow>
            (case init_shm (h_sys h) d1 w3 of Inl e \<Rightarrow> Inl e
             | Inr (d2, w4) \<Rightarrow>
                 (let (io_ok, w5) = check_proc_io_access (sys_proc (h_sys h)) w4 in open_csv h d2 w5)))"

text \<open>The exit status and the world the process leaves.\<close>

definition main :: "'w host \<Rightarrow> nat \<Rightarrow> string list \<Rightarrow> 'w \<Rightarrow> (int \<times> 'w) outcome" where
  "main h fuel argv w =
    (case startup h argv w of Inl e \<Rightarrow> Done e
     | Inr (csv, d, w1) \<Rightarrow>
         (case run_sampling_loop h fuel 1 d w1 of Undefined \<Rightarrow> Undefined | Out_of_fuel \<Rightarrow> Out_of_fuel
          | Done (d', w2) \<Rightarrow> Done (0, snd (cleanup h csv d' w2))))"

subsection \<open>Startup leaves the daemon in order\<close>

lemma daemon_ok_fields [simp]:
  "daemon_ok (d\<lparr>g_tracer := et\<rparr>) = daemon_ok d" "daemon_ok (d\<lparr>g_csv := csv\<rparr>) = daemon_ok d"
  "rows (d\<lparr>g_tracer := et\<rparr>) = rows d" "rows (d\<lparr>g_csv := csv\<rparr>) = rows d"
  "rows (d\<lparr>g_rb := a, g_rb_dash := b\<rparr>) = rows d"
proof -
  show r: "rows (d\<lparr>g_tracer := et\<rparr>) = rows d" "rows (d\<lparr>g_csv := csv\<rparr>) = rows d"
    "rows (d\<lparr>g_rb := a, g_rb_dash := b\<rparr>) = rows d"
    by (rule rows_eqI; simp add: row_def)+
  show "daemon_ok (d\<lparr>g_tracer := et\<rparr>) = daemon_ok d" "daemon_ok (d\<lparr>g_csv := csv\<rparr>) = daemon_ok d"
    by (simp_all add: daemon_ok_def table_ok_def r) (simp_all add: arrays_ok_def)
qed

lemma daemon_ok_rings:
  assumes "daemon_ok d" "ring_ok a" "ring_ok b"
  shows "daemon_ok (d\<lparr>g_rb := a, g_rb_dash := b\<rparr>)"
  using assms by (simp add: daemon_ok_def table_ok_def) (simp add: arrays_ok_def)

lemma create_ring_ok: "rb_create_named os name w = (r, w') \<Longrightarrow> ring_ok r"
  by (auto simp: rb_create_named_def ring_ok_def rb_ok_init Let_def split: prod.splits if_splits option.splits)

lemma startup_ok:
  assumes "startup h argv w = Inr (csv, d, w')"
  shows "daemon_ok d" and "g_n_active d = 0" and "g_cfg d = (parse_args (drop 2 argv))\<lparr>running := True\<rparr>"
proof -
  let ?d = "(globals_zero ((parse_args (drop 2 argv))\<lparr>running := True\<rparr>))\<lparr>g_scanner := proc_scanner_init\<rparr>"
  let ?P = "\<lambda>d. daemon_ok d \<and> g_n_active d = 0 \<and> g_cfg d = g_cfg ?d"
  have "?d = globals_zero ((parse_args (drop 2 argv))\<lparr>running := True\<rparr>)" by (simp add: globals_zero_def Let_def)
  moreover have "g_n_active (globals_zero c) = 0" for c by (simp add: globals_zero_def Let_def)
  ultimately have z: "?P ?d" using daemon_ok_zero by simp
  obtain w1 w2 w3 w4 w5 d1 d2 where e: "init_ebpf (h_sys h) (argv ! 1) ?d w1 = Inr (d1, w2)"
    and r: "init_shm (h_sys h) d1 w2 = Inr (d2, w3)" and c: "open_csv h d2 w4 = Inr (csv, d, w')"
    using assms by (auto simp: startup_def prepare_def Let_def split: if_splits sum.splits prod.splits)
  have "?P d1" using e z by (auto simp: init_ebpf_def Let_def split: prod.splits if_splits)
  then have "?P d2" using r
    by (auto simp: init_shm_def rb_create_def rb_create_dash_def Let_def split: prod.splits if_splits
        intro: daemon_ok_rings dest: create_ring_ok)
  then have "?P d" using c by (auto simp: open_csv_def Let_def split: option.splits prod.splits if_splits)
  then show "daemon_ok d" "g_n_active d = 0" "g_cfg d = (parse_args (drop 2 argv))\<lparr>running := True\<rparr>"
    by (simp_all add: globals_zero_def Let_def)
qed

subsection \<open>The descriptors of the whole process\<close>

definition host_tracked :: "'w host \<Rightarrow> ('w \<times> int multiset) host" where
  "host_tracked h =
    \<lparr>h_sys = sys_tracked (h_sys h), h_nprocs = along (h_nprocs h), h_getrlimit = along (h_getrlimit h),
     h_setrlimit = (\<lambda>s m. along (h_setrlimit h s m)),
     h_fopen = (\<lambda>p (w, F). let (fd, w') = h_fopen h p w in (fd, (w', if 0 \<le> fd then add_mset fd F else F))),
     h_fclose = (\<lambda>fd (w, F). (h_fclose h fd w, F - {#fd#})),
     h_sleep = (\<lambda>t. along (h_sleep h t)), h_signal = along (h_signal h)\<rparr>"

text \<open>The same for the handles of libbpf; both together instrument one host twice.\<close>

definition host_handles :: "'w host \<Rightarrow> ('w \<times> handle multiset) host" where
  "host_handles h =
    \<lparr>h_sys = sys_handles (h_sys h), h_nprocs = along (h_nprocs h), h_getrlimit = along (h_getrlimit h),
     h_setrlimit = (\<lambda>s m. along (h_setrlimit h s m)), h_fopen = (\<lambda>p. along (h_fopen h p)),
     h_fclose = (\<lambda>fd. along_eff (h_fclose h fd)), h_sleep = (\<lambda>t. along (h_sleep h t)),
     h_signal = along (h_signal h)\<rparr>"

abbreviation host_ledgers :: "'w host \<Rightarrow> (('w \<times> handle multiset) \<times> int multiset) host" where
  "host_ledgers h \<equiv> host_tracked (host_handles h)"

abbreviation held :: "('w \<times> handle multiset) \<times> 'r \<Rightarrow> handle multiset" where "held w \<equiv> snd (fst w)"

lemma host_sys [simp]: "h_sys (host_tracked h) = sys_tracked (h_sys h)" "h_sys (host_handles h) = sys_handles (h_sys h)"
  by (simp_all add: host_tracked_def host_handles_def)

lemma led_host [simp]:
  "led (snd (h_nprocs (host_tracked h) w)) = led w" "led (snd (h_getrlimit (host_tracked h) w)) = led w"
  "led (snd (h_setrlimit (host_tracked h) s m w)) = led w" "led (snd (h_sleep (host_tracked h) t w)) = led w"
  "led (snd (h_signal (host_tracked h) w)) = led w" "led (h_fclose (host_tracked h) fd w) = led w - {#fd#}"
  "led (snd (h_fopen (host_tracked h) p w)) =
     led w + (if 0 \<le> fst (h_fopen (host_tracked h) p w) then {#fst (h_fopen (host_tracked h) p w)#} else {#})"
  by (cases w; simp add: host_tracked_def split: prod.split)+

lemma led_look [simp]: "led (snd (look_running (host_tracked h) run w)) = led w"
  by (simp add: look_running_def case_prod_beta)

lemma led_rlimit [simp]: "led (raise_fd_limit (host_tracked h) c w) = led w"
  by (simp add: raise_fd_limit_def case_prod_beta split: option.split)

lemma led_load [simp]: "led (snd (snd (ebpf_tracer_load (bpf_lifted os) p w))) = led w"
  by (simp add: ebpf_tracer_load_def Let_def case_prod_beta split: option.split)

lemma led_attach_prog [simp]: "led (snd (attach_prog (bpf_lifted os) ob n w)) = led w"
  by (simp add: attach_prog_def split: option.split)

lemma led_attach [simp]: "led (snd (snd (ebpf_tracer_attach (bpf_lifted os) et w))) = led w"
  by (simp add: ebpf_tracer_attach_def Let_def case_prod_beta split: option.split)

lemma led_destroy_link [simp]: "led (destroy_link (bpf_lifted os) l w) = led w"
  by (simp add: destroy_link_def split: option.split)

lemma led_destroy [simp]: "led (snd (ebpf_tracer_destroy (bpf_lifted os) et w)) = led w"
  by (simp add: ebpf_tracer_destroy_def Let_def split: option.split)

lemma led_shm [simp]:
  "led (snd (rb_create (shm_tracked os) w)) = led w" "led (snd (rb_create_dash (shm_tracked os) w)) = led w"
  "led (rb_destroy (shm_tracked os) w) = led w" "led (rb_destroy_dash (shm_tracked os) w) = led w"
proof -
  have "led (snd (rb_create_named (shm_tracked os) n w)) = led w" for n
    using create_tracked [of os n "fst w" "snd w"] by (metis prod.collapse)
  then show "led (snd (rb_create (shm_tracked os) w)) = led w" "led (snd (rb_create_dash (shm_tracked os) w)) = led w"
    by (simp_all add: rb_create_def rb_create_dash_def)
  show "led (rb_destroy (shm_tracked os) w) = led w" "led (rb_destroy_dash (shm_tracked os) w) = led w"
    by (cases w; simp add: rb_destroy_def rb_destroy_dash_def rb_destroy_named_def shm_tracked_def)+
qed

lemma led_probe [simp]: "led (snd (probe_file (proc_tracked os) p w)) = led w"
  by (simp add: probe_file_def Let_def case_prod_beta)

lemma led_find_user [simp]: "led (snd (find_user_pid (proc_tracked os) pids w)) = led w"
  by (induction pids arbitrary: w) (simp_all add: Let_def case_prod_beta split: option.split)

lemma led_check [simp]: "led (snd (check_proc_io_access (proc_tracked os) w)) = led w"
  by (simp add: check_proc_io_access_def Let_def case_prod_beta split: option.split)

lemma led_init_ebpf:
  "case init_ebpf (sys_tracked os) p d w of Inl (c, w') \<Rightarrow> led w' = led w | Inr (d', w') \<Rightarrow> led w' = led w"
  by (simp add: init_ebpf_def Let_def case_prod_beta)

lemma led_init_shm:
  "case init_shm (sys_tracked os) d w of Inl (c, w') \<Rightarrow> led w' = led w | Inr (d', w') \<Rightarrow> led w' = led w"
  by (simp add: init_shm_def Let_def case_prod_beta)

text \<open>The descriptor of the CSV file, if there is one.\<close>

definition csv_fds :: "int option \<Rightarrow> int multiset" where
  "csv_fds csv = (case csv of None \<Rightarrow> {#} | Some fd \<Rightarrow> {#fd#})"

lemma led_open_csv:
  "case open_csv (host_tracked h) d w of Inl (c, w') \<Rightarrow> led w' = led w
   | Inr (csv, d', w') \<Rightarrow> led w' = led w + csv_fds csv"
  by (simp add: open_csv_def csv_fds_def Let_def case_prod_beta split: option.split)

lemma led_startup:
  "case startup (host_tracked h) argv w of Inl (c, w') \<Rightarrow> led w' = led w
   | Inr (csv, d, w') \<Rightarrow> led w' = led w + csv_fds csv"
proof (cases "length argv < 2")
  case True
  then show ?thesis by (simp add: startup_def)
next
  case False
  let ?cfg = "(parse_args (drop 2 argv))\<lparr>running := True\<rparr>"
  let ?d = "(globals_zero ?cfg)\<lparr>g_scanner := proc_scanner_init\<rparr>"
  let ?w2 = "raise_fd_limit (host_tracked h) ?cfg (snd (h_nprocs (host_tracked h) w))"
  note e = led_init_ebpf [where os = "h_sys h" and p = "argv ! 1" and d = ?d and w = ?w2]
  have w2: "led ?w2 = led w" by simp
  show ?thesis
  proof (cases "init_ebpf (sys_tracked (h_sys h)) (argv ! 1) ?d ?w2")
    case (Inl a)
    then show ?thesis using False e w2 by (simp add: startup_def prepare_def Let_def case_prod_beta)
  next
    case (Inr b)
    obtain d1 w3 where b: "b = (d1, w3)" by (metis prod.exhaust)
    have w3: "led w3 = led w" using e w2 unfolding Inr b by simp
    show ?thesis
    proof (cases "init_shm (sys_tracked (h_sys h)) d1 w3")
      case l: (Inl a)
      then show ?thesis using False Inr b w3 led_init_shm [where os = "h_sys h" and d = d1 and w = w3] by (simp add: startup_def prepare_def Let_def case_prod_beta)
    next
      case r: (Inr b')
      obtain d2 w4 where b': "b' = (d2, w4)" by (metis prod.exhaust)
      have w4: "led w4 = led w" using led_init_shm [where os = "h_sys h" and d = d1 and w = w3] w3 by (simp add: r b')
      then show ?thesis
        using False Inr b r b' led_open_csv [where h = h and d = d2 and w = "snd (check_proc_io_access (proc_tracked (sys_proc (h_sys h))) w4)", unfolded led_check w4]
        by (simp add: startup_def prepare_def Let_def case_prod_beta)
    qed
  qed
qed

lemma loop_ledger:
  "daemon_ok d \<Longrightarrow> ledger B d w \<Longrightarrow> sampling_loop (host_tracked h) fuel ls run d w = Done (d', w') \<Longrightarrow>
   daemon_ok d' \<and> ledger B d' w'"
proof (induction fuel arbitrary: ls run d w)
  case (Suc fuel)
  obtain run1 w1 where k: "look_running (host_tracked h) run w = (run1, w1)" by (metis prod.exhaust)
  have l1: "ledger B d w1" by (rule ledger_led [OF Suc.prems(2)]) (use led_look [of h run w] k in simp)
  show ?case
  proof (cases "run1 = 0")
    case True
    then show ?thesis using Suc.prems k l1 by simp
  next
    case False
    obtain ls' dl d1 w2 where t: "tick (sys_tracked (h_sys h)) ls d w1 = Some (ls', dl, d1, w2)"
      using Suc.prems(3) k False by (auto split: option.splits)
    have ok1: "daemon_ok d1" by (rule tick_phases [OF Suc.prems(1) t])
    obtain ret w3 where s: "h_sleep (host_tracked h) dl w2 = (ret, w3)" by (metis prod.exhaust)
    obtain run2 w4 where k2: "look_running (host_tracked h) run1 w3 = (run2, w4)" by (metis prod.exhaust)
    have l3: "ledger B d1 w3"
      by (rule ledger_led [OF ledger_tick [OF Suc.prems(1) l1 t]]) (use led_host(4) [of h dl w2] s in simp)
    have l4: "ledger B d1 w4" by (rule ledger_led [OF l3]) (use led_look [of h run1 w3] k2 in simp)
    show ?thesis
      using Suc.prems(3) k False t s k2 Suc.IH [OF ok1 l3] Suc.IH [OF ok1 l4] ok1 l4
      by (auto split: if_splits)
  qed
qed simp

text \<open>The cleanup loop closes slot after slot.\<close>

lemma cleanup_slot_ledger:
  assumes a: "arrays_ok d" and i: "i < g_n_active d" and run: "cleanup_slot (sys_tracked os) i d w = (d', w')"
  shows "arrays_ok d'" and "g_n_active d' = g_n_active d" and "led w' = led w - slot_fds (row d i)"
    and "j \<noteq> i \<Longrightarrow> row d' j = row d j"
proof -
  let ?r = "cleanup_slot (sys_tracked os) i d w"
  have r: "d' = fst ?r" "w' = snd ?r" using run by simp_all
  show "arrays_ok d'" "g_n_active d' = g_n_active d" "j \<noteq> i \<Longrightarrow> row d' j = row d j"
    using a by (simp_all add: r cleanup_slot_def Let_def case_prod_beta arrays_ok_def row_def)
  show "led w' = led w - slot_fds (row d i)"
    by (simp add: r cleanup_slot_def Let_def case_prod_beta slot_fds_def row_def)
qed

lemma cleanup_slots_ledger:
  "arrays_ok d \<Longrightarrow> set is \<subseteq> {..<g_n_active d} \<Longrightarrow> distinct is \<Longrightarrow> cleanup_slots (sys_tracked os) is d w = (d', w') \<Longrightarrow>
   led w' = led w - sum_list (map (\<lambda>i. slot_fds (row d i)) is)"
proof (induction "is" arbitrary: d w)
  case (Cons i "is")
  obtain d1 w1 where c: "cleanup_slot (sys_tracked os) i d w = (d1, w1)" by (metis prod.exhaust)
  have i: "i < g_n_active d" using Cons.prems(2) by simp
  note s = cleanup_slot_ledger [OF Cons.prems(1) i c]
  have "(\<Sum>i\<leftarrow>is. slot_fds (row d1 i)) = (\<Sum>i\<leftarrow>is. slot_fds (row d i))"
    using s(4) Cons.prems(3) by (intro arg_cong [of _ _ sum_list] map_cong refl) (metis distinct.simps(2))
  then show ?case using Cons.IH [of d1 w1] Cons.prems s(1-3) c by (simp add: diff_diff_add)
qed simp

lemma cleanup_ledger:
  assumes l: "ledger (F + csv_fds csv) d w"
  shows "led (snd (cleanup (host_tracked h) csv d w)) = F"
proof -
  let ?c = "cleanup_slots (sys_tracked (h_sys h)) [0..<g_n_active d] d w"
  have "led (snd ?c) = led w - table_fds d"
    using cleanup_slots_ledger [of d "[0..<g_n_active d]" "h_sys h" w "fst ?c" "snd ?c"] l
    by (simp add: ledger_def table_fds_def rows_def comp_def atLeast0LessThan)
  then have "led (snd ?c) = F + csv_fds csv" using l by (simp add: ledger_def owns_def)
  then show ?thesis by (simp add: cleanup_def Let_def case_prod_beta csv_fds_def split: option.splits)
qed

lemma main_ledger:
  assumes "main (host_tracked h) fuel argv w = Done (c, w')"
  shows "led w' = led w"
proof (cases "startup (host_tracked h) argv w")
  case (Inl e)
  then show ?thesis using assms led_startup [where h = h and argv = argv and w = w] by (cases e) (simp add: main_def)
next
  case (Inr r)
  obtain csv d w1 where r: "r = (csv, d, w1)" by (metis prod_cases3)
  note ok = startup_ok [OF Inr [unfolded r]]
  have l1: "led w1 = led w + csv_fds csv" using led_startup [where h = h and argv = argv and w = w] unfolding Inr r by simp
  obtain t w2 where t: "sys_clock (sys_tracked (h_sys h)) w1 = (t, w2)" by (metis prod.exhaust)
  have l2: "led w2 = led w1" using led_clock [of "h_sys h" w1] t by simp
  have "rows d = []" using ok(2) by (simp add: rows_def)
  then have l: "ledger (led w + csv_fds csv) d w2"
    using l1 l2 daemon_okD(2) [OF ok(1)] by (simp add: ledger_def owns_def table_fds_def)
  obtain d' w3 where lp: "run_sampling_loop (host_tracked h) fuel 1 d w1 = Done (d', w3)"
    and w': "w' = snd (cleanup (host_tracked h) csv d' w3)"
    using assms by (auto simp: main_def Inr r split: outcome.splits)
  have "ledger (led w + csv_fds csv) d' w3"
    using loop_ledger [OF ok(1) l] lp t by (simp add: run_sampling_loop_def)
  then show ?thesis unfolding w' by (rule cleanup_ledger)
qed

subsection \<open>The loop ends once a signal is delivered\<close>

text \<open>
  No system call of a tick changes the observation \<open>f\<close> of the world. With \<open>f\<close> the number of sleeps
  until the next signal it says that only sleeping brings the signal nearer.
\<close>

definition silent :: "('w \<Rightarrow> 'b) \<Rightarrow> 'w sys \<Rightarrow> bool" where
  "silent f os \<longleftrightarrow>
     (\<forall>a p c g w. f (snd (po_open (sys_perf os) a p c g w)) = f w) \<and>
     (\<forall>fd r g w. f (po_ioctl (sys_perf os) fd r g w) = f w) \<and>
     (\<forall>fd w. f (snd (po_ioctl_id (sys_perf os) fd w)) = f w \<and> f (snd (po_read_u64 (sys_perf os) fd w)) = f w \<and>
       f (snd (po_read_group (sys_perf os) fd w)) = f w \<and> f (po_close (sys_perf os) fd w) = f w) \<and>
     (\<forall>fd k v u g w. f (bo_update_u64 (sys_bpf os) fd k v g w) = f w \<and>
       f (bo_update_u32 (sys_bpf os) fd k u g w) = f w \<and> f (bo_delete (sys_bpf os) fd k w) = f w) \<and>
     (\<forall>p fd n w. f (snd (pr_open (sys_proc os) p w)) = f w \<and> f (snd (pr_lseek (sys_proc os) fd w)) = f w \<and>
       f (snd (pr_read (sys_proc os) fd n w)) = f w \<and> f (pr_close (sys_proc os) fd w) = f w \<and>
       f (snd (pr_fopen (sys_proc os) p w)) = f w \<and> f (pr_fclose (sys_proc os) fd w) = f w \<and>
       f (snd (pr_opendir (sys_proc os) w)) = f w \<and> f (pr_closedir (sys_proc os) fd w) = f w \<and>
       f (snd (pr_gone (sys_proc os) fd w)) = f w) \<and>
     (\<forall>w. f (snd (sys_clock os w)) = f w)"

lemma silent_calls:
  assumes "silent f os"
  shows "f (snd (po_open (sys_perf os) a p c g w)) = f w" "f (po_ioctl (sys_perf os) fd r b w) = f w"
    "f (snd (po_ioctl_id (sys_perf os) fd w)) = f w" "f (snd (po_read_u64 (sys_perf os) fd w)) = f w"
    "f (snd (po_read_group (sys_perf os) fd w)) = f w" "f (po_close (sys_perf os) fd w) = f w"
    "f (bo_update_u64 (sys_bpf os) fd k v e w) = f w" "f (bo_update_u32 (sys_bpf os) fd k u e w) = f w"
    "f (bo_delete (sys_bpf os) fd k w) = f w" "f (snd (pr_open (sys_proc os) path w)) = f w"
    "f (snd (pr_lseek (sys_proc os) fd w)) = f w" "f (snd (pr_read (sys_proc os) fd n w)) = f w"
    "f (pr_close (sys_proc os) fd w) = f w" "f (snd (pr_fopen (sys_proc os) path w)) = f w"
    "f (pr_fclose (sys_proc os) fd w) = f w" "f (snd (pr_opendir (sys_proc os) w)) = f w"
    "f (pr_closedir (sys_proc os) fd w) = f w" "f (snd (pr_gone (sys_proc os) pid w)) = f w"
    "f (snd (sys_clock os w)) = f w"
  using assms by (simp_all add: silent_def)

lemma silent_perf:
  assumes s: "silent f os"
  shows "f (snd (snd (perf_counter_read (sys_perf os) pc w))) = f w"
    and "f (snd (perf_counter_close (sys_perf os) pc w)) = f w"
    and "f (snd (snd (perf_counter_open (sys_perf os) pid cpu w))) = f w"
proof -
  note c = silent_calls [OF s]
  show "f (snd (snd (perf_counter_read (sys_perf os) pc w))) = f w"
    by (simp add: perf_counter_read_def Let_def case_prod_beta c split: option.split)
  have cl: "f (snd (perf_counter_close (sys_perf os) pc w)) = f w" for pc w
    by (simp add: perf_counter_close_def Let_def c)
  then show "f (snd (perf_counter_close (sys_perf os) pc w)) = f w" .
  have oc: "f (snd (snd (open_counter (sys_perf os) t k p cp l g w))) = f w" for t k p cp l g w
    by (simp add: open_counter_def Let_def case_prod_beta c)
  have g: "f (snd (snd (perf_open_group (sys_perf os) pc w))) = f w" for pc w
    by (simp add: perf_open_group_def Let_def case_prod_beta c cl oc)
  have fb: "f (snd (snd (perf_open_fallback (sys_perf os) pc w))) = f w" for pc w
    by (simp add: perf_open_fallback_def Let_def case_prod_beta c cl oc)
  show "f (snd (snd (perf_counter_open (sys_perf os) pid cpu w))) = f w"
    by (simp add: perf_counter_open_def Let_def case_prod_beta oc g fb)
qed

lemma silent_tracer:
  assumes s: "silent f os"
  shows "f (ebpf_tracer_register_pid (sys_bpf os) et p w) = f w"
    and "f (ebpf_tracer_unregister_pid (sys_bpf os) et p w) = f w"
    and "f (snd (snd (ebpf_tracer_pop_exec_comm (sys_bpf os) et p b n w))) = f w"
  using silent_calls [OF s]
  by (simp_all add: ebpf_tracer_register_pid_def zero_counter_def ebpf_tracer_unregister_pid_def
      ebpf_tracer_pop_exec_comm_def Let_def split: option.split)

lemma silent_proc:
  assumes s: "silent f os"
  shows "f (snd (snd (read_proc_io_fd (sys_proc os) fd out w))) = f w"
    and "f (snd (snd (open_proc_io_fd (sys_proc os) pid st w))) = f w"
    and "f (snd (read_proc_comm (sys_proc os) pid n w)) = f w"
  using silent_calls [OF s]
  by (simp_all add: read_proc_io_fd_def open_proc_io_fd_def read_proc_comm_def Let_def case_prod_beta split: option.split)

lemmas silents = silent_calls silent_perf silent_tracer silent_proc

lemma silent_add_pid:
  assumes s: "silent f os" shows "f (snd (snd (add_pid os d p w))) = f w"
  by (simp add: add_pid_def seed_counters_def seed_io_def first_comm_def Let_def case_prod_beta silents [OF s])

lemma silent_remove:
  assumes s: "silent f os" shows "f (snd (remove_slot os i d w)) = f w"
  by (simp add: remove_slot_def release_slot_def Let_def case_prod_beta silents [OF s])

lemma silent_prune:
  assumes s: "silent f os" and t: "\<And>st w. f (snd (t st w)) = f w"
  shows "f (snd (prune os t i d w)) = f w"
  by (rule prune_keeps [where Q = "\<lambda>d w'. f w' = f w", OF _ _ refl prod.collapse [symmetric]])
    (simp_all add: t silent_remove [OF s])

lemma silent_add_missing:
  assumes s: "silent f os" shows "f (snd (add_missing os ps d w)) = f w"
  by (induction ps arbitrary: d w) (simp_all add: Let_def case_prod_beta silent_add_pid [OF s] split: option.split)

lemma silent_mark_top:
  assumes s: "silent f os" shows "f (snd (mark_top os ps d w)) = f w"
  by (induction ps arbitrary: d w) (simp_all add: Let_def case_prod_beta silent_add_pid [OF s] split: option.split)

lemma silent_sync_slots:
  assumes s: "silent f os" shows "f (snd (sync_slots os d w)) = f w"
  by (simp add: sync_slots_def sync_explicit_def sync_top_def prune_gone_def prune_inactive_def Let_def case_prod_beta
      silent_prune [OF s] silent_add_missing [OF s] silent_mark_top [OF s] silents [OF s])

lemma silent_reads:
  assumes s: "silent f os"
  shows "f (snd (read_proc_stat (sys_proc os) pid b w)) = f w" and "f (snd (read_proc_uid (sys_proc os) pid w)) = f w"
  using silent_calls [OF s]
  by (simp_all add: read_proc_stat_def read_proc_uid_def Let_def case_prod_beta split: option.split)

lemma silent_scan_one:
  assumes s: "silent f os" shows "scan_one (sys_proc os) pid ps w = Some (ps', w') \<Longrightarrow> f w' = f w"
  by (auto simp: scan_one_def Let_def case_prod_beta silent_reads [OF s] split: if_splits option.splits stat_result.splits)

lemma silent_scan_loop:
  assumes s: "silent f os" shows "scan_pids_loop (sys_proc os) pids ps w = Some (ps', w') \<Longrightarrow> f w' = f w"
  by (induction pids arbitrary: ps w) (auto split: option.splits dest: silent_scan_one [OF s])

lemma silent_sync_pids:
  assumes s: "silent f os" and run: "sync_pids os d w = Some (d', w')"
  shows "f w' = f w"
proof -
  have "scan_processes os d w = Some (sc, w') \<Longrightarrow> f w' = f w" for d w sc w'
    by (auto simp: scan_processes_def proc_scanner_scan_def proc_scanner_scan_pids_def Let_def case_prod_beta silents [OF s]
        split: if_splits option.splits dest: silent_scan_loop [OF s])
  moreover have "sync_slots os d w = (d', w') \<Longrightarrow> f w' = f w" for d w d' w' using silent_sync_slots [OF s] by (metis snd_conv)
  ultimately show ?thesis using run silents(19) [OF s]
    by (auto simp: sync_pids_def case_prod_beta split: if_splits option.splits)
qed

lemma silent_slow_loop:
  assumes s: "silent f os" and ok: "daemon_ok d0"
    and run: "slow_loop os dt now limit 0 shown d0 w0 = Some (d', w')"
  shows "f w' = f w0"
  using ok refl _ _ _ _ _ run
proof (rule slow_loop_keeps [where Q = "\<lambda>d w. f w = f w0"])
  show "f w' = f w0" if "f w = f w0" "sample_slot os i dt hw d w = (b, d', w')" for i hw d w b d' w'
  proof -
    have "f (snd (snd (sample_slot os i dt hw d w))) = f w"
      by (simp add: sample_slot_def refresh_io_def Let_def case_prod_beta silents [OF s])
    with that show ?thesis by simp
  qed
  show "f (snd (show_slot os i pid now d w)) = f w0" if "f w = f w0" for i pid d w
    using that by (simp add: show_slot_def Let_def case_prod_beta silents [OF s])
qed (simp_all add: silent_remove [OF s] silents [OF s])

lemma silent_tick:
  assumes s: "silent f os" and ok: "daemon_ok d" and run: "tick os ls d w = Some (ls', dl, d', w')"
  shows "f w' = f w"
proof (rule tick_phases [OF ok run])
  fix t w1 d1
  assume c: "sys_clock os w = (t, w1)"
    and mid: "d1 = d \<and> w' = w1 \<or> (\<exists>dt ds ws. sync_pids os d w1 = Some (ds, ws) \<and> daemon_ok ds \<and>
       slow_loop os dt (now_ns_of t) (display_limit ds) 0 0 ds ws = Some (d1, w'))"
  have "f w1 = f w" using silents(19) [OF s, of w] c by simp
  with mid show "f w' = f w"
    using silent_sync_pids [OF s] silent_slow_loop [OF s] by (elim disjE exE conjE) (simp, metis)
qed

text \<open>\<open>n w\<close> sleeps from now a signal is delivered; looking at \<open>g_running\<close> does not postpone it.\<close>

definition signal_after :: "('w \<Rightarrow> nat) \<Rightarrow> 'w host \<Rightarrow> bool" where
  "signal_after n h \<longleftrightarrow> silent n (h_sys h) \<and>
     (\<forall>t w. n (snd (h_sleep h t w)) \<le> n w - 1) \<and>
     (\<forall>w. n (snd (h_signal h w)) = n w) \<and> (\<forall>w. n w = 0 \<longrightarrow> fst (h_signal h w))"

lemma loop_ends:
  assumes sig: "signal_after n h" and st: "stat_lines_ok (h_sys h)"
  shows "daemon_ok d \<Longrightarrow> n w < fuel \<Longrightarrow> \<exists>d' w'. sampling_loop h fuel ls run d w = Done (d', w')"
proof (induction fuel arbitrary: ls run d w)
  case (Suc fuel)
  have sl: "silent n (h_sys h)" "n (snd (h_sleep h t w)) \<le> n w - 1" "n (snd (h_signal h w)) = n w"
    "n w = 0 \<Longrightarrow> fst (h_signal h w)" for t w using sig by (auto simp: signal_after_def)
  obtain s w1 where g: "h_signal h w = (s, w1)" by (metis prod.exhaust)
  have n1: "n w1 = n w" and s0: "n w = 0 \<Longrightarrow> s" using sl(3,4) [of w] g by auto
  obtain run1 where k: "look_running h run w = (run1, w1)" "s \<longrightarrow> run1 = 0"
    by (auto simp: look_running_def g handle_signal_def)
  show ?case
  proof (cases "run1 = 0")
    case True
    then show ?thesis using k by simp
  next
    case False
    then have "0 < n w" using k s0 by auto
    obtain ls' dl d1 w2 where t: "tick (h_sys h) ls d w1 = Some (ls', dl, d1, w2)" and ok1: "daemon_ok d1"
      using tick_result [OF Suc.prems(1) st prod.collapse [symmetric] refl, of ls w1] by auto
    have n2: "n w2 = n w" using silent_tick [OF sl(1) Suc.prems(1) t] n1 by simp
    obtain ret w3 where s3: "h_sleep h dl w2 = (ret, w3)" by (metis prod.exhaust)
    obtain run2 w4 where k2: "look_running h run1 w3 = (run2, w4)" by (metis prod.exhaust)
    have n3: "n w3 < fuel" using sl(2) [where t = dl and w = w2] s3 n2 \<open>0 < n w\<close> Suc.prems(2) by simp
    have n4: "n w4 < fuel" using n3 sl(3) [of w3] k2 by (auto simp: look_running_def split: prod.splits)
    show ?thesis
      using k False t s3 k2 Suc.IH [OF ok1 n3] Suc.IH [OF ok1 n4] by simp
  qed
qed simp

lemma main_terminates_loop:
  assumes "signal_after n h" and "stat_lines_ok (h_sys h)"
  shows "\<exists>k. \<forall>fuel > k. \<exists>c w'. main h fuel argv w = Done (c, w')"
proof (cases "startup h argv w")
  case (Inl e)
  then show ?thesis by (cases e) (simp add: main_def)
next
  case (Inr r)
  obtain csv d w1 where r: "r = (csv, d, w1)" by (metis prod_cases3)
  obtain t w2 where t: "sys_clock (h_sys h) w1 = (t, w2)" by (metis prod.exhaust)
  have "\<exists>c w'. main h fuel argv w = Done (c, w')" if f: "n w2 < fuel" for fuel
  proof -
    obtain d' w' where "sampling_loop h fuel \<lparr>sample_num = 0, first_slow = True, last_slow = t\<rparr> 1 d w2 = Done (d', w')"
      using loop_ends [OF assms startup_ok(1) [OF Inr [unfolded r]] f] by blast
    then show ?thesis by (simp add: main_def Inr r run_sampling_loop_def t)
  qed
  then show ?thesis by blast
qed

subsection \<open>The handles of the tracer\<close>

text \<open>
  No call but those that load, attach and destroy the tracer changes the observation \<open>f\<close>: neither
  those of a tick nor those of the other steps of startup and shutdown.
\<close>

definition quiet :: "('w \<Rightarrow> 'b) \<Rightarrow> 'w host \<Rightarrow> bool" where
  "quiet f h \<longleftrightarrow> silent f (h_sys h) \<and>
     (\<forall>n c fd w. f (shm_unlink (sys_shm (h_sys h)) n w) = f w \<and> f (snd (shm_open (sys_shm (h_sys h)) n c w)) = f w \<and>
        f (snd (shm_fchmod (sys_shm (h_sys h)) fd w)) = f w \<and> f (snd (shm_ftruncate (sys_shm (h_sys h)) fd w)) = f w \<and>
        f (snd (shm_mmap (sys_shm (h_sys h)) fd w)) = f w \<and> f (shm_munmap (sys_shm (h_sys h)) w) = f w \<and>
        f (shm_close (sys_shm (h_sys h)) fd w) = f w) \<and>
     (\<forall>p s m fd t w. f (snd (h_nprocs h w)) = f w \<and> f (snd (h_getrlimit h w)) = f w \<and>
        f (snd (h_setrlimit h s m w)) = f w \<and> f (snd (h_fopen h p w)) = f w \<and> f (h_fclose h fd w) = f w \<and>
        f (snd (h_sleep h t w)) = f w \<and> f (snd (h_signal h w)) = f w)"

lemma quiet_calls:
  assumes "quiet f h"
  shows "silent f (h_sys h)" "f (shm_unlink (sys_shm (h_sys h)) n w) = f w" "f (snd (shm_open (sys_shm (h_sys h)) n c w)) = f w"
    "f (snd (shm_fchmod (sys_shm (h_sys h)) fd w)) = f w" "f (snd (shm_ftruncate (sys_shm (h_sys h)) fd w)) = f w"
    "f (snd (shm_mmap (sys_shm (h_sys h)) fd w)) = f w" "f (shm_munmap (sys_shm (h_sys h)) w) = f w"
    "f (shm_close (sys_shm (h_sys h)) fd w) = f w" "f (snd (h_nprocs h w)) = f w" "f (snd (h_getrlimit h w)) = f w"
    "f (snd (h_setrlimit h s m w)) = f w" "f (snd (h_fopen h p w)) = f w" "f (h_fclose h fd w) = f w"
    "f (snd (h_sleep h t w)) = f w" "f (snd (h_signal h w)) = f w"
  using assms by (simp_all add: quiet_def)

lemma quiet_steps:
  assumes q: "quiet f h"
  shows "f (snd (look_running h run w)) = f w" and "f (snd (prepare h argv w)) = f w"
    and "f (snd (rb_create_named (sys_shm (h_sys h)) n w)) = f w" and "f (rb_destroy_named (sys_shm (h_sys h)) n w) = f w"
    and "f (snd (check_proc_io_access (sys_proc (h_sys h)) w)) = f w"
proof -
  note c = quiet_calls [OF q] and s = silent_calls [OF quiet_calls(1) [OF q]]
  show "f (snd (look_running h run w)) = f w" by (simp add: look_running_def case_prod_beta c)
  show "f (snd (prepare h argv w)) = f w"
    by (simp add: prepare_def raise_fd_limit_def Let_def case_prod_beta c split: option.split)
  show "f (snd (rb_create_named (sys_shm (h_sys h)) n w)) = f w"
    by (simp add: rb_create_named_def Let_def case_prod_beta c split: option.split)
  show "f (rb_destroy_named (sys_shm (h_sys h)) n w) = f w" by (simp add: rb_destroy_named_def c)
  have p: "f (snd (probe_file (sys_proc (h_sys h)) path w)) = f w" for path w
    by (simp add: probe_file_def Let_def case_prod_beta s)
  have u: "f (snd (find_user_pid (sys_proc (h_sys h)) pids w)) = f w" for pids w
    by (induction pids arbitrary: w) (simp_all add: Let_def case_prod_beta s split: option.split)
  show "f (snd (check_proc_io_access (sys_proc (h_sys h)) w)) = f w"
    by (simp add: check_proc_io_access_def Let_def case_prod_beta p u s split: option.split)
qed

text \<open>What libbpf holds once the tracer is set up; nothing when that step is not reached or fails.\<close>

definition attached :: "'w host \<Rightarrow> string list \<Rightarrow> 'w \<Rightarrow> handle multiset" where
  "attached h argv w =
    (if length argv < 2 then {#} else
     case init_ebpf (h_sys h) (argv ! 1) (fst (prepare h argv w)) (snd (prepare h argv w)) of
       Inl _ \<Rightarrow> {#} | Inr (d, _) \<Rightarrow> et_handles (g_tracer d))"

lemma init_ebpf_held:
  assumes "libbpf_handles (sys_bpf os) f"
  shows "case init_ebpf os p d w of Inl (c, w') \<Rightarrow> f w' = f w | Inr (d', w') \<Rightarrow> f w' = f w + et_handles (g_tracer d')"
proof -
  obtain r et w1 where l: "ebpf_tracer_load (sys_bpf os) p w = (r, et, w1)" by (metis prod_cases3)
  obtain a et1 w2 where t: "ebpf_tracer_attach (sys_bpf os) et w1 = (a, et1, w2)" by (metis prod_cases3)
  note ld = libbpf_handles.load_held [OF assms l]
  have h2: "f w2 = f w + et_handles et1" by (rule libbpf_handles.attach_held [OF assms t ld(4,1)])
  show ?thesis
  proof (cases "r = 0")
    case False
    then show ?thesis using ld(1,3) by (simp add: init_ebpf_def l)
  next
    case True
    then show ?thesis using h2 libbpf_handles.destroy_held [OF assms, of et1 w2]
      by (simp add: init_ebpf_def l t case_prod_beta)
  qed
qed

lemma startup_held:
  assumes b: "libbpf_handles (sys_bpf (h_sys h)) f" and q: "quiet f h"
  shows "case startup h argv w of Inl (c, w') \<Rightarrow> f w' = f w + attached h argv w
    | Inr (csv, d, w') \<Rightarrow> f w' = f w + et_handles (g_tracer d)"
proof (cases "length argv < 2")
  case True
  then show ?thesis by (simp add: startup_def attached_def)
next
  case False
  obtain d w2 where p: "prepare h argv w = (d, w2)" by (metis prod.exhaust)
  have w2: "f w2 = f w" using quiet_steps(2) [OF q, of argv w] by (simp add: p)
  note e = init_ebpf_held [OF b, where p = "argv ! 1" and d = d and w = w2]
  show ?thesis
  proof (cases "init_ebpf (h_sys h) (argv ! 1) d w2")
    case (Inl a)
    then show ?thesis using False e w2 by (simp add: startup_def attached_def p split: prod.splits)
  next
    case (Inr x)
    obtain d1 w3 where x: "x = (d1, w3)" by (metis prod.exhaust)
    have w3: "f w3 = f w + et_handles (g_tracer d1)" and att: "attached h argv w = et_handles (g_tracer d1)"
      using e w2 Inr x False by (simp_all add: attached_def p)
    have shm: "case init_shm (h_sys h) d1 w3 of Inl (c, w') \<Rightarrow> f w' = f w3
      | Inr (d2, w') \<Rightarrow> f w' = f w3 \<and> g_tracer d2 = g_tracer d1"
      by (simp add: init_shm_def rb_create_def rb_create_dash_def Let_def case_prod_beta quiet_steps(3) [OF q])
    show ?thesis
    proof (cases "init_shm (h_sys h) d1 w3")
      case (Inl a)
      then show ?thesis using False Inr x shm w3 att p by (cases a) (simp add: startup_def)
    next
      case y: (Inr y)
      obtain d2 w4 where y': "y = (d2, w4)" by (metis prod.exhaust)
      have csv: "case open_csv h d2 w5 of Inl (c, w') \<Rightarrow> f w' = f w5 | Inr (csv, d, w') \<Rightarrow> f w' = f w5 \<and> g_tracer d = g_tracer d2" for w5
        by (simp add: open_csv_def Let_def case_prod_beta quiet_calls [OF q] split: option.split)
      show ?thesis
        using False Inr x y y' shm w3 att p csv [of "snd (check_proc_io_access (sys_proc (h_sys h)) w4)"]
          quiet_steps(5) [OF q, of w4]
        by (auto simp add: startup_def case_prod_beta split: sum.splits)
    qed
  qed
qed

lemma tick_tracer: "daemon_ok d \<Longrightarrow> tick os ls d w = Some (ls', dl, d', w') \<Longrightarrow> g_tracer d' = g_tracer d"
  by (erule (1) tick_phases)

lemma loop_quiet:
  assumes q: "quiet f h"
  shows "daemon_ok d \<Longrightarrow> sampling_loop h fuel ls run d w = Done (d', w') \<Longrightarrow> f w' = f w \<and> g_tracer d' = g_tracer d"
proof (induction fuel arbitrary: ls run d w)
  case (Suc fuel)
  obtain run1 w1 where k: "look_running h run w = (run1, w1)" by (metis prod.exhaust)
  have l1: "f w1 = f w" using quiet_steps(1) [OF q, of run w] k by simp
  show ?case
  proof (cases "run1 = 0")
    case True
    then show ?thesis using Suc.prems k l1 by simp
  next
    case False
    obtain ls' dl d1 w2 where t: "tick (h_sys h) ls d w1 = Some (ls', dl, d1, w2)"
      using Suc.prems(2) k False by (auto split: option.splits)
    have ok1: "daemon_ok d1" by (rule tick_phases [OF Suc.prems(1) t])
    have l2: "f w2 = f w" and tr: "g_tracer d1 = g_tracer d"
      using silent_tick [OF quiet_calls(1) [OF q] Suc.prems(1) t] tick_tracer [OF Suc.prems(1) t] l1 by simp_all
    obtain ret w3 where s: "h_sleep h dl w2 = (ret, w3)" by (metis prod.exhaust)
    obtain run2 w4 where k2: "look_running h run1 w3 = (run2, w4)" by (metis prod.exhaust)
    have "f w3 = f w" "f w4 = f w"
      using quiet_calls(14) [OF q, of dl w2] quiet_steps(1) [OF q, of run1 w3] s k2 l2 by simp_all
    then show ?thesis
      using Suc.prems(2) k False t s k2 tr Suc.IH [OF ok1, of ls' run1 w3] Suc.IH [OF ok1, of ls' run2 w4]
      by (auto split: if_splits)
  qed
qed simp

lemma cleanup_held:
  assumes b: "libbpf_handles (sys_bpf (h_sys h)) f" and q: "quiet f h"
  shows "f (snd (cleanup h csv d w)) = f w - et_handles (g_tracer d)"
proof -
  note s = quiet_calls(1) [OF q]
  have one: "f (snd (cleanup_slot (h_sys h) i d w)) = f w \<and> g_tracer (fst (cleanup_slot (h_sys h) i d w)) = g_tracer d" for i d w
    by (simp add: cleanup_slot_def Let_def case_prod_beta silents [OF s])
  have all: "f (snd (cleanup_slots (h_sys h) is d w)) = f w \<and> g_tracer (fst (cleanup_slots (h_sys h) is d w)) = g_tracer d" for "is" d w
    by (induction "is" arbitrary: d w) (simp_all add: Let_def case_prod_beta one)
  show ?thesis
    by (simp add: cleanup_def Let_def case_prod_beta rb_destroy_def rb_destroy_dash_def all quiet_steps(4) [OF q] quiet_calls [OF q]
        libbpf_handles.destroy_held [OF b] split: option.split)
qed

lemma main_held:
  assumes b: "libbpf_handles (sys_bpf (h_sys h)) f" and q: "quiet f h" and run: "main h fuel argv w = Done (c, w')"
  shows "f w' = f w + (if c = 0 then {#} else attached h argv w) \<and> (c = 0 \<or> c = 1) \<and> (c = 1 \<longleftrightarrow> (\<exists>e. startup h argv w = Inl e))"
proof (cases "startup h argv w")
  case (Inl e)
  then have e: "e = (c, w')" using run by (simp add: main_def)
  moreover have "c = 1" using Inl unfolding e
    by (auto simp: startup_def init_ebpf_def init_shm_def open_csv_def Let_def split: if_splits sum.splits prod.splits option.splits)
  ultimately show ?thesis using startup_held [OF b q, where argv = argv and w = w] Inl by simp
next
  case (Inr r)
  obtain csv d w1 where r: "r = (csv, d, w1)" by (metis prod_cases3)
  have w1: "f w1 = f w + et_handles (g_tracer d)" using startup_held [OF b q, where argv = argv and w = w] by (simp add: Inr r)
  obtain t w2 where t: "sys_clock (h_sys h) w1 = (t, w2)" by (metis prod.exhaust)
  have w2: "f w2 = f w1" using silents(19) [OF quiet_calls(1) [OF q], of w1] t by simp
  obtain d' w3 where lp: "run_sampling_loop h fuel 1 d w1 = Done (d', w3)"
    and w': "w' = snd (cleanup h csv d' w3)" and c: "c = 0"
    using run by (auto simp: main_def Inr r split: outcome.splits)
  have "f w3 = f w2 \<and> g_tracer d' = g_tracer d"
    using loop_quiet [OF q startup_ok(1) [OF Inr [unfolded r]]] lp by (simp add: run_sampling_loop_def t)
  then show ?thesis using w1 w2 by (simp add: w' c Inr cleanup_held [OF b q])
qed

text \<open>The doubly instrumented host is such a host, for any host.\<close>

lemma ledgers_bpf: "libbpf_handles (sys_bpf (h_sys (host_ledgers h))) held"
  using libbpf2.libbpf_handles_axioms by (simp add: sys_handles_def comp_def)

lemma ledgers_quiet: "quiet held (host_ledgers h)"
  by (simp add: quiet_def silent_def host_tracked_def host_handles_def sys_tracked_def sys_handles_def perf_tracked_def
      perf_lifted_def proc_tracked_def proc_lifted_def shm_tracked_def shm_lifted_def bpf_lifted_def bpf_handles_def
      case_prod_beta Let_def)

subsection \<open>The states the daemon goes through\<close>

text \<open>
  Between two ticks the world may change in any way that leaves what the daemon holds alone. \<open>B\<close>
  is what was open before the program started, with the CSV file, and \<open>H\<close> the handles libbpf had
  given out.
\<close>

inductive reach :: "'w host \<Rightarrow> string list \<Rightarrow> int multiset \<Rightarrow> handle multiset \<Rightarrow> daemon \<Rightarrow>
    ('w \<times> handle multiset) \<times> int multiset \<Rightarrow> bool"
  for h :: "'w host" and argv :: "string list" where
  boot: "startup (host_ledgers h) argv ((v, H), F) = Inr (csv, d, w') \<Longrightarrow> reach h argv (F + csv_fds csv) H d w'"
| step: "reach h argv B H d w \<Longrightarrow> tick (sys_tracked (sys_handles (h_sys h))) ls d w = Some (ls', dl, d', w') \<Longrightarrow>
    reach h argv B H d' ((v, held w'), led w')"

inductive_cases reachE: "reach h argv B H d w"

lemma tick_cfg: "daemon_ok d \<Longrightarrow> tick os ls d w = Some (ls', dl, d', w') \<Longrightarrow> daemon_ok d' \<and> g_cfg d' = g_cfg d"
  by (erule (1) tick_phases) simp

lemma reach_inv:
  assumes "reach h argv B H d w"
  shows "daemon_ok d \<and> ledger B d w \<and> in_budget d \<and> held w = H + et_handles (g_tracer d) \<and>
    g_cfg d = (parse_args (drop 2 argv))\<lparr>running := True\<rparr>"
  using assms
proof induction
  case (boot v H F csv d w')
  note ok = startup_ok [OF boot]
  have "led w' = F + csv_fds csv" using led_startup [where h = "host_handles h" and argv = argv and w = "((v, H), F)"] unfolding boot by simp
  moreover have "held w' = H + et_handles (g_tracer d)"
    using startup_held [OF ledgers_bpf [of h] ledgers_quiet [of h], where argv = argv and w = "((v, H), F)"] by (simp add: boot)
  moreover have "rows d = []" using ok(2) by (simp add: rows_def)
  ultimately show ?case using ok daemon_okD(2) [OF ok(1)] by (simp add: ledger_def owns_def table_fds_def in_budget_def)
next
  case (step B H d w ls ls' dl d' w' v)
  then have ok: "daemon_ok d" and l: "ledger B d w" by simp_all
  have "silent held (sys_tracked (sys_handles (h_sys h)))" using quiet_calls(1) [OF ledgers_quiet, of h] by simp
  from silent_tick [OF this ok step.hyps(2)] have "held w' = held w" .
  then show ?case
    using step ledger_tick [OF ok l step.hyps(2)] in_budget_tick [OF ok _ step.hyps(2)] tick_cfg [OF ok step.hyps(2)]
      tick_tracer [OF ok step.hyps(2)] ledger_led [of B d' w' "((v, held w'), led w')"] by simp
qed

subsection \<open>Properties\<close>

text \<open>
  C3. No descriptor is lost or shared, and the budget holds: in every state the daemon goes
  through, whatever the kernel answers, the descriptors its own calls have open are those from
  before the start, the CSV file's, and for each slot its own counters and I/O file, every stream
  and directory being closed again; what libbpf holds for it is exactly the tracer's object and
  links; the slots hold different processes, and together they need at most half of the estimate
  the descriptor limit was raised to at startup.
\<close>

theorem descriptors_accounted:
  assumes "reach h argv B H d w"
  shows "led w = B + table_fds d \<and> held w = H + et_handles (g_tracer d) \<and> distinct (slot_pids d) \<and>
    2 * (int (size (table_fds d)) + 64) \<le> fd_estimate ((parse_args (drop 2 argv))\<lparr>running := True\<rparr>)"
proof -
  note i = reach_inv [OF assms]
  have "int (g_n_active d) \<le> max_tracked (g_cfg d)"
    by (rule in_budget_bound) (use i in \<open>simp_all add: daemon_okD\<close>)
  moreover have "int (size (table_fds d)) \<le> 4 * int (g_n_active d)" using table_fds_size [of d] by linarith
  ultimately show ?thesis using i by (simp add: ledger_def owns_def daemon_ok_def table_ok_def fd_estimate_def)
qed

text \<open>
  A host for the examples: the system of the tick's examples with a kernel that loads the
  tracer; the world counts the sleeps left until a signal arrives.
\<close>

definition demo_host :: "nat host" where
  "demo_host =
    \<lparr>h_sys = demo_sys\<lparr>sys_bpf := quiet_bpf\<lparr>bo_open := \<lambda>p w. (Some 1, w), bo_map_by_name := \<lambda>ob n w. Some 1,
       bo_map_fd := \<lambda>m w. 10, bo_prog_by_name := \<lambda>ob n w. Some 1, bo_attach := \<lambda>p w. (Some 1, w)\<rparr>\<rparr>,
     h_nprocs = \<lambda>w. (4, w), h_getrlimit = \<lambda>w. (Some (1024, 4096), w), h_setrlimit = \<lambda>s m w. (0, w),
     h_fopen = \<lambda>p w. (9, w), h_fclose = \<lambda>fd w. w, h_sleep = \<lambda>t w. (0, w - 1), h_signal = \<lambda>w. (w = 0, w)\<rparr>"

abbreviation demo_argv :: "string list" where "demo_argv \<equiv> [''schedmon'', ''ctx_switch.bpf.o'', ''--csv'', ''out.csv'']"

lemma demo_host_stat: "stat_lines_ok (h_sys demo_host)"
  using demo_stat_lines by (simp add: stat_lines_ok_def demo_host_def demo_sys_def)

lemma demo_startup:
  "\<exists>d H. startup (host_ledgers demo_host) demo_argv ((3, {#}), F) = Inr (Some 9, d, ((3, H), add_mset 9 F))"
proof -
  let ?h = "host_ledgers demo_host" and ?os = "sys_tracked (sys_handles (h_sys demo_host))"
  let ?c = "(parse_args [''--csv'', ''out.csv''])\<lparr>running := True\<rparr>"
  let ?d = "(globals_zero ?c)\<lparr>g_scanner := proc_scanner_init\<rparr>"
  have p: "prepare ?h demo_argv ((3, {#}), F) = (?d, ((3, {#}), F))"
    by (simp add: prepare_def raise_fd_limit_def host_tracked_def host_handles_def demo_host_def along_def Let_def split: option.split)
  have "\<exists>d1 H. init_ebpf ?os p ?d ((3, {#}), F) = Inr (d1, ((3, H), F)) \<and> g_cfg d1 = ?c" for p
    by (simp add: init_ebpf_def ebpf_tracer_load_def ebpf_tracer_attach_def find_map_fd_def attach_prog_def Let_def
        demo_host_def demo_sys_def sys_handles_def bpf_lifted_def bpf_handles_def along_def quiet_bpf_def et_blank_def)
      (simp add: globals_zero_def Let_def)
  then obtain d1 H where e: "init_ebpf ?os ''ctx_switch.bpf.o'' ?d ((3, {#}), F) = Inr (d1, ((3, H), F))" "g_cfg d1 = ?c" by blast
  have "\<exists>d2. init_shm ?os d1 ((3, H), F) = Inr (d2, ((3, H), F)) \<and> g_cfg d2 = g_cfg d1"
    by (simp add: init_shm_def rb_create_def rb_create_dash_def rb_create_named_def Let_def
        demo_host_def demo_sys_def sys_handles_def shm_tracked_def shm_lifted_def along_def along_eff_def shm_example_def)
  then obtain d2 where r: "init_shm ?os d1 ((3, H), F) = Inr (d2, ((3, H), F))" "g_cfg d2 = g_cfg d1" by blast
  have "snd (check_proc_io_access (sys_proc ?os) ((3, H), F)) = ((3, H), F)"
    by (simp add: check_proc_io_access_def probe_file_def demo_host_def demo_sys_def sys_handles_def proc_tracked_def
        proc_lifted_def along_def one_os_def)
  then obtain io_ok where io: "check_proc_io_access (sys_proc ?os) ((3, H), F) = (io_ok, ((3, H), F))"
    by (metis prod.collapse)
  have "csv_path (g_cfg d2) = Some ''out.csv''"
    by (simp add: r(2) e(2) parse_args_def Let_def default_config_def)
  then have "open_csv ?h d2 ((3, H), F) = Inr (Some 9, d2\<lparr>g_csv := Some []\<rparr>, ((3, H), add_mset 9 F))"
    by (simp add: open_csv_def host_tracked_def host_handles_def along_def demo_host_def)
  then show ?thesis using e(1) r(1) io by (simp add: startup_def p)
qed

theorem descriptors_accounted_witness:
  "\<exists>d w. reach demo_host demo_argv {#2, 9#} {#} d w \<and> led w = {#2, 9#} + table_fds d \<and> held w = et_handles (g_tracer d)"
proof -
  obtain d H where "startup (host_ledgers demo_host) demo_argv ((3, {#}), {#2#}) = Inr (Some 9, d, ((3, H), {#9, 2#}))"
    using demo_startup by blast
  from reach.boot [OF this] have r: "reach demo_host demo_argv {#2, 9#} {#} d ((3, H), {#9, 2#})"
    by (simp add: csv_fds_def add_mset_commute)
  have "led ((3, H), {#9, 2#}) = {#2, 9#} + table_fds d" "held ((3, H), {#9, 2#}) = et_handles (g_tracer d)"
    using descriptors_accounted [OF r] by simp_all
  then show ?thesis using r by blast
qed

text \<open>
  C4. What a process leaves behind, on every path: the descriptors its own calls have open at its
  end are those from before, whether it ends with a usage error, because the tracer, the rings
  or the CSV file could not be set up (status 1), or by a signal after any number of ticks (status
  0). What libbpf holds is as before after a run that ends with status 0, after a usage error and
  after a tracer that could not be loaded or attached; but when a later step of the startup fails
  the process exits with the tracer's object and links still held, and leaves them to the kernel.
\<close>

theorem main_returns_descriptors:
  assumes "main (host_ledgers h) fuel argv ((v, H), F) = Done (c, ((v', H'), F'))"
  shows "F' = F \<and> H' = H + (if c = 0 then {#} else attached (host_ledgers h) argv ((v, H), F)) \<and>
    (c = 0 \<or> c = 1) \<and> (c = 1 \<longleftrightarrow> (\<exists>e. startup (host_ledgers h) argv ((v, H), F) = Inl e))"
proof -
  note q = main_held [OF ledgers_bpf ledgers_quiet assms]
  have f: "F' = F" using main_ledger [OF assms] by simp
  have "H' = H + (if c = 0 then {#} else attached (host_ledgers h) argv ((v, H), F))" using conjunct1 [OF q] by simp
  then show ?thesis using f conjunct2 [OF q] by (intro conjI) blast+
qed

text \<open>
  C7. The daemon stops: if the readable stat lines are well formed and a signal is delivered
  after finitely many sleeps, then with enough fuel the program returns, without undefined
  behaviour, from every command line. The loop makes at most one more look per sleep.
\<close>

theorem main_terminates:
  assumes "signal_after n h" and "stat_lines_ok (h_sys h)"
  shows "\<exists>k. \<forall>fuel > k. \<exists>c w'. main h fuel argv w = Done (c, w')"
  using assms by (rule main_terminates_loop)

text \<open>
  C29. The descriptor limit asked for at startup is sound for every command line: the estimate does
  not overflow, nothing is asked for when it is covered, and otherwise the new soft limit is
  not lower than the old one, not above the hard limit, and covers the estimate unless it is
  the hard limit itself.
\<close>

theorem fd_limit_request:
  assumes "soft \<le> hard" and "c = parse_args argv"
  shows "uint (word_of_int (fd_estimate c) :: u64) = fd_estimate c \<and>
    (case fd_target (word_of_int (fd_estimate c)) soft hard of
       None \<Rightarrow> word_of_int (fd_estimate c) \<le> soft
     | Some t \<Rightarrow> soft \<le> t \<and> t \<le> hard \<and> (word_of_int (fd_estimate c) \<le> t \<or> t = hard))"
proof -
  have "cfg_ok c" using parse_args_cfg_ok assms(2) by simp
  then have "0 \<le> fd_estimate c \<and> fd_estimate c \<le> 2176"
    by (auto simp: cfg_ok_def fd_estimate_def max_tracked_def)
  then have "uint (word_of_int (fd_estimate c) :: u64) = fd_estimate c" by (simp add: uint_word_of_int)
  then show ?thesis using assms(1) by (auto simp: fd_target_def)
qed

lemma demo_signal: "signal_after id demo_host"
  by (simp add: signal_after_def silent_def demo_host_def demo_sys_def group_os_def quiet_bpf_def one_os_def)

lemma demo_signal_tracked: "signal_after (fst \<circ> fst) (host_ledgers demo_host)"
  by (simp add: signal_after_def silent_def host_tracked_def host_handles_def sys_tracked_def sys_handles_def perf_tracked_def
      perf_lifted_def bpf_lifted_def bpf_handles_def proc_tracked_def proc_lifted_def demo_host_def demo_sys_def group_os_def
      quiet_bpf_def one_os_def case_prod_beta Let_def)

lemma demo_tracked_stat: "stat_lines_ok (h_sys (host_ledgers demo_host))"
  using demo_host_stat
  by (fastforce simp: stat_lines_ok_def serves_stat_def sys_handles_def proc_tracked_def proc_lifted_def along_def split: prod.splits)

theorem main_returns_descriptors_witness:
  "\<exists>fuel w' H'. main (host_ledgers demo_host) fuel demo_argv ((3, {#}), {#2#}) = Done (0, ((w', H'), {#2#})) \<and> H' = {#}"
proof -
  obtain k where "\<forall>fuel > k. \<exists>c w'. main (host_ledgers demo_host) fuel demo_argv ((3, {#}), {#2#}) = Done (c, w')"
    using main_terminates_loop [OF demo_signal_tracked demo_tracked_stat] by blast
  then obtain c w' H' F' where m: "main (host_ledgers demo_host) (Suc k) demo_argv ((3, {#}), {#2#}) = Done (c, ((w', H'), F'))"
    by (metis lessI prod.exhaust)
  have "\<nexists>e. startup (host_ledgers demo_host) demo_argv ((3, {#}), {#2#}) = Inl e"
    using demo_startup [of "{#2#}"] by (metis sum.distinct(1))
  then have c: "c = 0" and f: "F' = {#2#}" "H' = {#}" using main_returns_descriptors [OF m] by auto
  from m have "main (host_ledgers demo_host) (Suc k) demo_argv ((3, {#}), {#2#}) = Done (0, ((w', {#}), {#2#}))"
    unfolding c f .
  then show ?thesis by blast
qed

theorem main_terminates_witness: "\<exists>fuel c w'. main demo_host fuel demo_argv 3 = Done (c, w')"
  using main_terminates [OF demo_signal demo_host_stat, of demo_argv 3] by blast

theorem fd_limit_request_witness: "fd_target (word_of_int (fd_estimate (parse_args []))) 1024 4096 = Some 4096"
proof -
  have "fd_estimate (parse_args []) = 2176"
    by (simp add: fd_estimate_def max_tracked_def parse_args_def Let_def default_config_def)
  with fd_limit_request [of 1024 4096 "parse_args []" "[]"] show ?thesis by (simp add: fd_target_def)
qed

end
