(* ===== verification/Spec2Isabelle.thy ===== *)
theory Spec2Isabelle
  imports Bpf_Program Ebpf_Tracer Ring_Spsc Config Daemon
begin

text \<open>
  A model of \<^bold>\<open>schedmon\<close>, a monitoring daemon for Linux, and the theorems that make it correct.
  The daemon samples hardware counters, kernel-side event counts and \<^verbatim>\<open>/proc\<close> for a set of
  processes, smooths the rates over sliding windows, and publishes them to a classifier and a
  dashboard through two ring buffers in shared memory.

  \<^bold>\<open>Parts and how they interact.\<close> A program in the kernel (\<^verbatim>\<open>bpf/ctx_switch.bpf.c\<close>) counts events in
  nine maps. The daemon's tracer (\<^verbatim>\<open>src/ebpf_tracer.c\<close>) loads it and reads the maps; its counters
  (\<^verbatim>\<open>src/perf_counter.c\<close>) come from \<open>perf_event_open\<close>; its scanner (\<^verbatim>\<open>src/proc_scanner.c\<close>) ranks the
  processes by the CPU time they used since the last scan. \<^verbatim>\<open>src/schedmon.c\<close> keeps one slot per
  monitored process in parallel arrays, brings the slots in line with the ranking or the command
  line once a second, samples every slot on every fourth tick (the slow path), pushes the rates
  through the windows (\<^verbatim>\<open>src/sliding_window.c\<close>) and the smoothed samples into the rings
  (\<^verbatim>\<open>src/ring_buffer.c\<close>), and on every tick republishes the fresh samples to the main ring (the
  fast path).

  \<^bold>\<open>The theories\<close>, each importing the ones it calls:

    \<^item> \<open>Prelude\<close>: machine integers, casts, the collections \<open>bounds\<close>, \<open>keeps\<close> and \<open>views\<close>, list facts.
    \<^item> \<open>C_Lib\<close>: the C library's string functions, with the round trip of decimal numbers.
    \<^item> \<open>Binary64\<close>: rounding to nearest even in binary64, with its monotonicity and error bounds.
    \<^item> \<open>Sliding_Window\<close>: \<open>sw_init\<close>, \<open>sw_push\<close>, \<open>sw_mean\<close>. A window is the last ten samples (locale
      \<open>bounded_window\<close>); the drift of its running sum is bounded for any number of pushes.
    \<^item> \<open>Smoothed_Metrics\<close>: the record of one sample and \<open>sm_is_active\<close>.
    \<^item> \<open>Ring_Buffer\<close>: \<open>rb_push\<close>, \<open>rb_pop\<close>, creation and removal of the segments. The ring is a
      queue that refuses when full (locale \<open>bounded_queue\<close>); \<open>None\<close> is undefined behaviour.
    \<^item> \<open>Ring_Spsc\<close>: one producer and one consumer as a step relation on single loads and stores.
    \<^item> \<open>Perf_Counter\<close>: opening, reading and closing a group of counters or the software fallback.
    \<^item> \<open>Bpf_Map\<close>, \<open>Bpf_Program\<close>: bounded hash maps (locale \<open>bpf_hash\<close>), the seven handlers, and what
      they account over whole traces of events: switches, waits, block requests, exits.
    \<^item> \<open>Ebpf_Tracer\<close>: loading, attaching, the readers and writers; libbpf is a parameter. The locale
      \<open>pid_maps\<close> (updates touch the named key only) is instantiated by the maps of the kernel-side
      program; the locale \<open>libbpf_handles\<close> (what libbpf holds for its client) by any libbpf that is
      instrumented with the objects it opened and the links it made.
    \<^item> \<open>Proc_Io\<close>, \<open>Proc_Scanner\<close>: the readers of \<^verbatim>\<open>/proc\<close>, each opening and closing its stream or
      directory, the process table and the ranking; the C library's \<open>qsort\<close> is a parameter (locale
      \<open>c_qsort\<close>). \<open>scan_reads\<close> lists what a scan reads, and a scanned table holds nothing else.
    \<^item> \<open>Config\<close>, \<open>Clock\<close>: the command line; nanosecond stamps and deadlines.
    \<^item> \<open>Slot_Table\<close>: the globals as one record, \<open>find_slot\<close>, \<open>add_pid\<close>, \<open>remove_slot\<close>, \<open>sync_pids\<close>.
      A \<^emph>\<open>row\<close> is all the cells of a slot; removal moves the last row into the hole.
    \<^item> \<open>Sampling\<close>: one iteration of \<open>run_sampling_loop\<close>: rates, baselines, the slow and the fast path.
    \<^item> \<open>Publishing\<close>: the invariant of a tick, and what each ring is offered, in order, slot by slot:
      a \<open>reading\<close> is what the kernel told of a slot, a \<open>visit\<close> the slot before and after with its reading.
    \<^item> \<open>Tick\<close>: the iteration as a whole, with the properties of ticks and synchronisations.
    \<^item> \<open>Ownership\<close>: the descriptors of the daemon (counters, files, streams, directories, shared
      memory), and the bound on the number of slots.
    \<^item> \<open>Daemon\<close>: startup, the loop with signals, cleanup, \<open>main\<close>.

  \<^bold>\<open>How state and effects correspond.\<close> A C struct is a record with its fields, an array of fixed
  length a list, \<open>uint32_t\<close> and \<open>uint64_t\<close> are words, so counter differences wrap as they do in the
  program; \<open>int\<close> is \<open>int\<close> where the values stay small. Three plain counters that only statistics
  use, the failures and successes of \<^verbatim>\<open>/proc/PID/io\<close> (\<open>io_fd_stats\<close>) and \<open>scan_count\<close>, are \<open>int\<close> too, so
  their overflow after \<open>2 ^ 31\<close> events is not seen. A double is a real that has been rounded after
  every operation; overflow to infinity does not occur and is not modelled. Every system call is a
  function of a record, over an abstract world that it returns changed; nothing is assumed about
  its answers unless a theorem says so. To speak of descriptors the same calls are instrumented
  (\<open>perf_tracked\<close>, \<open>proc_tracked\<close>, \<open>shm_tracked\<close>, \<open>sys_tracked\<close>, \<open>host_tracked\<close>) with the multiset of
  descriptors they opened and did not close, the ones behind streams and directories among
  them. The descriptors of the maps, programs and links of the tracer are libbpf's own, opened and
  closed inside it; what the daemon holds of them are the object and the links, and those are a second
  multiset (\<open>bpf_handles\<close>, \<open>sys_handles\<close>, \<open>host_handles\<close>). \<open>host_ledgers\<close> has both.

  \<^bold>\<open>Undefined behaviour and fuel.\<close> \<open>rb_push\<close>, \<open>read_proc_stat\<close> and what calls them return \<open>None\<close> where
  the C code would leave an array. \<open>tick_safe\<close> shows that this does not happen in a tick while
  the stat lines are well formed. Recursions over a buffer or over the slots terminate by a
  measure. Only the sampling loop has no bound: \<open>sampling_loop\<close> takes fuel, one unit per
  iteration, and \<open>Out_of_fuel\<close> is different from every result. \<open>main_terminates\<close> shows that one more
  unit than there are sleeps until the signal is enough.

  \<^bold>\<open>What the lemmas show.\<close> Per component: the invariant and that every operation keeps it, the
  behaviour on every branch, the abstraction (queue, last ten samples, map, multiset of rows)
  and that the code refines it, round trips for the parsed formats. Across components:
  \<open>tracer_reads_switches\<close> follows an event from the kernel's handler to the daemon's reader;
  \<open>slow_tick_publishes\<close> and \<open>fast_tick_publishes\<close> say exactly what the rings are offered, from the
  values read for each slot; \<open>sync_keeps_histories\<close> that no process inherits another's history;
  \<open>descriptors_accounted\<close> that in every reachable state each open descriptor belongs to one slot or the
  CSV file and libbpf holds exactly the tracer's object and links; \<open>main_returns_descriptors\<close> what is left
  on each path to the end of the process. The rules \<open>slow_loop_rule\<close>, \<open>slow_loop_keeps\<close>, \<open>prune_keeps\<close> and \<open>tick_phases\<close> carry a
  property through the loops once for all clients.

  \<^bold>\<open>What the proofs exposed.\<close> A slow tick offers each sample to the main ring twice
  (\<open>slow_tick_publishes\<close>); the reset after a pid was reused keeps one old baseline
  (\<open>reset_leaves_io_count\<close>); threads leave entries behind in the kernel's maps
  (\<open>exited_threads_leak\<close>); an idle window can keep a positive mean until the next recompute
  (\<open>window_residue\<close>); when a late step of the startup fails the tracer is left to the kernel
  (\<open>main_returns_descriptors\<close>).

  \<^bold>\<open>Not modelled.\<close> Output for people (the terminal table, log messages, \<open>proc_scanner_print\<close>, the
  formatting of a CSV line, whose fields are kept); the number of cores, which is only printed;
  the order in which weakly ordered memory may show the accesses of the two ring processes (the
  acquire and release operations of the code order the ones the step relation orders); the
  Python tools and the packaging.
\<close>

end
